(* ===== verification/Prelude.thy ===== *)
theory Prelude
  imports Main "HOL-Library.Word" "HOL-Library.Monad_Syntax"
begin

text \<open>
  Vocabulary shared by every component: the machine types of the LP64 target, the constants
  of the C headers the sources use, and the lemmas on words that the component proofs
  apply. Nothing here models a particular source file.
\<close>

section \<open>Machine types\<close>

type_synonym byte = "8 word"
type_synonym size_t = "64 word"
type_synonym addr = "64 word"
type_synonym u32 = "32 word"

abbreviation NULL :: addr where "NULL \<equiv> 0"

text \<open>\<open>SIZE_MAX\<close> of stdint.h on the 64-bit target.\<close>

definition SIZE_MAX :: size_t where "SIZE_MAX = - 1"

text \<open>The exit code of a failed process, from stdlib.h.\<close>

definition EXIT_FAILURE :: int where "EXIT_FAILURE = 1"

section \<open>Proof collections\<close>

named_theorems word_nat "facts that move a goal on words to the naturals"
named_theorems frame "what an update leaves unchanged"

section \<open>Words and naturals\<close>

lemma unat_add_fits [word_nat]:
  fixes a b :: "'a::len word"
  assumes "unat a + unat b < 2 ^ LENGTH('a)"
  shows "unat (a + b) = unat a + unat b"
  using assms by (simp add: unat_word_ariths)

lemma unat_add_of_nat:
  fixes a :: "'a::len word"
  assumes "unat a + k < 2 ^ LENGTH('a)"
  shows "unat (a + of_nat k) = unat a + k"
proof -
  have "unat (of_nat k :: 'a word) = k"
    using assms by (simp add: unat_of_nat)
  with assms show ?thesis by (simp add: unat_add_fits)
qed

lemma unat_diff_fits [word_nat]:
  fixes a b :: "'a::len word"
  assumes "unat b \<le> unat a"
  shows "unat (a - b) = unat a - unat b"
  using assms by (simp add: unat_sub word_le_nat_alt)

lemma unat_lt_64: "unat (a :: 64 word) < 18446744073709551616"
  using unsigned_less [of a] by simp

lemma word_eq_0_iff_unat: "(a :: 'a::len word) = 0 \<longleftrightarrow> unat a = 0"
  by (simp add: unat_eq_zero)

lemma of_nat_byte_mod: "unat (of_nat n :: byte) = n mod 256"
  by (simp add: unat_of_nat)

end
