(* ===== verification/ByteMem.thy ===== *)
theory ByteMem
  imports Prelude
begin

text \<open>
  The process memory as the C code sees it: one byte per address, multi-byte scalars stored
  little-endian as on the x86-64 target. A struct field is a pair of accessors that satisfy the
  contract of the locale \<open>struct_field\<close>; the allocator's header fields are instances of it.
\<close>

section \<open>Little-endian scalars\<close>

type_synonym mem = "addr \<Rightarrow> byte"

fun load_le :: "nat \<Rightarrow> mem \<Rightarrow> addr \<Rightarrow> nat" where
  "load_le 0 m a = 0"
| "load_le (Suc k) m a = unat (m a) + 256 * load_le k m (a + 1)"

fun store_le :: "nat \<Rightarrow> addr \<Rightarrow> nat \<Rightarrow> mem \<Rightarrow> mem" where
  "store_le 0 a n m = m"
| "store_le (Suc k) a n m = store_le k (a + 1) (n div 256) (m(a := of_nat n))"

text \<open>\<open>memset\<close> and \<open>memcpy\<close> of string.h, byte by byte in increasing address order.\<close>

fun memset_bytes :: "nat \<Rightarrow> addr \<Rightarrow> byte \<Rightarrow> mem \<Rightarrow> mem" where
  "memset_bytes 0 p v m = m"
| "memset_bytes (Suc k) p v m = memset_bytes k (p + 1) v (m(p := v))"

fun memcpy_bytes :: "nat \<Rightarrow> addr \<Rightarrow> addr \<Rightarrow> mem \<Rightarrow> mem" where
  "memcpy_bytes 0 d p m = m"
| "memcpy_bytes (Suc k) d p m = memcpy_bytes k (d + 1) (p + 1) (m(d := m p))"

definition memset :: "addr \<Rightarrow> byte \<Rightarrow> size_t \<Rightarrow> mem \<Rightarrow> mem" where
  "memset p v n m = memset_bytes (unat n) p v m"

definition memcpy :: "addr \<Rightarrow> addr \<Rightarrow> size_t \<Rightarrow> mem \<Rightarrow> mem" where
  "memcpy d p n m = memcpy_bytes (unat n) d p m"

section \<open>Address ranges\<close>

definition range_of :: "nat \<Rightarrow> nat \<Rightarrow> addr set" where
  "range_of lo n = {x. lo \<le> unat x \<and> unat x < lo + n}"

lemma range_of_iff [simp]: "x \<in> range_of lo n \<longleftrightarrow> lo \<le> unat x \<and> unat x < lo + n"
  by (simp add: range_of_def)

lemma unat_succ:
  fixes a :: addr
  assumes "unat a + Suc k \<le> 2 ^ 64" and "0 < k"
  shows "unat (a + 1) = Suc (unat a)"
  using unat_add_of_nat [of a 1] assms by simp

lemma store_le_frame [frame]:
  assumes "unat a + k \<le> 2 ^ 64" and "x \<notin> range_of (unat a) k"
  shows "store_le k a n m x = m x"
  using assms
proof (induction k arbitrary: a n m)
  case 0
  then show ?case by simp
next
  case (Suc k)
  have ne: "x \<noteq> a" using Suc.prems(2) by auto
  show ?case
  proof (cases k)
    case 0
    with ne show ?thesis by simp
  next
    case (Suc j)
    with Suc.prems(1) have "unat (a + 1) = Suc (unat a)"
      using unat_succ [of a k] by simp
    with Suc.prems have "unat (a + 1) + k \<le> 2 ^ 64" and "x \<notin> range_of (unat (a + 1)) k"
      by auto
    with Suc.IH ne show ?thesis by simp
  qed
qed

lemma load_le_cong:
  assumes "unat a + k \<le> 2 ^ 64" and "\<And>x. x \<in> range_of (unat a) k \<Longrightarrow> m x = m' x"
  shows "load_le k m a = load_le k m' a"
  using assms
proof (induction k arbitrary: a)
  case 0
  then show ?case by simp
next
  case (Suc k)
  have same: "m a = m' a" using Suc.prems(2) [of a] by simp
  show ?case
  proof (cases k)
    case 0
    with same show ?thesis by simp
  next
    case (Suc j)
    with Suc.prems(1) have u: "unat (a + 1) = Suc (unat a)"
      using unat_succ [of a k] by simp
    with Suc.prems have "load_le k m (a + 1) = load_le k m' (a + 1)"
      by (intro Suc.IH) auto
    with same show ?thesis by simp
  qed
qed

lemma load_store_le:
  assumes "unat a + k \<le> 2 ^ 64"
  shows "load_le k (store_le k a n m) a = n mod 256 ^ k"
  using assms
proof (induction k arbitrary: a n m)
  case 0
  then show ?case by simp
next
  case (Suc k)
  show ?case
  proof (cases k)
    case 0
    then show ?thesis by (simp add: of_nat_byte_mod)
  next
    case (Suc j)
    with Suc.prems(1) have u: "unat (a + 1) = Suc (unat a)"
      using unat_succ [of a k] by simp
    have first: "store_le k (a + 1) (n div 256) (m(a := of_nat n)) a = of_nat n"
      using store_le_frame [of "a + 1" k a] u Suc.prems by simp
    have rest: "load_le k (store_le k (a + 1) (n div 256) (m(a := of_nat n))) (a + 1)
      = n div 256 mod 256 ^ k"
      using Suc.IH [of "a + 1"] u Suc.prems by simp
    have "n mod 256 ^ Suc k = n mod 256 + 256 * (n div 256 mod 256 ^ k)"
      by (simp add: mod_mult2_eq)
    with first rest show ?thesis by (simp add: of_nat_byte_mod)
  qed
qed

section \<open>Block operations of string.h\<close>

lemma memset_bytes_eq:
  assumes "unat p + k \<le> 2 ^ 64"
  shows "memset_bytes k p v m x = (if x \<in> range_of (unat p) k then v else m x)"
  using assms
proof (induction k arbitrary: p m)
  case 0
  then show ?case by auto
next
  case (Suc k)
  show ?case
  proof (cases k)
    case 0
    then show ?thesis by (auto simp: word_unat_eq_iff)
  next
    case (Suc j)
    with Suc.prems have u: "unat (p + 1) = Suc (unat p)"
      using unat_succ [of p k] by simp
    with Suc.prems have "memset_bytes k (p + 1) v (m(p := v)) x
      = (if x \<in> range_of (Suc (unat p)) k then v else (m(p := v)) x)"
      using Suc.IH [of "p + 1"] by simp
    then show ?thesis by (auto simp: word_unat_eq_iff)
  qed
qed

lemma memcpy_bytes_frame [frame]:
  assumes "unat d + k \<le> 2 ^ 64" and "x \<notin> range_of (unat d) k"
  shows "memcpy_bytes k d p m x = m x"
  using assms
proof (induction k arbitrary: d p m)
  case 0
  then show ?case by simp
next
  case (Suc k)
  have ne: "x \<noteq> d" using Suc.prems(2) by auto
  show ?case
  proof (cases k)
    case 0
    with ne show ?thesis by simp
  next
    case (Suc j)
    with Suc.prems(1) have u: "unat (d + 1) = Suc (unat d)"
      using unat_succ [of d k] by simp
    with Suc.prems have "memcpy_bytes k (d + 1) (p + 1) (m(d := m p)) x = (m(d := m p)) x"
      by (intro Suc.IH) auto
    with ne show ?thesis by simp
  qed
qed

lemma memcpy_bytes_copies:
  assumes "unat d + k \<le> 2 ^ 64" and "unat p + k \<le> 2 ^ 64"
    and "unat d + k \<le> unat p \<or> unat p + k \<le> unat d" and "i < k"
  shows "memcpy_bytes k d p m (d + of_nat i) = m (p + of_nat i)"
  using assms
proof (induction k arbitrary: d p m i)
  case 0
  then show ?case by simp
next
  case (Suc k)
  show ?case
  proof (cases k)
    case 0
    with Suc.prems show ?thesis by simp
  next
    case (Suc j)
    with Suc.prems have u: "unat (d + 1) = Suc (unat d)" "unat (p + 1) = Suc (unat p)"
      using unat_succ [of d k] unat_succ [of p k] by simp_all
    show ?thesis
    proof (cases i)
      case 0
      have "d \<notin> range_of (unat (d + 1)) k" using u by simp
      with 0 u Suc.prems show ?thesis by (simp add: memcpy_bytes_frame)
    next
      case (Suc h)
      have "memcpy_bytes k (d + 1) (p + 1) (m(d := m p)) ((d + 1) + of_nat h)
        = (m(d := m p)) ((p + 1) + of_nat h)"
        using Suc.prems Suc u by (intro Suc.IH) auto
      moreover have "unat (p + of_nat i) = unat p + i"
        using Suc.prems by (intro unat_add_of_nat) simp
      then have "p + of_nat i \<noteq> d" using Suc.prems by auto
      ultimately show ?thesis using Suc by (simp add: add.assoc)
    qed
  qed
qed

section \<open>Struct fields\<close>

text \<open>
  The contract of a scalar field of a C struct: reading after writing through the same base
  pointer gives the value written, a write changes only the bytes of the field, and a read
  depends on those bytes only. \<open>off\<close> and \<open>len\<close> are the field's offset and size.
\<close>

locale struct_field =
  fixes fget :: "mem \<Rightarrow> addr \<Rightarrow> 'v"
    and fput :: "addr \<Rightarrow> 'v \<Rightarrow> mem \<Rightarrow> mem"
    and off len :: nat
  assumes get_put: "unat p + off + len \<le> 2 ^ 64 \<Longrightarrow> fget (fput p v m) p = v"
    and put_frame: "unat p + off + len \<le> 2 ^ 64 \<Longrightarrow> x \<notin> range_of (unat p + off) len
      \<Longrightarrow> fput p v m x = m x"
    and get_local: "unat p + off + len \<le> 2 ^ 64
      \<Longrightarrow> (\<And>x. x \<in> range_of (unat p + off) len \<Longrightarrow> m x = m' x) \<Longrightarrow> fget m p = fget m' p"
begin

text \<open>A field is untouched by any change of memory outside its own bytes.\<close>

lemma get_unchanged:
  assumes "unat p + off + len \<le> 2 ^ 64"
    and "\<And>x. m' x \<noteq> m x \<Longrightarrow> x \<notin> range_of (unat p + off) len"
  shows "fget m' p = fget m p"
  using assms by (intro get_local) blast+

lemma get_put_other:
  assumes "unat p + off + len \<le> 2 ^ 64" and "unat q + off + len \<le> 2 ^ 64"
    and "unat p + off + len \<le> unat q + off \<or> unat q + off + len \<le> unat p + off"
  shows "fget (fput q v m) p = fget m p"
proof (rule get_unchanged)
  fix x
  assume "fput q v m x \<noteq> m x"
  then have "x \<in> range_of (unat q + off) len" using put_frame assms(2) by blast
  with assms(3) show "x \<notin> range_of (unat p + off) len" by auto
qed (fact assms(1))

end

end
