(* ===== verification/Libc.thy ===== *)
theory Libc
  imports Prelude
begin

text \<open>
  The functions of the C library that several programs call, from their documentation: printing a
  number in a base, and reading a decimal number.
\<close>

section \<open>Printing numbers\<close>

definition digit_char :: "nat \<Rightarrow> char" where
  "digit_char d = (if d < 10 then char_of (48 + d) else char_of (87 + d))"

fun show_base :: "nat \<Rightarrow> nat \<Rightarrow> string" where
  "show_base b n =
    (if n < b \<or> b < 2 then [digit_char n] else show_base b (n div b) @ [digit_char (n mod b)])"

declare show_base.simps [simp del]

text \<open>\<open>%d\<close> of an \<open>int\<close>.\<close>

definition fmt_d :: "int \<Rightarrow> string" where
  "fmt_d n = (if n < 0 then ''-'' @ show_base 10 (nat (- n)) else show_base 10 (nat n))"

section \<open>Reading numbers\<close>

text \<open>
  \<open>strtol\<close> in base ten, from its documentation: optional white space, an optional sign, digits; the
  result is clamped to the range of \<open>long\<close>, with \<open>errno\<close> set. The rest is what \<open>end\<close> points to.
\<close>

definition is_space :: "char \<Rightarrow> bool" where
  "is_space c \<longleftrightarrow> c \<in> set (map char_of [9 :: nat, 10, 11, 12, 13, 32])"

definition is_digit :: "char \<Rightarrow> bool" where
  "is_digit c \<longleftrightarrow> (48 :: nat) \<le> of_char c \<and> of_char c \<le> (57 :: nat)"

definition digits_value :: "string \<Rightarrow> int" where
  "digits_value ds = foldl (\<lambda>v c. 10 * v + (of_char c - 48)) 0 ds"

definition LONG_MAX :: int where "LONG_MAX = 2 ^ 63 - 1"
definition LONG_MIN :: int where "LONG_MIN = - (2 ^ 63)"

definition strtol :: "string \<Rightarrow> int \<times> string \<times> bool" where
  "strtol str =
    (let t = dropWhile is_space str;
         negative = (t \<noteq> [] \<and> hd t = CHR ''-'');
         u = (if t \<noteq> [] \<and> (hd t = CHR ''-'' \<or> hd t = CHR ''+'') then tl t else t);
         ds = takeWhile is_digit u;
         v = (if negative then - digits_value ds else digits_value ds)
     in if ds = [] then (0, str, False)
        else if v > LONG_MAX then (LONG_MAX, dropWhile is_digit u, True)
        else if v < LONG_MIN then (LONG_MIN, dropWhile is_digit u, True)
        else (v, dropWhile is_digit u, False))"

text \<open>\<open>atoi\<close> is \<open>strtol\<close> in base ten, converted to \<open>int\<close>.\<close>

definition atoi :: "string \<Rightarrow> int" where
  "atoi str = sint (word_of_int (fst (strtol str)) :: u32)"

end
