(* ===== verification/Malloc_Model.thy ===== *)
theory Malloc_Model
  imports ByteMem Libc
begin

text \<open>
  The allocator of Asgn1/malloc.c over a byte-addressed memory: the block headers live in the
  same memory as the payloads, so a header write of the code is a write to bytes. The list
  traversals are \<open>partial_function (option)\<close>: \<open>None\<close> means the C loop does not end, which the
  code can do on a corrupted list. The state record holds the file's static variables, the
  process memory, the kernel's view of the break (start, current, highest permitted), \<open>errno\<close>,
  whether DEBUG_MALLOC is in the environment, and what was written to descriptor 2.
\<close>

section \<open>State\<close>

record malloc_state =
  heap_mem :: mem
  heap_head :: addr
  suppress_debug :: bool
  brk_start :: addr
  brk_cur :: addr
  brk_max :: addr
  errno :: int
  debug_malloc :: bool
  stderr_out :: "string list"

definition ENOMEM :: int where "ENOMEM = 12"

definition CHUNK_SIZE :: size_t where "CHUNK_SIZE = 64 * 1024"

definition MINIMUM_PAYLOAD_SIZE :: size_t where "MINIMUM_PAYLOAD_SIZE = 16"

definition MALLOC_ID :: int where "MALLOC_ID = 1"
definition FREE_ID :: int where "FREE_ID = 2"
definition CALLOC_ID :: int where "CALLOC_ID = 3"
definition REALLOC_ID :: int where "REALLOC_ID = 4"

section \<open>The block header\<close>

text \<open>
  \<open>struct BlockHeader\<close> on LP64: an 8-byte capacity at offset 0, a one-byte \<open>bool\<close> at offset 8
  (seven bytes of padding), an 8-byte link at offset 16.
\<close>

definition sizeof_BlockHeader :: size_t where "sizeof_BlockHeader = 24"

definition get_cap :: "mem \<Rightarrow> addr \<Rightarrow> size_t" where
  "get_cap m p = of_nat (load_le 8 m p)"

definition put_cap :: "addr \<Rightarrow> size_t \<Rightarrow> mem \<Rightarrow> mem" where
  "put_cap p v m = store_le 8 p (unat v) m"

definition get_free :: "mem \<Rightarrow> addr \<Rightarrow> bool" where
  "get_free m p \<longleftrightarrow> load_le 1 m (p + 8) \<noteq> 0"

definition put_free :: "addr \<Rightarrow> bool \<Rightarrow> mem \<Rightarrow> mem" where
  "put_free p b m = store_le 1 (p + 8) (if b then 1 else 0) m"

definition get_next :: "mem \<Rightarrow> addr \<Rightarrow> addr" where
  "get_next m p = of_nat (load_le 8 m (p + 16))"

definition put_next :: "addr \<Rightarrow> addr \<Rightarrow> mem \<Rightarrow> mem" where
  "put_next p v m = store_le 8 (p + 16) (unat v) m"

definition poke :: "(mem \<Rightarrow> mem) \<Rightarrow> malloc_state \<Rightarrow> malloc_state" where
  "poke f s = s\<lparr>heap_mem := f (heap_mem s)\<rparr>"

section \<open>Arithmetic and the break\<close>

definition round_up_16 :: "size_t \<Rightarrow> size_t" where
  "round_up_16 sz = ((sz + 15) div 16) * 16"

definition header_size :: size_t where
  "header_size = round_up_16 sizeof_BlockHeader"

text \<open>
  \<open>sbrk\<close> of unistd.h: its argument is a signed \<open>intptr_t\<close>, it moves the break when the kernel
  permits the new value and returns the old one; otherwise it returns \<open>(void * ) -1\<close>.
\<close>

definition sbrk :: "size_t \<Rightarrow> malloc_state \<Rightarrow> addr \<times> malloc_state" where
  "sbrk incr s =
    (let target = uint (brk_cur s) + sint incr in
     if uint (brk_start s) \<le> target \<and> target \<le> uint (brk_max s)
     then (brk_cur s, s\<lparr>brk_cur := brk_cur s + incr\<rparr>)
     else (- 1, s\<lparr>errno := ENOMEM\<rparr>))"

section \<open>Debug output\<close>

text \<open>Formatting of stdio.h as glibc does it: \<open>%zu\<close>, \<open>%p\<close>, and \<open>snprintf\<close>'s truncation.\<close>

definition fmt_zu :: "size_t \<Rightarrow> string" where "fmt_zu n = show_base 10 (unat n)"

definition fmt_p :: "addr \<Rightarrow> string" where
  "fmt_p p = (if p = NULL then ''(nil)'' else ''0x'' @ show_base 16 (unat p))"

definition snprintf :: "nat \<Rightarrow> string \<Rightarrow> int \<times> string" where
  "snprintf n t = (int (length t), take (n - 1) t)"

definition emit :: "int \<Rightarrow> string \<Rightarrow> bool \<Rightarrow> malloc_state \<Rightarrow> malloc_state" where
  "emit len buf old_suppress s =
    (if len < 0 then s\<lparr>suppress_debug := old_suppress\<rparr>
     else let len = (if len > 255 then 255 else len) in
       s\<lparr>stderr_out := stderr_out s @ [take (nat len) buf], suppress_debug := old_suppress\<rparr>)"

definition print_custom_debug_msg :: "string \<Rightarrow> malloc_state \<Rightarrow> malloc_state" where
  "print_custom_debug_msg msg s =
    (if suppress_debug s \<or> \<not> debug_malloc s then s
     else let old_suppress = suppress_debug s;
              s = s\<lparr>suppress_debug := True\<rparr>;
              (len, buf) = snprintf 256 msg
          in emit len buf old_suppress s)"

abbreviation say :: "string \<Rightarrow> malloc_state \<Rightarrow> malloc_state" where
  "say msg \<equiv> print_custom_debug_msg (msg @ ''\<newline>'')"

section \<open>Finding the block of a pointer\<close>

partial_function (option) findblock_loop ::
  "addr \<Rightarrow> addr \<Rightarrow> malloc_state \<Rightarrow> (addr \<times> malloc_state) option" where
  "findblock_loop target_ptr curr_block s =
    (if curr_block = NULL then Some (NULL, say ''failed to find block'' s)
     else let beg_payload_region = curr_block + header_size;
              end_payload_region = beg_payload_region + get_cap (heap_mem s) curr_block
          in if beg_payload_region \<le> target_ptr \<and> target_ptr < end_payload_region
             then Some (curr_block, say ''successfully found block'' s)
             else if target_ptr < beg_payload_region
             then Some (NULL, say ''failed to find block'' s)
             else findblock_loop target_ptr (get_next (heap_mem s) curr_block) s)"

definition findblock :: "addr \<Rightarrow> malloc_state \<Rightarrow> (addr \<times> malloc_state) option" where
  "findblock ptr s =
    (let s = say ''finding block'' s in
     if ptr = NULL then Some (NULL, say ''failed to find block because ptr is null'' s)
     else findblock_loop ptr (heap_head s) s)"

definition debug_text :: "int \<Rightarrow> addr \<Rightarrow> addr \<Rightarrow> size_t \<Rightarrow> size_t \<Rightarrow> size_t \<Rightarrow> string" where
  "debug_text ident ptr new_ptr nmemb sz result_size =
    (if ident = MALLOC_ID then
       ''MALLOC: malloc('' @ fmt_zu sz @ '')\<newline>=> (ptr='' @ fmt_p new_ptr @ '', size=''
         @ fmt_zu result_size @ '')\<newline>''
     else if ident = FREE_ID then ''MALLOC: free('' @ fmt_p ptr @ '')\<newline>''
     else if ident = CALLOC_ID then
       ''MALLOC: calloc('' @ fmt_zu nmemb @ '','' @ fmt_zu sz @ '')\<newline>=> (ptr='' @ fmt_p new_ptr
         @ '', size='' @ fmt_zu result_size @ '')\<newline>''
     else if ident = REALLOC_ID then
       ''MALLOC: realloc('' @ fmt_p ptr @ '','' @ fmt_zu sz @ '') => (ptr='' @ fmt_p new_ptr
         @ '', size='' @ fmt_zu result_size @ '')\<newline>''
     else ''no available debug message for this mode\<newline>'')"

definition print_debug_msg ::
  "int \<Rightarrow> addr \<Rightarrow> addr \<Rightarrow> size_t \<Rightarrow> size_t \<Rightarrow> malloc_state \<Rightarrow> malloc_state option" where
  "print_debug_msg ident ptr new_ptr nmemb sz s =
    (if suppress_debug s \<or> \<not> debug_malloc s then Some s
     else let old_suppress = suppress_debug s;
              s = s\<lparr>suppress_debug := True\<rparr>
          in do {
            (curr_block, s) \<leftarrow> findblock new_ptr s;
            let result_size = (if curr_block \<noteq> NULL then get_cap (heap_mem s) curr_block else 0);
            let (len, buf) = snprintf 256 (debug_text ident ptr new_ptr nmemb sz result_size);
            Some (emit len buf old_suppress s)
          })"

section \<open>Merging and splitting\<close>

partial_function (option) merge_loop ::
  "addr \<Rightarrow> addr \<Rightarrow> malloc_state \<Rightarrow> malloc_state option" where
  "merge_loop curr_block first_free s =
    (if curr_block = NULL then Some s
     else if first_free = NULL \<and> get_free (heap_mem s) curr_block
     then merge_loop (get_next (heap_mem s) curr_block) curr_block s
     else if first_free \<noteq> NULL \<and> get_free (heap_mem s) curr_block
     then (let s = poke (put_cap first_free (get_cap (heap_mem s) first_free
                     + (header_size + get_cap (heap_mem s) curr_block))) s;
               s = poke (put_next first_free (get_next (heap_mem s) curr_block)) s;
               curr_block = first_free;
               s = say ''merged free nodes'' s
           in merge_loop (get_next (heap_mem s) curr_block) first_free s)
     else if first_free \<noteq> NULL \<and> \<not> get_free (heap_mem s) curr_block
     then merge_loop (get_next (heap_mem s) curr_block) NULL s
     else merge_loop (get_next (heap_mem s) curr_block) first_free s)"

definition merge_free_nodes :: "malloc_state \<Rightarrow> malloc_state option" where
  "merge_free_nodes s =
    (let s = say ''attempting to merge free nodes'' s in merge_loop (heap_head s) NULL s)"

definition splitblock :: "addr \<Rightarrow> size_t \<Rightarrow> malloc_state \<Rightarrow> (addr \<times> malloc_state) option" where
  "splitblock curr_block requested_rounded_size s =
    (let s = say ''attempting to split block'' s;
         minimum_block_size = header_size + MINIMUM_PAYLOAD_SIZE;
         leftover_size = get_cap (heap_mem s) curr_block - requested_rounded_size
     in do {
       s \<leftarrow> (if minimum_block_size \<le> leftover_size
            then (let s = poke (put_cap curr_block requested_rounded_size) s;
                      leftover_block = curr_block + header_size + requested_rounded_size;
                      s = poke (put_cap leftover_block (leftover_size - header_size)) s;
                      s = poke (put_free leftover_block True) s;
                      s = poke (put_next leftover_block (get_next (heap_mem s) curr_block)) s;
                      s = poke (put_next curr_block leftover_block) s;
                      s = say ''successfully split block'' s
                  in merge_free_nodes s)
            else Some s);
       Some (curr_block + header_size, s)
     })"

section \<open>malloc\<close>

partial_function (option) malloc_search ::
  "size_t \<Rightarrow> addr \<Rightarrow> addr \<Rightarrow> malloc_state \<Rightarrow> (addr \<times> addr \<times> malloc_state) option" where
  "malloc_search requested_rounded_size prev_block curr_block s =
    (if curr_block = NULL then Some (prev_block, curr_block, s)
     else if get_free (heap_mem s) curr_block
       \<and> requested_rounded_size \<le> get_cap (heap_mem s) curr_block
     then Some (prev_block, curr_block, say ''MALLOC: found block big enough'' s)
     else malloc_search requested_rounded_size curr_block
            (get_next (heap_mem s) curr_block) s)"

text \<open>The branch that grows the heap; a NULL block is the early \<open>return NULL\<close>.\<close>

definition malloc_grow ::
  "size_t \<Rightarrow> size_t \<Rightarrow> addr \<Rightarrow> malloc_state \<Rightarrow> (addr \<times> malloc_state) option" where
  "malloc_grow sz used_block_size prev_block s =
    (let s = say ''MALLOC: no block big enough, calling sbrk'' s;
         new_block_size = (if used_block_size < CHUNK_SIZE then CHUNK_SIZE else used_block_size);
         (curr_break, s) = sbrk 0 s;
         aligned_curr_break = round_up_16 curr_break;
         padding = aligned_curr_break - curr_break;
         (new_sbrk, s) = sbrk padding s
     in if new_sbrk = - 1
        then do {
          s \<leftarrow> print_debug_msg MALLOC_ID NULL NULL 0 sz (s\<lparr>errno := ENOMEM\<rparr>);
          Some (NULL, say ''MALLOC: padding sbrk failed'' s)
        }
        else let (curr_block, s) = sbrk new_block_size s
        in if curr_block = - 1
           then do {
             s \<leftarrow> print_debug_msg MALLOC_ID NULL NULL 0 sz (s\<lparr>errno := ENOMEM\<rparr>);
             Some (NULL, say ''MALLOC: block sbrk failed'' s)
           }
           else let s = say ''MALLOC: sbrk succeeded'' s;
                    s = poke (put_cap curr_block (new_block_size - header_size)) s;
                    s = poke (put_free curr_block True) s;
                    s = poke (put_next curr_block NULL) s;
                    s = (if prev_block = NULL then s\<lparr>heap_head := curr_block\<rparr>
                         else poke (put_next prev_block curr_block) s)
                in Some (curr_block, s))"

definition malloc :: "size_t \<Rightarrow> malloc_state \<Rightarrow> (addr \<times> malloc_state) option" where
  "malloc sz s =
    (if sz = 0 then do {
       s \<leftarrow> print_debug_msg MALLOC_ID NULL NULL 0 sz s;
       Some (NULL, say ''MALLOC: size is 0, returning'' s)
     }
     else let requested_rounded_size = round_up_16 sz;
              used_block_size = header_size + requested_rounded_size
     in do {
       (prev_block, curr_block, s) \<leftarrow> malloc_search requested_rounded_size NULL (heap_head s) s;
       (curr_block, s) \<leftarrow> (if curr_block = NULL then malloc_grow sz used_block_size prev_block s
                         else Some (curr_block, s));
       if curr_block = NULL then Some (NULL, s)
       else do {
         let s = poke (put_free curr_block False) s;
         (user_payload_ptr, s) \<leftarrow> splitblock curr_block requested_rounded_size s;
         s \<leftarrow> print_debug_msg MALLOC_ID NULL user_payload_ptr 0 sz s;
         Some (user_payload_ptr, say ''MALLOC: malloc succeeded'' s)
       }
     })"

section \<open>free\<close>

definition free :: "addr \<Rightarrow> malloc_state \<Rightarrow> malloc_state option" where
  "free ptr s =
    (if ptr = NULL then
       print_debug_msg FREE_ID ptr NULL 0 0 (say ''FREE: ptr is NULL'' s)
     else do {
       (curr_block, s) \<leftarrow> findblock ptr s;
       if curr_block = NULL then
         print_debug_msg FREE_ID ptr NULL 0 0 (say ''FREE: block not found'' s)
       else if get_free (heap_mem s) curr_block then
         print_debug_msg FREE_ID ptr NULL 0 0 (say ''FREE: double free'' s)
       else do {
         s \<leftarrow> merge_free_nodes (poke (put_free curr_block True) s);
         print_debug_msg FREE_ID ptr NULL 0 0 (say ''FREE: free succeeded'' s)
       }
     })"

section \<open>calloc\<close>

definition calloc :: "size_t \<Rightarrow> size_t \<Rightarrow> malloc_state \<Rightarrow> (addr \<times> malloc_state) option" where
  "calloc nmemb sz s =
    (if sz \<noteq> 0 \<and> SIZE_MAX div sz < nmemb then do {
       s \<leftarrow> print_debug_msg CALLOC_ID NULL NULL nmemb sz
             (say ''CALLOC: overflow'' (s\<lparr>errno := ENOMEM\<rparr>));
       Some (NULL, s)
     }
     else let total_req_bytes = nmemb * sz in do {
       (user_payload_ptr, s) \<leftarrow> malloc total_req_bytes (s\<lparr>suppress_debug := True\<rparr>);
       let s = s\<lparr>suppress_debug := False\<rparr>;
       if user_payload_ptr = NULL then do {
         s \<leftarrow> print_debug_msg CALLOC_ID NULL user_payload_ptr nmemb sz
               (say ''CALLOC: malloc failed'' s);
         Some (NULL, s)
       }
       else do {
         s \<leftarrow> print_debug_msg CALLOC_ID NULL user_payload_ptr nmemb sz
               (say ''CALLOC: calloc succeeded''
                 (poke (memset user_payload_ptr 0 total_req_bytes) s));
         Some (user_payload_ptr, s)
       }
     })"

section \<open>realloc\<close>

text \<open>The last branch of \<open>realloc\<close>: allocate elsewhere, copy the old payload, free it.\<close>

definition realloc_move ::
  "addr \<Rightarrow> size_t \<Rightarrow> addr \<Rightarrow> size_t \<Rightarrow> malloc_state \<Rightarrow> (addr \<times> malloc_state) option" where
  "realloc_move ptr sz curr_block curr_payload_cap s = do {
     let s = say ''REALLOC: copying, calling malloc'' s;
     (user_payload_ptr, s) \<leftarrow> malloc sz (s\<lparr>suppress_debug := True\<rparr>);
     let s = s\<lparr>suppress_debug := False\<rparr>;
     if user_payload_ptr = NULL then do {
       s \<leftarrow> print_debug_msg REALLOC_ID ptr user_payload_ptr 0 sz
             (say ''REALLOC: malloc failed'' s);
       Some (NULL, s)
     }
     else do {
       let src = curr_block + header_size;
       let s = say ''REALLOC: copied bytes'' (poke (memcpy user_payload_ptr src curr_payload_cap) s);
       s \<leftarrow> free ptr (s\<lparr>suppress_debug := True\<rparr>);
       let s = s\<lparr>suppress_debug := False\<rparr>;
       s \<leftarrow> print_debug_msg REALLOC_ID ptr user_payload_ptr 0 sz s;
       Some (user_payload_ptr, s)
     }
   }"

text \<open>The branch taken when the block is the last one: extend it by moving the break.\<close>

definition realloc_extend ::
  "addr \<Rightarrow> size_t \<Rightarrow> addr \<Rightarrow> size_t \<Rightarrow> size_t \<Rightarrow> malloc_state \<Rightarrow> (addr \<times> malloc_state) option" where
  "realloc_extend ptr sz curr_block curr_payload_cap requested_rounded_size s =
    (let s = say ''REALLOC: at the end of heap, calling sbrk'' s;
         space_needed = requested_rounded_size - curr_payload_cap;
         size_allocated = (if space_needed < CHUNK_SIZE then CHUNK_SIZE else space_needed);
         (new_sbrk, s) = sbrk size_allocated s
     in if new_sbrk = - 1 then do {
          s \<leftarrow> print_debug_msg REALLOC_ID ptr NULL 0 sz
                (say ''REALLOC: sbrk failed'' (s\<lparr>errno := ENOMEM\<rparr>));
          Some (NULL, s)
        }
        else do {
          let s = say ''REALLOC: sbrk succeeded'' s;
          let s = poke (put_cap curr_block (get_cap (heap_mem s) curr_block + size_allocated)) s;
          (user_payload_ptr, s) \<leftarrow> splitblock curr_block requested_rounded_size s;
          s \<leftarrow> print_debug_msg REALLOC_ID ptr user_payload_ptr 0 sz s;
          Some (user_payload_ptr, s)
        })"

text \<open>The branch taken when there is a following block: absorb it if it is free and suffices.\<close>

definition realloc_absorb ::
  "addr \<Rightarrow> size_t \<Rightarrow> addr \<Rightarrow> size_t \<Rightarrow> size_t \<Rightarrow> malloc_state \<Rightarrow> (addr \<times> malloc_state) option" where
  "realloc_absorb ptr sz curr_block curr_payload_cap requested_rounded_size s =
    (let s = say ''REALLOC: attempting to expand in place'' s;
         next_block = get_next (heap_mem s) curr_block;
         total_next_block_size = header_size + get_cap (heap_mem s) next_block;
         total_available_size = curr_payload_cap + total_next_block_size
     in if next_block \<noteq> NULL \<and> get_free (heap_mem s) next_block
          \<and> requested_rounded_size \<le> total_available_size
        then do {
          let s = say ''REALLOC: expanding in place'' s;
          let s = poke (put_cap curr_block
                    (get_cap (heap_mem s) curr_block + total_next_block_size)) s;
          let s = poke (put_next curr_block (get_next (heap_mem s) next_block)) s;
          (user_payload_ptr, s) \<leftarrow> splitblock curr_block requested_rounded_size s;
          s \<leftarrow> print_debug_msg REALLOC_ID ptr user_payload_ptr 0 sz s;
          Some (user_payload_ptr, s)
        }
        else realloc_move ptr sz curr_block curr_payload_cap s)"

definition realloc :: "addr \<Rightarrow> size_t \<Rightarrow> malloc_state \<Rightarrow> (addr \<times> malloc_state) option" where
  "realloc ptr sz s =
    (if ptr = NULL then do {
       (user_payload_ptr, s) \<leftarrow> malloc sz (s\<lparr>suppress_debug := True\<rparr>);
       let s = say ''REALLOC: ptr is NULL, calling malloc'' (s\<lparr>suppress_debug := False\<rparr>);
       s \<leftarrow> print_debug_msg REALLOC_ID ptr user_payload_ptr 0 sz s;
       Some (user_payload_ptr, s)
     }
     else if sz = 0 then do {
       s \<leftarrow> free ptr (s\<lparr>suppress_debug := True\<rparr>);
       let s = say ''REALLOC: size is 0, calling free'' (s\<lparr>suppress_debug := False\<rparr>);
       s \<leftarrow> print_debug_msg REALLOC_ID ptr NULL 0 sz s;
       Some (NULL, s)
     }
     else do {
       (curr_block, s) \<leftarrow> findblock ptr s;
       if curr_block = NULL then do {
         s \<leftarrow> print_debug_msg REALLOC_ID ptr curr_block 0 sz (say ''REALLOC: block not found'' s);
         Some (NULL, s)
       }
       else do {
         let s = say ''REALLOC: block found'' s;
         let curr_payload_cap = get_cap (heap_mem s) curr_block;
         let requested_rounded_size = round_up_16 sz;
         if curr_payload_cap = requested_rounded_size then do {
           let user_payload_ptr = curr_block + header_size;
           s \<leftarrow> print_debug_msg REALLOC_ID ptr user_payload_ptr 0 sz
                 (say ''REALLOC: size didn't change, returning payload ptr'' s);
           Some (user_payload_ptr, s)
         }
         else if requested_rounded_size < curr_payload_cap then do {
           let s = say ''REALLOC: user requested smaller size'' s;
           (user_payload_ptr, s) \<leftarrow> splitblock curr_block requested_rounded_size s;
           s \<leftarrow> print_debug_msg REALLOC_ID ptr user_payload_ptr 0 sz s;
           Some (user_payload_ptr, s)
         }
         else if get_next (heap_mem s) curr_block = NULL
         then realloc_extend ptr sz curr_block curr_payload_cap requested_rounded_size s
         else realloc_absorb ptr sz curr_block curr_payload_cap requested_rounded_size s
       }
     })"

end
