(* ===== verification/Malloc_Blocks.thy ===== *)
theory Malloc_Blocks
  imports Malloc_Model
begin

text \<open>
  The abstraction of the allocator's heap: a list of blocks in address order. \<open>chain\<close> ties the
  list to the header bytes in memory, \<open>layout\<close> says that the blocks tile a range of addresses.
  The lemmas show what one header write, one merge and one split do to both.
\<close>

section \<open>Header fields\<close>

lemma header_size_eq [simp]: "header_size = 32"
  by (simp add: header_size_def round_up_16_def sizeof_BlockHeader_def)

lemma MINIMUM_PAYLOAD_SIZE_eq [simp]: "MINIMUM_PAYLOAD_SIZE = 16"
  by (simp add: MINIMUM_PAYLOAD_SIZE_def)

lemma CHUNK_SIZE_eq [simp]: "CHUNK_SIZE = 65536"
  by (simp add: CHUNK_SIZE_def)

lemma unat_field_offset:
  fixes p :: addr
  assumes "unat p + k + n \<le> 2 ^ 64" and "0 < n" and "k < 2 ^ 64"
  shows "unat (p + of_nat k) = unat p + k"
  using assms by (intro unat_add_of_nat) simp

lemma scalar_field:
  assumes "0 < n" and "k < 2 ^ 64"
  shows "unat p + k + n \<le> 2 ^ 64 \<Longrightarrow>
      load_le n (store_le n (p + of_nat k) v m) (p + of_nat k) = v mod 256 ^ n"
    and "unat p + k + n \<le> 2 ^ 64 \<Longrightarrow> x \<notin> range_of (unat p + k) n \<Longrightarrow>
      store_le n (p + of_nat k) v m x = m x"
    and "unat p + k + n \<le> 2 ^ 64 \<Longrightarrow> (\<And>x. x \<in> range_of (unat p + k) n \<Longrightarrow> m x = m' x) \<Longrightarrow>
      load_le n m (p + of_nat k) = load_le n m' (p + of_nat k)"
proof -
  assume fits: "unat p + k + n \<le> 2 ^ 64"
  then have u: "unat (p + of_nat k) = unat p + k"
    using assms by (rule unat_field_offset)
  from fits u show "load_le n (store_le n (p + of_nat k) v m) (p + of_nat k) = v mod 256 ^ n"
    by (intro load_store_le) simp
next
  assume fits: "unat p + k + n \<le> 2 ^ 64" and x: "x \<notin> range_of (unat p + k) n"
  from fits assms have "unat (p + of_nat k) = unat p + k" by (rule unat_field_offset)
  with fits x show "store_le n (p + of_nat k) v m x = m x"
    by (intro store_le_frame) simp_all
next
  assume fits: "unat p + k + n \<le> 2 ^ 64"
    and eq: "\<And>x. x \<in> range_of (unat p + k) n \<Longrightarrow> m x = m' x"
  from fits assms have "unat (p + of_nat k) = unat p + k" by (rule unat_field_offset)
  with fits eq show "load_le n m (p + of_nat k) = load_le n m' (p + of_nat k)"
    by (intro load_le_cong) simp_all
qed

lemma of_nat_unat_mod: "of_nat (unat (v :: 64 word) mod 256 ^ 8) = v"
  using unat_lt_64 [of v] by simp

interpretation cap: struct_field get_cap put_cap 0 8
proof unfold_locales
  fix p :: addr and v :: size_t and m m' :: mem and x :: addr
  assume fits: "unat p + 0 + 8 \<le> 2 ^ 64"
  show "get_cap (put_cap p v m) p = v"
    using scalar_field(1) [of 8 0 p] fits of_nat_unat_mod [of v]
    by (simp add: get_cap_def put_cap_def)
  show "x \<notin> range_of (unat p + 0) 8 \<Longrightarrow> put_cap p v m x = m x"
    using scalar_field(2) [of 8 0 p] fits by (simp add: put_cap_def)
  show "(\<And>x. x \<in> range_of (unat p + 0) 8 \<Longrightarrow> m x = m' x) \<Longrightarrow> get_cap m p = get_cap m' p"
    using scalar_field(3) [of 8 0 p m m'] fits by (simp add: get_cap_def)
qed

interpretation fre: struct_field get_free put_free 8 1
proof unfold_locales
  fix p :: addr and v :: bool and m m' :: mem and x :: addr
  assume fits: "unat p + 8 + 1 \<le> 2 ^ 64"
  show "get_free (put_free p v m) p = v"
    using scalar_field(1) [of 1 8 p] fits by (simp add: get_free_def put_free_def)
  show "x \<notin> range_of (unat p + 8) 1 \<Longrightarrow> put_free p v m x = m x"
    using scalar_field(2) [of 1 8 p] fits by (simp add: put_free_def)
  show "(\<And>x. x \<in> range_of (unat p + 8) 1 \<Longrightarrow> m x = m' x) \<Longrightarrow> get_free m p = get_free m' p"
    using scalar_field(3) [of 1 8 p m m'] fits by (simp add: get_free_def)
qed

interpretation nxt: struct_field get_next put_next 16 8
proof unfold_locales
  fix p :: addr and v :: addr and m m' :: mem and x :: addr
  assume fits: "unat p + 16 + 8 \<le> 2 ^ 64"
  show "get_next (put_next p v m) p = v"
    using scalar_field(1) [of 8 16 p] fits of_nat_unat_mod [of v]
    by (simp add: get_next_def put_next_def)
  show "x \<notin> range_of (unat p + 16) 8 \<Longrightarrow> put_next p v m x = m x"
    using scalar_field(2) [of 8 16 p] fits by (simp add: put_next_def)
  show "(\<And>x. x \<in> range_of (unat p + 16) 8 \<Longrightarrow> m x = m' x) \<Longrightarrow> get_next m p = get_next m' p"
    using scalar_field(3) [of 8 16 p m m'] fits by (simp add: get_next_def)
qed

text \<open>Two whole headers, and when a write to one field can be ignored by a read of another.\<close>

definition header_fits :: "addr \<Rightarrow> bool" where
  "header_fits p \<longleftrightarrow> unat p + 24 \<le> 2 ^ 64"

definition apart :: "addr \<Rightarrow> addr \<Rightarrow> bool" where
  "apart p q \<longleftrightarrow> unat p + 24 \<le> unat q \<or> unat q + 24 \<le> unat p"

lemma header_write_frame [frame]:
  assumes "header_fits p" and "x \<notin> range_of (unat p) 24"
  shows "put_cap p c m x = m x" and "put_free p b m x = m x" and "put_next p n m x = m x"
  using assms cap.put_frame [of p x c m] fre.put_frame [of p x b m] nxt.put_frame [of p x n m]
  by (auto simp: header_fits_def)

lemma header_same:
  assumes "header_fits p"
  shows "get_cap (put_cap p c m) p = c" and "get_cap (put_free p b m) p = get_cap m p"
    and "get_cap (put_next p n m) p = get_cap m p"
    and "get_free (put_free p b m) p = b" and "get_free (put_cap p c m) p = get_free m p"
    and "get_free (put_next p n m) p = get_free m p"
    and "get_next (put_next p n m) p = n" and "get_next (put_cap p c m) p = get_next m p"
    and "get_next (put_free p b m) p = get_next m p"
proof -
  have fits: "unat p + 0 + 8 \<le> 2 ^ 64" "unat p + 8 + 1 \<le> 2 ^ 64" "unat p + 16 + 8 \<le> 2 ^ 64"
    using assms by (simp_all add: header_fits_def)
  note w = cap.put_frame [OF fits(1)] fre.put_frame [OF fits(2)] nxt.put_frame [OF fits(3)]
  show "get_cap (put_cap p c m) p = c" "get_free (put_free p b m) p = b"
    "get_next (put_next p n m) p = n"
    using fits cap.get_put fre.get_put nxt.get_put by blast+
  show "get_cap (put_free p b m) p = get_cap m p"
    by (rule cap.get_local [OF fits(1)]) (rule w, auto)
  show "get_cap (put_next p n m) p = get_cap m p"
    by (rule cap.get_local [OF fits(1)]) (rule w, auto)
  show "get_free (put_cap p c m) p = get_free m p"
    by (rule fre.get_local [OF fits(2)]) (rule w, auto)
  show "get_free (put_next p n m) p = get_free m p"
    by (rule fre.get_local [OF fits(2)]) (rule w, auto)
  show "get_next (put_cap p c m) p = get_next m p"
    by (rule nxt.get_local [OF fits(3)]) (rule w, auto)
  show "get_next (put_free p b m) p = get_next m p"
    by (rule nxt.get_local [OF fits(3)]) (rule w, auto)
qed

text \<open>A header is read the same after any change of memory outside its 24 bytes.\<close>

lemma header_unchanged:
  assumes "header_fits p" and "\<And>x. x \<in> range_of (unat p) 24 \<Longrightarrow> m' x = m x"
  shows "get_cap m' p = get_cap m p" and "get_free m' p = get_free m p"
    and "get_next m' p = get_next m p"
proof -
  have fits: "unat p + 0 + 8 \<le> 2 ^ 64" "unat p + 8 + 1 \<le> 2 ^ 64" "unat p + 16 + 8 \<le> 2 ^ 64"
    using assms(1) by (simp_all add: header_fits_def)
  show "get_cap m' p = get_cap m p" using assms(2) by (intro cap.get_local [OF fits(1)]) auto
  show "get_free m' p = get_free m p" using assms(2) by (intro fre.get_local [OF fits(2)]) auto
  show "get_next m' p = get_next m p" using assms(2) by (intro nxt.get_local [OF fits(3)]) auto
qed

lemma header_other:
  assumes "header_fits p" and "header_fits q" and "apart p q"
  shows "get_cap (put_cap q c m) p = get_cap m p" and "get_cap (put_free q b m) p = get_cap m p"
    and "get_cap (put_next q n m) p = get_cap m p"
    and "get_free (put_cap q c m) p = get_free m p" and "get_free (put_free q b m) p = get_free m p"
    and "get_free (put_next q n m) p = get_free m p"
    and "get_next (put_cap q c m) p = get_next m p" and "get_next (put_free q b m) p = get_next m p"
    and "get_next (put_next q n m) p = get_next m p"
proof -
  have out: "x \<notin> range_of (unat q) 24" if "x \<in> range_of (unat p) 24" for x
    using that assms(3) by (auto simp: apart_def)
  note w = header_write_frame [OF assms(2) out]
  show "get_cap (put_cap q c m) p = get_cap m p" "get_cap (put_free q b m) p = get_cap m p"
    "get_cap (put_next q n m) p = get_cap m p"
    by (rule header_unchanged(1) [OF assms(1)], erule w)+
  show "get_free (put_cap q c m) p = get_free m p" "get_free (put_free q b m) p = get_free m p"
    "get_free (put_next q n m) p = get_free m p"
    by (rule header_unchanged(2) [OF assms(1)], erule w)+
  show "get_next (put_cap q c m) p = get_next m p" "get_next (put_free q b m) p = get_next m p"
    "get_next (put_next q n m) p = get_next m p"
    by (rule header_unchanged(3) [OF assms(1)], erule w)+
qed

lemmas header_simps = header_same header_other

section \<open>Blocks\<close>

record block =
  b_addr :: addr
  b_cap :: size_t
  b_free :: bool

definition b_end :: "block \<Rightarrow> nat" where
  "b_end b = unat (b_addr b) + 32 + unat (b_cap b)"

definition first_addr :: "block list \<Rightarrow> addr" where
  "first_addr bs = (case bs of [] \<Rightarrow> NULL | b # _ \<Rightarrow> b_addr b)"

lemma first_addr_simps [simp]:
  "first_addr [] = NULL" "first_addr (b # bs) = b_addr b"
  by (simp_all add: first_addr_def)

lemma first_addr_append [simp]: "bs \<noteq> [] \<Longrightarrow> first_addr (bs @ ys) = first_addr bs"
  by (cases bs) simp_all

lemma first_addr_mid: "b_addr b' = b_addr b \<Longrightarrow> first_addr (xs @ b' # ys) = first_addr (xs @ b # zs)"
  by (cases xs) simp_all

text \<open>The headers of \<open>bs\<close> are in memory and each links to the next; \<open>after\<close> is the link of the last.\<close>

fun chain_to :: "mem \<Rightarrow> block list \<Rightarrow> addr \<Rightarrow> bool" where
  "chain_to m [] after \<longleftrightarrow> True"
| "chain_to m (b # bs) after \<longleftrightarrow>
     get_cap m (b_addr b) = b_cap b \<and> get_free m (b_addr b) = b_free b \<and>
     get_next m (b_addr b) = (if bs = [] then after else first_addr bs) \<and> chain_to m bs after"

text \<open>The blocks tile the addresses from \<open>lo\<close> to \<open>hi\<close>: a 32-byte header slot and a payload each.\<close>

fun layout :: "nat \<Rightarrow> block list \<Rightarrow> nat \<Rightarrow> bool" where
  "layout lo [] hi \<longleftrightarrow> lo = hi"
| "layout lo (b # bs) hi \<longleftrightarrow>
     unat (b_addr b) = lo \<and> 16 \<le> unat (b_cap b) \<and> 16 dvd unat (b_cap b) \<and>
     layout (b_end b) bs hi"

lemma chain_to_append:
  "chain_to m (xs @ ys) after \<longleftrightarrow>
    chain_to m xs (if ys = [] then after else first_addr ys) \<and> chain_to m ys after"
  by (induction xs) (auto simp: first_addr_def split: list.splits)

lemma layout_append:
  "layout lo (xs @ ys) hi \<longleftrightarrow> (\<exists>mid. layout lo xs mid \<and> layout mid ys hi)"
  by (induction xs arbitrary: lo) auto

lemma layout_le: "layout lo bs hi \<Longrightarrow> lo \<le> hi"
proof (induction bs arbitrary: lo)
  case Nil
  then show ?case by simp
next
  case (Cons b bs)
  then have "b_end b \<le> hi" and "unat (b_addr b) = lo" by auto
  then show ?case by (simp add: b_end_def)
qed

lemma layout_bounds:
  assumes "layout lo bs hi" and "b \<in> set bs"
  shows "lo \<le> unat (b_addr b)" and "b_end b \<le> hi"
    and "16 \<le> unat (b_cap b)" and "16 dvd unat (b_cap b)"
proof -
  from assms(2) obtain xs ys where bs: "bs = xs @ b # ys" by (meson split_list)
  with assms(1) obtain mid where l: "layout lo xs mid" "layout mid (b # ys) hi"
    by (auto simp: layout_append)
  then have mid: "lo \<le> mid" "unat (b_addr b) = mid" "layout (b_end b) ys hi"
    using layout_le by auto
  then show "lo \<le> unat (b_addr b)" "b_end b \<le> hi" using layout_le by auto
  show "16 \<le> unat (b_cap b)" "16 dvd unat (b_cap b)" using l(2) by auto
qed

lemma layout_addr_pos:
  assumes "layout lo bs hi" and "0 < lo" and "b \<in> set bs"
  shows "b_addr b \<noteq> NULL"
  using layout_bounds(1) [OF assms(1,3)] assms(2) by auto

lemma layout_ordered:
  assumes "layout lo (xs @ b # ys) hi"
  shows "x \<in> set xs \<Longrightarrow> b_end x \<le> unat (b_addr b)"
    and "y \<in> set ys \<Longrightarrow> b_end b \<le> unat (b_addr y)"
proof -
  from assms have l: "layout lo xs (unat (b_addr b))" "layout (b_end b) ys hi"
    by (auto simp: layout_append)
  show "x \<in> set xs \<Longrightarrow> b_end x \<le> unat (b_addr b)" using layout_bounds(2) [OF l(1)] by blast
  show "y \<in> set ys \<Longrightarrow> b_end b \<le> unat (b_addr y)" using layout_bounds(1) [OF l(2)] by blast
qed

section \<open>What a change of memory leaves of the chain\<close>

definition slots :: "block list \<Rightarrow> addr set" where
  "slots bs = (\<Union>b \<in> set bs. range_of (unat (b_addr b)) 24)"

lemma slots_simps [simp]:
  "slots [] = {}" "slots (b # bs) = range_of (unat (b_addr b)) 24 \<union> slots bs"
  "slots (xs @ ys) = slots xs \<union> slots ys"
  by (auto simp: slots_def)

definition touches :: "addr set \<Rightarrow> mem \<Rightarrow> mem \<Rightarrow> bool" where
  "touches S m m' \<longleftrightarrow> (\<forall>x. m' x \<noteq> m x \<longrightarrow> x \<in> S)"

lemma touches_refl [simp, intro]: "touches S m m"
  by (simp add: touches_def)

lemma touches_trans [trans]: "touches S m m' \<Longrightarrow> touches S m' m'' \<Longrightarrow> touches S m m''"
  unfolding touches_def by metis

lemma touches_mono: "touches S m m' \<Longrightarrow> S \<subseteq> T \<Longrightarrow> touches T m m'"
  unfolding touches_def by blast

lemma touches_put:
  assumes "header_fits p" and "range_of (unat p) 24 \<subseteq> S"
  shows "touches S m m' \<Longrightarrow> touches S m (put_cap p c m')"
    and "touches S m m' \<Longrightarrow> touches S m (put_free p b m')"
    and "touches S m m' \<Longrightarrow> touches S m (put_next p n m')"
  using header_write_frame [OF assms(1)] assms(2) unfolding touches_def by (metis subsetD)+

lemma chain_to_unchanged:
  assumes "\<And>b. b \<in> set bs \<Longrightarrow> header_fits (b_addr b)"
    and "\<And>x. x \<in> slots bs \<Longrightarrow> m' x = m x"
  shows "chain_to m' bs after = chain_to m bs after"
  using assms
proof (induction bs)
  case Nil
  then show ?case by simp
next
  case (Cons b bs)
  have "chain_to m' bs after = chain_to m bs after" using Cons by simp
  with header_unchanged [of "b_addr b" m' m] Cons.prems show ?case by simp
qed

text \<open>The blocks of a layout have room for their headers, and \<open>slots\<close> stay inside the layout.\<close>

lemma layout_header_fits:
  assumes "layout lo bs hi" and "hi \<le> 2 ^ 64" and "b \<in> set bs"
  shows "header_fits (b_addr b)"
  using layout_bounds [OF assms(1,3)] assms(2) by (simp add: header_fits_def b_end_def)

lemma layout_slots:
  assumes "layout lo bs hi" and "x \<in> slots bs"
  shows "lo \<le> unat x" and "unat x < hi"
proof -
  obtain b where "b \<in> set bs" "x \<in> range_of (unat (b_addr b)) 24"
    using assms(2) by (auto simp: slots_def)
  with layout_bounds(1,2) [OF assms(1) this(1)] show "lo \<le> unat x" "unat x < hi"
    by (auto simp: b_end_def)
qed

text \<open>
  Replacing the blocks between two addresses: if memory changes only there and the new blocks
  are chained in the new memory, the whole list is.
\<close>

lemma chain_replace:
  assumes chain: "chain_to m (xs @ bs @ ys) after"
    and lay: "layout lo xs mid" "layout mid' ys hi" and hi: "hi \<le> 2 ^ 64" "mid \<le> mid'"
    and ch: "touches {x. mid \<le> unat x \<and> unat x < mid'} m m'"
    and same: "bs \<noteq> []" "bs' \<noteq> []" "first_addr bs' = first_addr bs"
    and new: "chain_to m' bs' (if ys = [] then after else first_addr ys)"
  shows "chain_to m' (xs @ bs' @ ys) after"
proof -
  have "mid \<le> 2 ^ 64" using layout_le [OF lay(2)] hi by simp
  then have "chain_to m' xs e = chain_to m xs e" for e
    using layout_header_fits [OF lay(1)] layout_slots [OF lay(1)] ch
    by (intro chain_to_unchanged) (force simp: touches_def)+
  moreover have "chain_to m' ys e = chain_to m ys e" for e
    using layout_header_fits [OF lay(2) hi(1)] layout_slots [OF lay(2)] ch
    by (intro chain_to_unchanged) (force simp: touches_def)+
  ultimately show ?thesis
    using chain same new by (simp add: chain_to_append)
qed

text \<open>One header rewritten in place.\<close>

lemma chain_rewrite:
  assumes "chain_to m (xs @ b # ys) after" and lay: "layout lo (xs @ b # ys) hi" "hi \<le> 2 ^ 64"
    and "touches (range_of (unat (b_addr b)) 24) m m'"
    and "b_addr b' = b_addr b" and "chain_to m' [b'] (if ys = [] then after else first_addr ys)"
  shows "chain_to m' (xs @ b' # ys) after"
proof -
  obtain mid where l: "layout lo xs mid" "unat (b_addr b) = mid" "layout (b_end b) ys hi"
    using lay(1) by (auto simp: layout_append)
  have "touches {x. mid \<le> unat x \<and> unat x < b_end b} m m'"
    using assms(4) by (rule touches_mono) (auto simp: l b_end_def)
  then have "chain_to m' (xs @ [b'] @ ys) after"
    using chain_replace [of m xs "[b]" ys after lo mid "b_end b" hi m' "[b']"] assms l
    by (simp add: b_end_def)
  then show ?thesis by simp
qed

lemma chain_mark:
  assumes "chain_to m (xs @ b # ys) after" and "layout lo (xs @ b # ys) hi" "hi \<le> 2 ^ 64"
  shows "chain_to (put_free (b_addr b) v m) (xs @ b\<lparr>b_free := v\<rparr> # ys) after"
    and "layout lo (xs @ b\<lparr>b_free := v\<rparr> # ys) hi"
proof -
  have fits: "header_fits (b_addr b)" using layout_header_fits [OF assms(2,3)] by simp
  have "touches (range_of (unat (b_addr b)) 24) m (put_free (b_addr b) v m)"
    by (rule touches_put(2) [OF fits]) auto
  then show "chain_to (put_free (b_addr b) v m) (xs @ b\<lparr>b_free := v\<rparr> # ys) after"
    using chain_rewrite [OF assms, of _ "b\<lparr>b_free := v\<rparr>"] assms(1) header_same [OF fits]
    by (simp add: chain_to_append)
  show "layout lo (xs @ b\<lparr>b_free := v\<rparr> # ys) hi"
    using assms(2) by (simp add: layout_append b_end_def)
qed

section \<open>Merging neighbours\<close>

text \<open>What \<open>merge_free_nodes\<close> makes of a list: each run of free blocks becomes its first block.\<close>

abbreviation absorb :: "block \<Rightarrow> block \<Rightarrow> block" where
  "absorb f c \<equiv> f\<lparr>b_cap := b_cap f + (32 + b_cap c)\<rparr>"

fun coalesce :: "block list \<Rightarrow> block list" where
  "coalesce [] = []"
| "coalesce [b] = [b]"
| "coalesce (b # c # bs) =
     (if b_free b \<and> b_free c then coalesce (absorb b c # bs) else b # coalesce (c # bs))"

lemma coalesce_used: "\<not> b_free b \<Longrightarrow> coalesce (b # bs) = b # coalesce bs"
  by (cases bs) simp_all

lemma coalesce_head: "\<exists>b' bs'. coalesce (b # bs) = b' # bs' \<and> b_addr b' = b_addr b"
proof (induction "b # bs" arbitrary: b bs rule: coalesce.induct)
  case (3 b c bs)
  show ?case
  proof (cases "b_free b \<and> b_free c")
    case True
    with 3(1) [OF True] show ?thesis by simp
  qed auto
qed simp

lemma coalesce_eq_Nil [simp]: "coalesce bs = [] \<longleftrightarrow> bs = []"
  using coalesce_head by (cases bs) (simp, metis list.distinct(1))

lemma first_addr_coalesce [simp]: "first_addr (coalesce bs) = first_addr bs"
  using coalesce_head by (cases bs) (simp, metis first_addr_simps(2))

lemma unat_absorb:
  assumes "layout lo (b # c # bs) hi" and "hi \<le> 2 ^ 64" and "0 < lo"
  shows "unat (b_cap b + (32 + b_cap c)) = unat (b_cap b) + 32 + unat (b_cap c)"
proof -
  have "b_end c \<le> 2 ^ 64" and "unat (b_addr c) = b_end b" and "unat (b_addr b) = lo"
    using layout_bounds(2) [OF assms(1), of c] assms by auto
  then have "unat (b_cap b) + (32 + unat (b_cap c)) < 2 ^ 64" using assms(3) by (simp add: b_end_def)
  then show ?thesis by (simp add: unat_add_fits)
qed

lemma layout_absorb:
  assumes "layout lo (b # c # bs) hi" and "hi \<le> 2 ^ 64" and "0 < lo"
  shows "layout lo (absorb b c # bs) hi"
proof -
  have "b_end (absorb b c) = b_end c"
    using assms(1) unat_absorb [OF assms] by (simp add: b_end_def)
  with assms(1) unat_absorb [OF assms] show ?thesis by auto
qed

lemma layout_coalesce:
  assumes "layout lo bs hi" and "hi \<le> 2 ^ 64" and "0 < lo"
  shows "layout lo (coalesce bs) hi"
  using assms(1,3)
proof (induction bs arbitrary: lo rule: coalesce.induct)
  case (3 b c bs)
  show ?case
  proof (cases "b_free b \<and> b_free c")
    case True
    with 3 layout_absorb [OF 3(3) assms(2)] show ?thesis by simp
  next
    case False
    moreover have "0 < b_end b" by (simp add: b_end_def)
    ultimately show ?thesis using 3(2) [OF False, of "b_end b"] 3(3) by (auto simp: False)
  qed
qed simp_all

text \<open>One merge of the code: two field writes to the first block of the run.\<close>

lemma chain_merge:
  assumes chain: "chain_to m (xs @ f # c # ys) after"
    and lay: "layout lo (xs @ f # c # ys) hi" "hi \<le> 2 ^ 64"
    and m1: "m1 = put_cap (b_addr f) (get_cap m (b_addr f) + (header_size + get_cap m (b_addr c))) m"
    and m': "m' = put_next (b_addr f) (get_next m1 (b_addr c)) m1"
  shows "chain_to m' (xs @ absorb f c # ys) after"
    and "touches (range_of (unat (b_addr f)) 24) m m'"
proof -
  have fits: "header_fits (b_addr f)" "header_fits (b_addr c)"
    using layout_header_fits [OF lay] by simp_all
  have "apart (b_addr c) (b_addr f)"
    using layout_ordered(2) [OF lay(1), of c] by (auto simp: apart_def b_end_def)
  then have link: "get_next m1 (b_addr c) = get_next m (b_addr c)"
    unfolding m1 using fits by (simp add: header_other)
  show t: "touches (range_of (unat (b_addr f)) 24) m m'"
    unfolding m' m1 by (intro touches_put [OF fits(1)]) auto
  obtain mid where l: "layout lo xs mid" "layout mid (f # c # ys) hi"
    using lay(1) by (auto simp: layout_append)
  have "chain_to m' (xs @ [absorb f c] @ ys) after"
  proof (rule chain_replace [of m xs "[f, c]" ys after lo mid "b_end c" hi m' "[absorb f c]"])
    show "touches {x. mid \<le> unat x \<and> unat x < b_end c} m m'"
      using t by (rule touches_mono) (use l in \<open>auto simp: b_end_def\<close>)
  qed (use assms l link header_same [OF fits(1)] in \<open>auto simp: chain_to_append b_end_def\<close>)
  then show "chain_to m' (xs @ absorb f c # ys) after" by simp
qed

section \<open>Splitting a block\<close>

abbreviation remainder :: "block \<Rightarrow> size_t \<Rightarrow> block" where
  "remainder b r \<equiv> \<lparr>b_addr = b_addr b + 32 + r, b_cap = b_cap b - r - 32, b_free = True\<rparr>"

lemma split_sizes:
  assumes "b_end b \<le> 2 ^ 64" and "0 < unat (b_addr b)"
    and r: "unat r + 48 \<le> unat (b_cap b)"
  shows "unat (b_addr b + 32 + r) = unat (b_addr b) + 32 + unat r"
    and "unat (b_cap b - r - 32) = unat (b_cap b) - unat r - 32"
proof -
  have "unat (b_addr b + 32) = unat (b_addr b) + 32"
    using assms by (simp add: unat_add_fits b_end_def)
  then show "unat (b_addr b + 32 + r) = unat (b_addr b) + 32 + unat r"
    using assms by (simp add: unat_add_fits b_end_def)
  have "unat (b_cap b - r) = unat (b_cap b) - unat r" using r by (simp add: unat_diff_fits)
  then show "unat (b_cap b - r - 32) = unat (b_cap b) - unat r - 32"
    using r by (simp add: unat_diff_fits)
qed

lemma layout_split:
  assumes "layout lo (b # ys) hi" and "hi \<le> 2 ^ 64" and "0 < lo"
    and r: "unat r + 48 \<le> unat (b_cap b)" "16 \<le> unat r" "16 dvd unat r"
  shows "layout lo (b\<lparr>b_cap := r\<rparr> # remainder b r # ys) hi"
proof -
  have "b_end b \<le> hi" using layout_bounds(2) [OF assms(1)] by simp
  with assms have s: "unat (b_addr b + 32 + r) = unat (b_addr b) + 32 + unat r"
    "unat (b_cap b - r - 32) = unat (b_cap b) - unat r - 32"
    by (intro split_sizes; simp)+
  have "16 dvd unat (b_cap b) - unat r - 32" using assms(1) r by (simp add: dvd_diff_nat)
  moreover have "b_end (remainder b r) = b_end b" using s r by (simp add: b_end_def)
  moreover have "b_end (b\<lparr>b_cap := r\<rparr>) = unat (b_addr (remainder b r))" using s by (simp add: b_end_def)
  ultimately show ?thesis using assms(1) r s by auto
qed

lemma chain_split:
  assumes chain: "chain_to m (xs @ b # ys) after"
    and lay: "layout lo (xs @ b # ys) hi" "hi \<le> 2 ^ 64" "0 < lo"
    and r: "unat r + 48 \<le> unat (b_cap b)"
    and q: "q = b_addr b + 32 + r"
    and m1: "m1 = put_free q True (put_cap q (b_cap b - r - 32) (put_cap (b_addr b) r m))"
    and m2: "m2 = put_next (b_addr b) q (put_next q (get_next m1 (b_addr b)) m1)"
  shows "chain_to m2 (xs @ b\<lparr>b_cap := r\<rparr> # remainder b r # ys) after"
    and "touches (range_of (unat (b_addr b)) 24 \<union> range_of (unat q) 24) m m2"
proof -
  obtain mid where l: "layout lo xs mid" "layout mid (b # ys) hi"
    using lay(1) by (auto simp: layout_append)
  have mid: "unat (b_addr b) = mid" "lo \<le> mid" "b_end b \<le> hi"
    using l layout_le layout_bounds(2) [OF l(2)] by auto
  have s: "unat q = unat (b_addr b) + 32 + unat r"
    unfolding q using mid lay r by (intro split_sizes) auto
  have fits: "header_fits (b_addr b)" "header_fits q" and apart: "apart (b_addr b) q" "apart q (b_addr b)"
    using s r mid lay(2) by (auto simp: header_fits_def apart_def b_end_def)
  note hs = header_same [OF fits(1)] header_same [OF fits(2)]
    header_other [OF fits(1) fits(2) apart(1)] header_other [OF fits(2) fits(1) apart(2)]
  show t: "touches (range_of (unat (b_addr b)) 24 \<union> range_of (unat q) 24) m m2"
    unfolding m1 m2 by (intro touches_put [OF fits(1)] touches_put [OF fits(2)]) auto
  have "chain_to m2 (xs @ [b\<lparr>b_cap := r\<rparr>, remainder b r] @ ys) after"
  proof (rule chain_replace [of m xs "[b]" ys after lo mid "b_end b" hi m2])
    show "touches {x. mid \<le> unat x \<and> unat x < b_end b} m m2"
      using t by (rule touches_mono) (use mid s r in \<open>auto simp: b_end_def\<close>)
    show "chain_to m2 [b\<lparr>b_cap := r\<rparr>, remainder b r] (if ys = [] then after else first_addr ys)"
      using chain by (simp add: m1 m2 hs flip: q) (simp add: chain_to_append)
  qed (use assms l mid in \<open>auto simp: b_end_def\<close>)
  then show "chain_to m2 (xs @ b\<lparr>b_cap := r\<rparr> # remainder b r # ys) after" by simp
qed

section \<open>Lists without neighbouring free blocks\<close>

fun separated :: "block list \<Rightarrow> bool" where
  "separated (b # c # bs) \<longleftrightarrow> \<not> (b_free b \<and> b_free c) \<and> separated (c # bs)"
| "separated _ \<longleftrightarrow> True"

lemma coalesce_separated: "separated bs \<Longrightarrow> coalesce bs = bs"
  by (induction bs rule: coalesce.induct) auto

lemma separated_coalesce_Cons:
  "\<exists>b' bs'. coalesce (b # bs) = b' # bs' \<and> b_free b' = b_free b \<and> separated (b' # bs')"
proof (induction "b # bs" arbitrary: b bs rule: coalesce.induct)
  case (3 b c bs)
  show ?case
  proof (cases "b_free b \<and> b_free c")
    case True
    with 3(1) [OF True] show ?thesis by simp
  next
    case False
    with 3(2) [OF False] show ?thesis by auto
  qed
qed simp

lemma separated_coalesce [simp]: "separated (coalesce bs)"
  using separated_coalesce_Cons by (cases bs) (simp, metis)

lemma separated_Cons:
  "separated (b # bs) \<longleftrightarrow> (bs \<noteq> [] \<longrightarrow> \<not> (b_free b \<and> b_free (hd bs))) \<and> separated bs"
  by (cases bs) simp_all

lemma separated_append_used [simp]:
  "\<not> b_free b \<Longrightarrow> separated (xs @ b # ys) \<longleftrightarrow> separated xs \<and> separated ys"
  by (induction xs) (auto simp: separated_Cons hd_append)

lemma separated_appendD: "separated (xs @ ys) \<Longrightarrow> separated xs \<and> separated ys"
  by (induction xs) (auto simp: separated_Cons hd_append split: if_splits)

lemma coalesce_append_used: "\<not> b_free b \<Longrightarrow> coalesce (xs @ b # ys) = coalesce xs @ b # coalesce ys"
proof (induction xs rule: coalesce.induct)
  case 1
  then show ?case by (simp add: coalesce_used)
next
  case (2 x)
  then show ?case by (simp add: coalesce_used)
next
  case (3 x y xs)
  then show ?case by simp
qed

section \<open>Cutting a used block down to a size\<close>

definition trim :: "block \<Rightarrow> size_t \<Rightarrow> block list \<Rightarrow> block list" where
  "trim b r ys = (if unat r + 48 \<le> unat (b_cap b)
     then b\<lparr>b_cap := r\<rparr> # coalesce (remainder b r # ys) else b # ys)"

lemma first_addr_trim [simp]: "first_addr (trim b r ys) = b_addr b"
  by (simp add: trim_def)

lemma trim_not_Nil [simp]: "trim b r ys \<noteq> []"
  by (simp add: trim_def)

lemma separated_trim:
  assumes "\<not> b_free b" and "separated (xs @ b # ys)"
  shows "separated (xs @ trim b r ys)"
  using assms separated_append_used [of "b\<lparr>b_cap := r\<rparr>" xs] by (simp add: trim_def)

lemma layout_trim:
  assumes "layout lo (b # ys) hi" and "hi \<le> 2 ^ 64" and "0 < lo"
    and "16 \<le> unat r" and "16 dvd unat r"
  shows "layout lo (trim b r ys) hi"
proof (cases "unat r + 48 \<le> unat (b_cap b)")
  case True
  then have "layout lo (b\<lparr>b_cap := r\<rparr> # remainder b r # ys) hi"
    using assms by (intro layout_split)
  moreover have "0 < b_end (b\<lparr>b_cap := r\<rparr>)" by (simp add: b_end_def)
  ultimately show ?thesis using layout_coalesce [OF _ assms(2)] True by (simp add: trim_def del: coalesce.simps)
qed (use assms in \<open>simp add: trim_def\<close>)

section \<open>Appending a block\<close>

lemma chain_append_block:
  assumes chain: "chain_to m bs NULL" and lay: "layout lo bs hi" "hi \<le> unat (b_addr nb)"
    and nb: "b_end nb \<le> 2 ^ 64"
    and m1: "m1 = put_next (b_addr nb) NULL (put_free (b_addr nb) (b_free nb) (put_cap (b_addr nb) (b_cap nb) m))"
    and m2: "m2 = (if bs = [] then m1 else put_next (b_addr (last bs)) (b_addr nb) m1)"
  shows "chain_to m2 (bs @ [nb]) NULL" and "touches (slots (bs @ [nb])) m m2"
proof -
  have fits: "header_fits (b_addr nb)" using nb by (simp add: header_fits_def b_end_def)
  have hi: "hi \<le> 2 ^ 64" using lay nb by (simp add: b_end_def)
  have t1: "touches (range_of (unat (b_addr nb)) 24) m m1"
    unfolding m1 by (intro touches_put [OF fits]) auto
  have "chain_to m2 (bs @ [nb]) NULL \<and> touches (slots (bs @ [nb])) m m2"
  proof (cases bs rule: rev_cases)
    case Nil
    with t1 show ?thesis by (simp add: m2 m1 header_same [OF fits])
  next
    case (snoc xs l)
    have fl: "header_fits (b_addr l)" and end_l: "b_end l \<le> hi"
      using layout_header_fits [OF lay(1) hi] layout_bounds(2) [OF lay(1)] snoc by auto
    then have apart: "apart (b_addr l) (b_addr nb)" "apart (b_addr nb) (b_addr l)"
      using lay(2) by (auto simp: apart_def b_end_def)
    have m2': "m2 = put_next (b_addr l) (b_addr nb) m1" using snoc by (simp add: m2)
    obtain mid where l: "layout lo xs mid" "unat (b_addr l) = mid"
      using lay(1) snoc by (auto simp: layout_append)
    have t2: "touches (slots (bs @ [nb])) m m2"
      unfolding m2' by (rule touches_put(3) [OF fl _ touches_mono [OF t1]]) (use snoc in auto)
    have "touches (range_of (unat (b_addr l)) 24 \<union> range_of (unat (b_addr nb)) 24) m m2"
      unfolding m2' by (rule touches_put(3) [OF fl _ touches_mono [OF t1]]) auto
    then have t3: "touches {x. mid \<le> unat x \<and> unat x < b_end nb} m m2"
      by (rule touches_mono) (use l end_l lay(2) in \<open>auto simp: b_end_def\<close>)
    have "chain_to m2 (xs @ [l, nb] @ []) NULL"
    proof (rule chain_replace [of m xs "[l]" "[]" NULL lo mid "b_end nb" "b_end nb"])
      show "chain_to m2 [l, nb] (if [] = [] then NULL else first_addr [])"
        using chain snoc by (simp add: m2' m1 chain_to_append header_same [OF fits] header_same [OF fl]
          header_other [OF fl fits apart(1)] header_other [OF fits fl apart(2)])
    qed (use chain snoc l t3 nb lay end_l in \<open>auto simp: b_end_def\<close>)
    with t2 snoc show ?thesis by simp
  qed
  then show "chain_to m2 (bs @ [nb]) NULL" and "touches (slots (bs @ [nb])) m m2" by blast+
qed

end
