(* ===== verification/Malloc_Steps.thy ===== *)
theory Malloc_Steps
  imports Malloc_Blocks
begin

text \<open>
  What the helpers of Asgn1/malloc.c (the debug printers, \<open>findblock\<close>, \<open>merge_free_nodes\<close>,
  \<open>splitblock\<close>) do to a heap that represents a list of blocks. Each lemma says that the loop
  ends, which bytes it writes, and which list the heap represents afterwards.
\<close>

section \<open>The heap represents a list of blocks\<close>

text \<open>
  \<open>placed s bs\<close>: the list of the code is \<open>bs\<close>, the blocks tile the memory from some aligned
  address of the process's break area up to the current break, and the kernel's bounds are those
  of a user address space.
\<close>

definition kernel_ok :: "malloc_state \<Rightarrow> bool" where
  "kernel_ok s \<longleftrightarrow> 0 < unat (brk_start s) \<and> unat (brk_start s) \<le> unat (brk_cur s) \<and>
     unat (brk_cur s) \<le> unat (brk_max s) \<and> unat (brk_max s) < 2 ^ 63"

definition tiled :: "malloc_state \<Rightarrow> block list \<Rightarrow> bool" where
  "tiled s bs \<longleftrightarrow> (\<exists>lo hi. 0 < lo \<and> 16 dvd lo \<and> layout lo bs hi \<and> hi < 2 ^ 63 \<and>
     (bs \<noteq> [] \<longrightarrow> unat (brk_start s) \<le> lo \<and> hi = unat (brk_cur s)))"

definition placed :: "malloc_state \<Rightarrow> block list \<Rightarrow> bool" where
  "placed s bs \<longleftrightarrow> kernel_ok s \<and> heap_head s = first_addr bs \<and>
     chain_to (heap_mem s) bs NULL \<and> tiled s bs"

lemma tiled_Nil [simp]: "tiled s []"
  unfolding tiled_def by (rule exI [of _ 16], rule exI [of _ 16]) simp

section \<open>Debug output\<close>

text \<open>Text written to descriptor 2 is the only effect of the printers.\<close>

definition talk :: "string list \<Rightarrow> malloc_state \<Rightarrow> malloc_state" where
  "talk ts s = s\<lparr>stderr_out := stderr_out s @ ts\<rparr>"

lemma talk_fields [simp]:
  "heap_mem (talk ts s) = heap_mem s" "heap_head (talk ts s) = heap_head s"
  "suppress_debug (talk ts s) = suppress_debug s" "brk_start (talk ts s) = brk_start s"
  "brk_cur (talk ts s) = brk_cur s" "brk_max (talk ts s) = brk_max s"
  "errno (talk ts s) = errno s" "debug_malloc (talk ts s) = debug_malloc s"
  "stderr_out (talk ts s) = stderr_out s @ ts"
  by (simp_all add: talk_def)

lemma poke_fields [simp]:
  "heap_mem (poke f s) = f (heap_mem s)" "heap_head (poke f s) = heap_head s"
  "suppress_debug (poke f s) = suppress_debug s" "brk_start (poke f s) = brk_start s"
  "brk_cur (poke f s) = brk_cur s" "brk_max (poke f s) = brk_max s"
  "errno (poke f s) = errno s" "debug_malloc (poke f s) = debug_malloc s"
  "stderr_out (poke f s) = stderr_out s"
  by (simp_all add: poke_def)

lemma talk_Nil [simp]: "talk [] s = s"
  by (simp add: talk_def)

lemma talk_talk [simp]: "talk us (talk ts s) = talk (ts @ us) s"
  by (simp add: talk_def)

lemma placed_talk [simp]: "placed (talk ts s) bs = placed s bs"
  by (simp add: placed_def kernel_ok_def tiled_def)

lemma placed_suppress [simp]: "placed (s\<lparr>suppress_debug := b\<rparr>) bs = placed s bs"
  by (simp add: placed_def kernel_ok_def tiled_def)

lemma placed_errno [simp]: "placed (s\<lparr>errno := e\<rparr>) bs = placed s bs"
  by (simp add: placed_def kernel_ok_def tiled_def)

definition custom_text :: "string \<Rightarrow> malloc_state \<Rightarrow> string list" where
  "custom_text msg s = (if suppress_debug s \<or> \<not> debug_malloc s then [] else [take 255 msg])"

text \<open>\<open>quiet s\<close>: the printers return at once.\<close>

definition quiet :: "malloc_state \<Rightarrow> bool" where
  "quiet s \<longleftrightarrow> suppress_debug s \<or> \<not> debug_malloc s"

lemma custom_text_quiet [simp]: "quiet s \<Longrightarrow> custom_text msg s = []"
  by (simp add: custom_text_def quiet_def)

lemma quiet_fields [simp]: "quiet (talk ts s) = quiet s" "quiet (poke f s) = quiet s"
  by (simp_all add: quiet_def)

text \<open>A step that changes memory only inside \<open>S\<close> and otherwise at most prints.\<close>

definition mem_step :: "addr set \<Rightarrow> malloc_state \<Rightarrow> malloc_state \<Rightarrow> bool" where
  "mem_step S s s' \<longleftrightarrow> touches S (heap_mem s) (heap_mem s') \<and>
     heap_head s' = heap_head s \<and> suppress_debug s' = suppress_debug s \<and>
     brk_start s' = brk_start s \<and> brk_cur s' = brk_cur s \<and> brk_max s' = brk_max s \<and>
     errno s' = errno s \<and> debug_malloc s' = debug_malloc s \<and>
     (\<exists>ts. stderr_out s' = stderr_out s @ ts \<and> (quiet s \<longrightarrow> ts = []))"

lemma mem_step_quiet: "mem_step S s s' \<Longrightarrow> quiet s' = quiet s"
  by (simp add: mem_step_def quiet_def)

lemma mem_step_refl [simp, intro]: "mem_step S s s"
  by (simp add: mem_step_def)

lemma mem_step_trans [trans]:
  assumes "mem_step S s s'" and "mem_step S s' s''"
  shows "mem_step S s s''"
proof -
  have "touches S (heap_mem s) (heap_mem s'')"
    using assms by (auto simp: mem_step_def intro: touches_trans)
  with assms mem_step_quiet [OF assms(1)] show ?thesis
    by (auto simp: mem_step_def)
qed

lemma mem_step_mono: "mem_step S s s' \<Longrightarrow> S \<subseteq> T \<Longrightarrow> mem_step T s s'"
  using touches_mono by (auto simp: mem_step_def)

lemma mem_step_talk: "quiet s \<longrightarrow> ts = [] \<Longrightarrow> mem_step S s (talk ts s)"
  by (auto simp: mem_step_def)

lemma mem_step_custom [simp, intro]: "mem_step S s (talk (custom_text msg s) s)"
  by (rule mem_step_talk) simp

lemma mem_step_poke: "touches S (heap_mem s) (f (heap_mem s)) \<Longrightarrow> mem_step S s (poke f s)"
  by (simp add: mem_step_def)

lemma print_custom_talk [simp]: "print_custom_debug_msg msg s = talk (custom_text msg s) s"
  by (auto simp: print_custom_debug_msg_def custom_text_def snprintf_def emit_def talk_def Let_def)

section \<open>Finding a block\<close>

definition payload :: "block \<Rightarrow> addr set" where
  "payload b = range_of (unat (b_addr b) + 32) (unat (b_cap b))"

definition block_of :: "addr \<Rightarrow> block list \<Rightarrow> block option" where
  "block_of p bs = find (\<lambda>b. p \<in> payload b) bs"

definition addr_of :: "block option \<Rightarrow> addr" where
  "addr_of r = (case r of None \<Rightarrow> NULL | Some b \<Rightarrow> b_addr b)"

lemma addr_of_simps [simp]: "addr_of None = NULL" "addr_of (Some b) = b_addr b"
  by (simp_all add: addr_of_def)

lemma payload_word:
  assumes "b_end b < 2 ^ 64"
  shows "b_addr b + header_size \<le> p \<and> p < b_addr b + header_size + b_cap b \<longleftrightarrow> p \<in> payload b"
    and "p < b_addr b + header_size \<longleftrightarrow> unat p < unat (b_addr b) + 32"
proof -
  have u: "unat (b_addr b + 32) = unat (b_addr b) + 32"
    using assms by (simp add: unat_add_fits b_end_def)
  then have "unat (b_addr b + 32 + b_cap b) = b_end b"
    using assms by (simp add: unat_add_fits b_end_def)
  with u show "b_addr b + header_size \<le> p \<and> p < b_addr b + header_size + b_cap b \<longleftrightarrow> p \<in> payload b"
    and "p < b_addr b + header_size \<longleftrightarrow> unat p < unat (b_addr b) + 32"
    by (auto simp: word_le_nat_alt word_less_nat_alt payload_def b_end_def)
qed

lemma findblock_loop_ok:
  assumes "chain_to (heap_mem s) bs NULL" and "layout lo bs hi" and "hi < 2 ^ 64" and "0 < lo"
  shows "\<exists>ts. findblock_loop p (first_addr bs) s = Some (addr_of (block_of p bs), talk ts s) \<and>
    (quiet s \<longrightarrow> ts = [])"
  using assms
proof (induction bs arbitrary: lo)
  case Nil
  show ?case by (subst findblock_loop.simps) (auto simp: block_of_def)
next
  case (Cons b bs)
  have ne: "b_addr b \<noteq> NULL" using Cons.prems by auto
  have be: "b_end b < 2 ^ 64" using layout_bounds(2) [OF Cons.prems(2)] Cons.prems(3) by fastforce
  have hdr: "get_cap (heap_mem s) (b_addr b) = b_cap b"
    "get_next (heap_mem s) (b_addr b) = first_addr bs"
    using Cons.prems(1) by auto
  have IH: "\<exists>ts. findblock_loop p (first_addr bs) s = Some (addr_of (block_of p bs), talk ts s) \<and>
    (quiet s \<longrightarrow> ts = [])"
    using Cons.prems by (intro Cons.IH [of "b_end b"]) (auto simp: b_end_def)
  have later: "p \<notin> payload c" if "unat p < unat (b_addr b) + 32" "c \<in> set bs" for c
  proof -
    have "b_end b \<le> unat (b_addr c)"
      using layout_ordered(2) [of lo "[]" b bs hi c] that(2) Cons.prems(2) by simp
    with that(1) show ?thesis by (simp add: payload_def b_end_def)
  qed
  consider (inside) "p \<in> payload b" | (before) "unat p < unat (b_addr b) + 32"
    | (after) "p \<notin> payload b" "\<not> unat p < unat (b_addr b) + 32" by blast
  then show ?case
  proof cases
    case inside
    with ne hdr show ?thesis
      by (subst findblock_loop.simps)
        (auto simp: payload_word [OF be, simplified] block_of_def Let_def)
  next
    case before
    then have "p \<notin> payload b" by (simp add: payload_def)
    moreover have "block_of p bs = None" using later [OF before] by (simp add: block_of_def find_None_iff)
    ultimately show ?thesis using ne hdr before
      by (subst findblock_loop.simps)
        (auto simp: payload_word [OF be, simplified] block_of_def Let_def)
  next
    case after
    with ne hdr IH show ?thesis
      by (subst findblock_loop.simps)
        (auto simp: payload_word [OF be, simplified] block_of_def Let_def)
  qed
qed

lemma findblock_ok:
  assumes "placed s bs"
  shows "\<exists>ts. findblock p s = Some (addr_of (block_of p bs), talk ts s) \<and> (quiet s \<longrightarrow> ts = [])"
proof -
  obtain lo hi where l: "0 < lo" "layout lo bs hi" "hi < 2 ^ 63"
    using assms by (auto simp: placed_def tiled_def)
  have chain: "chain_to (heap_mem s) bs NULL" and head: "heap_head s = first_addr bs"
    using assms by (simp_all add: placed_def)
  define s0 where "s0 = talk (custom_text (''finding block'' @ ''\<newline>'') s) s"
  have "\<exists>ts. findblock_loop p (first_addr bs) s0 = Some (addr_of (block_of p bs), talk ts s0) \<and>
    (quiet s0 \<longrightarrow> ts = [])"
    using l chain by (intro findblock_loop_ok [of _ _ lo hi]) (simp_all add: s0_def)
  moreover have "block_of NULL bs = None"
    by (auto simp: block_of_def find_None_iff payload_def)
  ultimately show ?thesis
    using head by (auto simp: findblock_def s0_def Let_def)
qed

lemma emit_talk:
  assumes "0 \<le> len" and "\<not> suppress_debug s"
  shows "\<exists>us. emit len buf False (talk ts (s\<lparr>suppress_debug := True\<rparr>)) = talk us s"
  using assms by (cases s) (auto simp: emit_def talk_def Let_def)

lemma print_debug_msg_ok:
  assumes "placed s bs"
  shows "\<exists>ts. print_debug_msg i p q n z s = Some (talk ts s) \<and> (quiet s \<longrightarrow> ts = [])"
proof (cases "suppress_debug s \<or> \<not> debug_malloc s")
  case True
  then have "print_debug_msg i p q n z s = Some (talk [] s)" by (simp add: print_debug_msg_def)
  then show ?thesis by blast
next
  case False
  define s0 where "s0 = s\<lparr>suppress_debug := True\<rparr>"
  have "placed s0 bs" using assms by (simp add: s0_def)
  then obtain ts where "findblock q s0 = Some (addr_of (block_of q bs), talk ts s0)"
    using findblock_ok by blast
  with False show ?thesis
    by (auto simp: print_debug_msg_def snprintf_def Let_def s0_def emit_talk quiet_def)
qed

text \<open>The same as an equation, for rewriting inside the operations.\<close>

definition report_text :: "int \<Rightarrow> addr \<Rightarrow> addr \<Rightarrow> size_t \<Rightarrow> size_t \<Rightarrow> malloc_state \<Rightarrow> string list" where
  "report_text i p q n z s =
     drop (length (stderr_out s)) (stderr_out (the (print_debug_msg i p q n z s)))"

lemma report_text_quiet [simp]: "quiet s \<Longrightarrow> report_text i p q n z s = []"
  by (simp add: report_text_def print_debug_msg_def quiet_def)

lemma print_debug_msg_talk:
  assumes "placed s bs"
  shows "print_debug_msg i p q n z s = Some (talk (report_text i p q n z s) s)"
  using print_debug_msg_ok [OF assms, of i p q n z] by (auto simp: report_text_def)

section \<open>Merging\<close>

definition merged :: "block list \<Rightarrow> block list \<Rightarrow> malloc_state \<Rightarrow> malloc_state \<Rightarrow> bool" where
  "merged xs bs s s' \<longleftrightarrow> mem_step (slots (coalesce bs)) s s' \<and>
     chain_to (heap_mem s') (xs @ coalesce bs) NULL"

lemma merge_loop_ok:
  assumes hi: "hi \<le> 2 ^ 64" and lo: "0 < lo"
  shows "chain_to (heap_mem s) (xs @ rest) NULL \<Longrightarrow> layout lo (xs @ rest) hi \<Longrightarrow>
      length rest = n \<Longrightarrow> \<exists>s'. merge_loop (first_addr rest) NULL s = Some s' \<and> merged xs rest s s'"
    and "chain_to (heap_mem s) (xs @ f # rest) NULL \<Longrightarrow> layout lo (xs @ f # rest) hi \<Longrightarrow> b_free f \<Longrightarrow>
      length rest = n \<Longrightarrow>
      \<exists>s'. merge_loop (first_addr rest) (b_addr f) s = Some s' \<and> merged xs (f # rest) s s'"
proof (induction n arbitrary: s xs rest f)
  case 0
  { case 1
    then show ?case by (subst merge_loop.simps) (simp add: merged_def)
  next
    case 2
    then show ?case by (subst merge_loop.simps) (simp add: merged_def)
  }
next
  case (Suc n)
  { case 1
    then obtain b r where rest: "rest = b # r" by (cases rest) auto
    have b: "b_addr b \<noteq> NULL" "get_free (heap_mem s) (b_addr b) = b_free b"
      "get_next (heap_mem s) (b_addr b) = first_addr r"
      using 1 rest lo layout_addr_pos [of lo "xs @ rest" hi] by (auto simp: chain_to_append)
    show ?case
    proof (cases "b_free b")
      case True
      with Suc.IH(2) [of s xs b r] 1 rest b show ?thesis by (subst merge_loop.simps) simp
    next
      case False
      then have "\<exists>s'. merge_loop (first_addr r) NULL s = Some s' \<and> merged (xs @ [b]) r s s'"
        using Suc.IH(1) [of s "xs @ [b]" r] 1 rest by simp
      moreover have "merged xs rest s s'" if "merged (xs @ [b]) r s s'" for s'
        using that False rest by (auto simp: merged_def coalesce_used elim!: mem_step_mono)
      ultimately show ?thesis using False rest b by (subst merge_loop.simps) auto
    qed
  next
    case 2
    then obtain c r where rest: "rest = c # r" by (cases rest) auto
    have nz: "b_addr c \<noteq> NULL" "b_addr f \<noteq> NULL"
      using 2 rest lo layout_addr_pos [of lo "xs @ f # rest" hi] by auto
    have c: "get_free (heap_mem s) (b_addr c) = b_free c"
      "get_next (heap_mem s) (b_addr c) = first_addr r"
      using 2 rest by (auto simp: chain_to_append)
    show ?case
    proof (cases "b_free c")
      case False
      then have "\<exists>s'. merge_loop (first_addr r) NULL s = Some s' \<and> merged (xs @ [f, c]) r s s'"
        using Suc.IH(1) [of s "xs @ [f, c]" r] 2 rest by simp
      moreover have "merged xs (f # rest) s s'" if "merged (xs @ [f, c]) r s s'" for s'
        using that False rest by (auto simp: merged_def coalesce_used elim!: mem_step_mono)
      ultimately show ?thesis using False rest c nz by (subst merge_loop.simps) auto
    next
      case True
      define s0 where "s0 = poke (put_cap (b_addr f) (get_cap (heap_mem s) (b_addr f)
          + (header_size + get_cap (heap_mem s) (b_addr c)))) s"
      define s1 where "s1 = say ''merged free nodes''
        (poke (put_next (b_addr f) (get_next (heap_mem s0) (b_addr c))) s0)"
      have fits: "header_fits (b_addr f)"
        using layout_header_fits [of lo "xs @ f # rest" hi f] 2 hi by simp
      have chain: "chain_to (heap_mem s1) (xs @ absorb f c # r) NULL"
        and t: "touches (range_of (unat (b_addr f)) 24) (heap_mem s) (heap_mem s1)"
        using chain_merge [of "heap_mem s" xs f c r NULL lo hi] 2 rest hi
        by (simp_all add: s1_def s0_def)
      have lay: "layout lo (xs @ absorb f c # r) hi"
        using 2 rest layout_absorb [of _ f c r hi] layout_le hi lo
        by (fastforce simp: layout_append simp del: layout.simps)
      have "\<exists>s'. merge_loop (first_addr r) (b_addr f) s1 = Some s' \<and> merged xs (absorb f c # r) s1 s'"
        using Suc.IH(2) [of s1 xs "absorb f c" r] chain lay 2 rest by simp
      then obtain s' where s': "merge_loop (first_addr r) (b_addr f) s1 = Some s'"
        "merged xs (absorb f c # r) s1 s'" by blast
      have "range_of (unat (b_addr f)) 24 \<subseteq> slots (coalesce (absorb f c # r))"
        using coalesce_head [of "absorb f c" r] by auto
      then have "mem_step (slots (coalesce (absorb f c # r))) s s1"
        using touches_mono [OF t] custom_text_quiet [of s]
        by (fastforce simp: mem_step_def s1_def s0_def custom_text_def)
      then have "merged xs (f # rest) s s'"
        using s'(2) True 2 rest by (auto simp: merged_def elim: mem_step_trans)
      moreover have "get_next (heap_mem s1) (b_addr f) = first_addr r"
        using chain by (auto simp: chain_to_append)
      then have "merge_loop (first_addr rest) (b_addr f) s = Some s'"
        using True c nz s'(1) rest
        by (subst merge_loop.simps) (simp add: Let_def s1_def s0_def)
      ultimately show ?thesis by blast
    qed
  }
qed

text \<open>The heap invariant: a placed list in which no two neighbours are free.\<close>

definition heap_inv :: "malloc_state \<Rightarrow> block list \<Rightarrow> bool" where
  "heap_inv s bs \<longleftrightarrow> placed s bs \<and> separated bs"

lemma heap_inv_simps [simp]:
  "heap_inv (talk ts s) bs = heap_inv s bs"
  "heap_inv (s\<lparr>suppress_debug := b\<rparr>) bs = heap_inv s bs"
  "heap_inv (s\<lparr>errno := e\<rparr>) bs = heap_inv s bs"
  by (simp_all add: heap_inv_def)

lemma placed_mem_step:
  assumes "mem_step S s s'" and "placed s bs"
    and "chain_to (heap_mem s') bs' NULL" and "first_addr bs' = first_addr bs"
    and "\<And>lo hi. layout lo bs hi \<Longrightarrow> 0 < lo \<Longrightarrow> hi \<le> 2 ^ 64 \<Longrightarrow> layout lo bs' hi"
    and "bs' \<noteq> [] \<Longrightarrow> bs \<noteq> []"
  shows "placed s' bs'"
proof -
  obtain lo hi where "0 < lo" "16 dvd lo" "layout lo bs hi" "hi < 2 ^ 63"
    "bs \<noteq> [] \<longrightarrow> unat (brk_start s) \<le> lo \<and> hi = unat (brk_cur s)"
    using assms(2) by (auto simp: placed_def tiled_def)
  then have "tiled s' bs'"
    unfolding tiled_def using assms(1,5,6)
    by (intro exI [of _ lo] exI [of _ hi]) (auto simp: mem_step_def)
  with assms(1-4) show ?thesis by (simp add: placed_def kernel_ok_def mem_step_def)
qed

lemma merge_free_nodes_ok:
  assumes "placed s bs"
  shows "\<exists>s'. merge_free_nodes s = Some s' \<and> mem_step (slots (coalesce bs)) s s' \<and>
    heap_inv s' (coalesce bs)"
proof -
  obtain lo hi where l: "0 < lo" "layout lo bs hi" "hi < 2 ^ 63"
    using assms by (auto simp: placed_def tiled_def)
  define s0 where "s0 = say ''attempting to merge free nodes'' s"
  have s0: "chain_to (heap_mem s0) ([] @ bs) NULL" "heap_head s0 = first_addr bs"
    "mem_step (slots (coalesce bs)) s s0"
    using assms by (simp_all add: s0_def placed_def)
  obtain s' where s': "merge_loop (first_addr bs) NULL s0 = Some s'" "merged [] bs s0 s'"
    using merge_loop_ok(1) [of hi lo s0 "[]" bs "length bs"] s0 l by auto
  have m: "mem_step (slots (coalesce bs)) s s'"
    using s0(3) s'(2) by (auto simp: merged_def intro: mem_step_trans)
  have "placed s' (coalesce bs)"
    by (rule placed_mem_step [OF m assms]) (use s'(2) layout_coalesce in \<open>auto simp: merged_def\<close>)
  moreover have "merge_free_nodes s = Some s'"
    using s'(1) s0(2) by (simp add: merge_free_nodes_def Let_def s0_def)
  ultimately show ?thesis using m by (simp add: heap_inv_def)
qed

section \<open>Splitting\<close>

lemma splitblock_ok:
  assumes inv: "heap_inv s (xs @ b # ys)" and used: "\<not> b_free b"
    and r: "16 \<le> unat r" "16 dvd unat r" "unat r \<le> unat (b_cap b)"
  shows "\<exists>s'. splitblock (b_addr b) r s = Some (b_addr b + 32, s') \<and>
    heap_inv s' (xs @ trim b r ys) \<and>
    mem_step (slots (xs @ b # ys) \<union> slots (xs @ trim b r ys)) s s'"
proof -
  obtain lo hi where l: "0 < lo" "layout lo (xs @ b # ys) hi" "hi \<le> 2 ^ 64"
    using inv by (force simp: heap_inv_def placed_def tiled_def)
  define s0 where "s0 = say ''attempting to split block'' s"
  have s0: "chain_to (heap_mem s0) (xs @ b # ys) NULL" "heap_inv s0 (xs @ b # ys)"
    using inv by (simp add: s0_def heap_inv_def placed_def) (simp add: inv s0_def)
  have cap: "get_cap (heap_mem s) (b_addr b) = b_cap b"
    using s0(1) by (simp add: chain_to_append s0_def)
  have left: "unat (b_cap b - r) = unat (b_cap b) - unat r" using r by (simp add: unat_diff_fits)
  have m0: "mem_step T s s0" for T by (simp add: s0_def)
  show ?thesis
  proof (cases "unat r + 48 \<le> unat (b_cap b)")
    case False
    then have "\<not> 48 \<le> b_cap b - r" using left r by (simp add: word_le_nat_alt)
    then have "splitblock (b_addr b) r s = Some (b_addr b + 32, s0)"
      using cap by (simp add: splitblock_def Let_def s0_def)
    with False s0 m0 show ?thesis by (auto simp: trim_def)
  next
    case True
    then have enough: "48 \<le> b_cap b - r" using left by (simp add: word_le_nat_alt)
    define q where "q = b_addr b + 32 + r"
    define s1 where "s1 = poke (put_free q True)
      (poke (put_cap q (b_cap b - r - 32)) (poke (put_cap (b_addr b) r) s0))"
    define s2 where "s2 = say ''successfully split block'' (poke (put_next (b_addr b) q)
      (poke (put_next q (get_next (heap_mem s1) (b_addr b))) s1))"
    let ?bs = "xs @ b\<lparr>b_cap := r\<rparr> # remainder b r # ys"
    have chain: "chain_to (heap_mem s2) ?bs NULL"
      and t: "touches (range_of (unat (b_addr b)) 24 \<union> range_of (unat q) 24)
        (heap_mem s0) (heap_mem s2)"
      using chain_split [OF s0(1) l(2,3,1) True q_def refl refl] by (simp_all add: s1_def s2_def)
    have sl: "range_of (unat q) 24 \<subseteq> slots (coalesce (remainder b r # ys))"
      using coalesce_head [of "remainder b r" ys] by (auto simp: q_def)
    have m2: "mem_step (slots (xs @ b # ys) \<union> slots (xs @ trim b r ys)) s s2"
    proof (rule mem_step_trans [OF m0])
      have "touches (slots (xs @ b # ys) \<union> slots (xs @ trim b r ys)) (heap_mem s0) (heap_mem s2)"
        using t by (rule touches_mono) (use sl True in \<open>auto simp: trim_def simp del: coalesce.simps\<close>)
      then show "mem_step (slots (xs @ b # ys) \<union> slots (xs @ trim b r ys)) s0 s2"
        using custom_text_quiet [of s0] by (fastforce simp: mem_step_def s1_def s2_def custom_text_def)
    qed
    have "placed s2 ?bs"
    proof (rule placed_mem_step [OF m2])
      show "placed s (xs @ b # ys)" using inv by (simp add: heap_inv_def)
      show "first_addr ?bs = first_addr (xs @ b # ys)" by (cases xs) simp_all
      show "layout lo' ?bs hi'" if "layout lo' (xs @ b # ys) hi'" "0 < lo'" "hi' \<le> 2 ^ 64" for lo' hi'
        using that layout_split [of _ b ys hi' r] layout_le True r
        by (fastforce simp: layout_append simp del: layout.simps)
    qed (use chain in simp_all)
    then obtain s3 where s3: "merge_free_nodes s2 = Some s3"
      "mem_step (slots (coalesce ?bs)) s2 s3" "heap_inv s3 (coalesce ?bs)"
      using merge_free_nodes_ok by blast
    have co: "coalesce ?bs = xs @ trim b r ys"
      using True used inv coalesce_append_used [of "b\<lparr>b_cap := r\<rparr>" xs "remainder b r # ys"]
      by (simp add: trim_def heap_inv_def coalesce_separated del: coalesce.simps)
    have "mem_step (slots (xs @ b # ys) \<union> slots (xs @ trim b r ys)) s s3"
      using m2 s3(2) co by (auto intro: mem_step_trans mem_step_mono)
    moreover have "splitblock (b_addr b) r s = Some (b_addr b + 32, s3)"
      using s3(1) cap enough
      by (simp add: splitblock_def Let_def s0_def s1_def s2_def q_def)
    ultimately show ?thesis using s3(3) co by auto
  qed
qed

end
