(* ===== verification/Malloc_Ops.thy ===== *)
theory Malloc_Ops
  imports Malloc_Steps
begin

text \<open>
  The operations of Asgn1/malloc.c against lists of blocks: \<open>spec_malloc\<close>, \<open>spec_free\<close> and
  the in-place cases of \<open>realloc\<close> are functions on lists, and each operation of the code, run on
  a heap that represents a list, ends in a heap that represents the function's result.
\<close>

section \<open>Rounding\<close>

lemma unat_round_up_16:
  assumes "unat sz + 16 \<le> 2 ^ 64"
  shows "unat (round_up_16 sz) = (unat sz + 15) div 16 * 16"
proof -
  have "unat (sz + 15) = unat sz + 15" using assms by (simp add: unat_add_fits)
  then have d: "unat ((sz + 15) div 16) = (unat sz + 15) div 16" by (simp add: unat_div)
  then have "unat ((sz + 15) div 16) * unat (16 :: size_t) < 2 ^ LENGTH(64)"
    using assms by simp
  then have "unat ((sz + 15) div 16 * 16) = unat ((sz + 15) div 16) * unat (16 :: size_t)"
    using unat_mult_lem by blast
  with d show ?thesis by (simp add: round_up_16_def)
qed

lemma round_up_16_props:
  assumes "unat sz + 16 \<le> 2 ^ 64"
  shows "unat sz \<le> unat (round_up_16 sz)" and "unat (round_up_16 sz) < unat sz + 16"
    and "16 dvd unat (round_up_16 sz)" and "0 < unat sz \<Longrightarrow> 16 \<le> unat (round_up_16 sz)"
  unfolding unat_round_up_16 [OF assms] by simp_all

lemma round_up_16_id:
  assumes "16 dvd unat a" and "unat a < 2 ^ 63"
  shows "round_up_16 a = a"
proof -
  have "(unat a + 15) div 16 * 16 = unat a" using assms(1) by presburger
  with assms(2) show ?thesis by (simp add: word_unat_eq_iff unat_round_up_16)
qed

section \<open>What an operation may change\<close>

definition heap_step :: "addr set \<Rightarrow> malloc_state \<Rightarrow> malloc_state \<Rightarrow> bool" where
  "heap_step S s s' \<longleftrightarrow> touches S (heap_mem s) (heap_mem s') \<and>
     suppress_debug s' = suppress_debug s \<and> debug_malloc s' = debug_malloc s \<and>
     brk_start s' = brk_start s \<and> brk_max s' = brk_max s \<and>
     (\<exists>ts. stderr_out s' = stderr_out s @ ts \<and> (quiet s \<longrightarrow> ts = []))"

lemma heap_step_quiet: "heap_step S s s' \<Longrightarrow> quiet s' = quiet s"
  by (simp add: heap_step_def quiet_def)

lemma heap_step_refl [simp, intro]: "heap_step S s s"
  by (simp add: heap_step_def)

lemma heap_step_mem: "mem_step S s s' \<Longrightarrow> heap_step S s s'"
  by (simp add: heap_step_def mem_step_def)

lemma heap_step_trans [trans]:
  assumes "heap_step S s s'" and "heap_step S s' s''"
  shows "heap_step S s s''"
proof -
  have "touches S (heap_mem s) (heap_mem s'')"
    using assms by (auto simp: heap_step_def intro: touches_trans)
  with assms heap_step_quiet [OF assms(1)] show ?thesis
    by (auto simp: heap_step_def)
qed

lemma heap_step_mono: "heap_step S s s' \<Longrightarrow> S \<subseteq> T \<Longrightarrow> heap_step T s s'"
  using touches_mono by (auto simp: heap_step_def)

lemma heap_step_talk: "quiet s \<longrightarrow> ts = [] \<Longrightarrow> heap_step S s (talk ts s)"
  by (auto simp: heap_step_def)

lemma heap_step_after_talk: "heap_step S s s' \<Longrightarrow> quiet s \<longrightarrow> ts = [] \<Longrightarrow> heap_step S s (talk ts s')"
  using heap_step_trans [OF _ heap_step_talk] heap_step_quiet by blast

section \<open>Searching\<close>

definition suits :: "size_t \<Rightarrow> block \<Rightarrow> bool" where
  "suits r b \<longleftrightarrow> b_free b \<and> r \<le> b_cap b"

lemma malloc_search_found:
  assumes "chain_to (heap_mem s) (xs @ b # ys) NULL" and "layout lo (xs @ b # ys) hi" and "0 < lo"
    and "\<And>x. x \<in> set xs \<Longrightarrow> \<not> suits r x" and "suits r b"
  shows "\<exists>prev. malloc_search r p (first_addr (xs @ b # ys)) s
    = Some (prev, b_addr b, say ''MALLOC: found block big enough'' s)"
  using assms
proof (induction xs arbitrary: p lo)
  case Nil
  then show ?case
    by (subst malloc_search.simps) (auto simp: suits_def)
next
  case (Cons x xs)
  have "b_addr x \<noteq> NULL" using Cons.prems by auto
  moreover have "\<exists>prev. malloc_search r (b_addr x) (first_addr (xs @ b # ys)) s
    = Some (prev, b_addr b, say ''MALLOC: found block big enough'' s)"
    using Cons.prems by (intro Cons.IH [of "b_end x"]) (auto simp: b_end_def)
  ultimately show ?case using Cons.prems
    by (subst malloc_search.simps) (auto simp: suits_def first_addr_def split: list.splits)
qed

lemma malloc_search_none:
  assumes "chain_to (heap_mem s) bs NULL" and "layout lo bs hi" and "0 < lo"
    and "\<And>x. x \<in> set bs \<Longrightarrow> \<not> suits r x"
  shows "malloc_search r p (first_addr bs) s
    = Some (if bs = [] then p else b_addr (last bs), NULL, s)"
  using assms
proof (induction bs arbitrary: p lo)
  case Nil
  then show ?case by (subst malloc_search.simps) simp
next
  case (Cons x xs)
  have "b_addr x \<noteq> NULL" using Cons.prems by auto
  moreover have "malloc_search r (b_addr x) (first_addr xs) s
    = Some (if xs = [] then b_addr x else b_addr (last xs), NULL, s)"
    using Cons.prems by (intro Cons.IH [of "b_end x"]) (auto simp: b_end_def)
  ultimately show ?case using Cons.prems
    by (subst malloc_search.simps) (auto simp: suits_def)
qed

section \<open>Taking a block\<close>

text \<open>The end of \<open>malloc\<close>: mark the block used, split it, report.\<close>

lemma placed_mark:
  assumes "placed s (xs @ b # ys)"
  shows "placed (poke (put_free (b_addr b) v) s) (xs @ b\<lparr>b_free := v\<rparr> # ys)"
    and "mem_step (slots (xs @ b # ys)) s (poke (put_free (b_addr b) v) s)"
proof -
  obtain lo hi where l: "layout lo (xs @ b # ys) hi" "hi \<le> 2 ^ 64"
    using assms by (force simp: placed_def tiled_def)
  have "header_fits (b_addr b)" using layout_header_fits [OF l] by simp
  then have "touches (slots (xs @ b # ys)) (heap_mem s) (put_free (b_addr b) v (heap_mem s))"
    by (rule touches_put(2)) auto
  then show m: "mem_step (slots (xs @ b # ys)) s (poke (put_free (b_addr b) v) s)"
    by (rule mem_step_poke)
  have "chain_to (heap_mem s) (xs @ b # ys) NULL" using assms by (simp add: placed_def)
  then have "chain_to (heap_mem (poke (put_free (b_addr b) v) s)) (xs @ b\<lparr>b_free := v\<rparr> # ys) NULL"
    using chain_mark(1) l by simp
  then show "placed (poke (put_free (b_addr b) v) s) (xs @ b\<lparr>b_free := v\<rparr> # ys)"
    by (rule placed_mem_step [OF m assms]) (auto simp: layout_append b_end_def intro!: first_addr_mid)
qed

lemma take_block:
  assumes placed: "placed s (xs @ b # ys)" and sep: "separated xs" "separated ys"
    and r: "16 \<le> unat r" "16 dvd unat r" "unat r \<le> unat (b_cap b)"
    and bs': "bs' = xs @ trim (b\<lparr>b_free := False\<rparr>) r ys"
  shows "\<exists>s'. splitblock (b_addr b) r (poke (put_free (b_addr b) False) s) = Some (b_addr b + 32, s') \<and>
    heap_inv s' bs' \<and> mem_step (slots (xs @ b # ys) \<union> slots bs') s s'"
proof -
  let ?b = "b\<lparr>b_free := False\<rparr>" and ?s = "poke (put_free (b_addr b) False) s"
  have "heap_inv ?s (xs @ ?b # ys)"
    using placed_mark(1) [OF placed] sep by (simp add: heap_inv_def)
  from splitblock_ok [OF this] r obtain s' where s':
    "splitblock (b_addr b) r ?s = Some (b_addr b + 32, s')" "heap_inv s' bs'"
    "mem_step (slots (xs @ ?b # ys) \<union> slots bs') ?s s'"
    unfolding bs' by auto
  have "mem_step (slots (xs @ b # ys) \<union> slots bs') s s'"
    by (rule mem_step_trans [OF mem_step_mono [OF placed_mark(2) [OF placed]]]) (use s'(3) in auto)
  with s' show ?thesis by blast
qed

section \<open>Growing the heap\<close>

lemma sint_small:
  fixes w :: "64 word"
  assumes "unat w < 2 ^ 63"
  shows "sint w = uint w"
proof -
  have "- (2 ^ 63) \<le> (0 :: int)" by simp
  then have ge: "- (2 ^ 63) \<le> uint w" using uint_ge_0 [of w] by (rule order_trans)
  have "int (unat w) < int (2 ^ 63)" using assms by (simp only: of_nat_less_iff)
  then have "uint w < 2 ^ 63" by simp
  from signed_take_bit_int_eq_self [OF ge this] show ?thesis by (simp add: sint_uint)
qed

lemma sbrk_cases:
  assumes "kernel_ok s" and "unat n < 2 ^ 63"
  shows "sbrk n s = (if unat (brk_cur s) + unat n \<le> unat (brk_max s)
    then (brk_cur s, s\<lparr>brk_cur := brk_cur s + n\<rparr>) else (- 1, s\<lparr>errno := ENOMEM\<rparr>))"
proof -
  have "uint (brk_start s) \<le> uint (brk_cur s)"
    using assms(1) by (simp add: kernel_ok_def flip: word_le_nat_alt word_le_def)
  then have "uint (brk_start s) \<le> uint (brk_cur s) + uint n"
    using uint_ge_0 [of n] by linarith
  moreover have "uint (brk_cur s) + uint n \<le> uint (brk_max s) \<longleftrightarrow>
      unat (brk_cur s) + unat n \<le> unat (brk_max s)"
    unfolding uint_nat by linarith
  ultimately show ?thesis
    by (simp add: sbrk_def sint_small [OF assms(2)] Let_def)
qed

lemma sbrk_grant:
  assumes "kernel_ok s" and "unat n < 2 ^ 63" and "unat (brk_cur s) + unat n \<le> unat (brk_max s)"
  shows "sbrk n s = (brk_cur s, s\<lparr>brk_cur := brk_cur s + n\<rparr>)"
  using sbrk_cases [OF assms(1,2)] assms(3) by simp

lemma sbrk_refuse:
  assumes "kernel_ok s" and "unat n < 2 ^ 63" and "unat (brk_max s) < unat (brk_cur s) + unat n"
  shows "sbrk n s = (- 1, s\<lparr>errno := ENOMEM\<rparr>)"
  using sbrk_cases [OF assms(1,2)] assms(3) by simp

lemma unat_minus_one_64: "unat (- 1 :: 64 word) = 2 ^ 64 - 1"
  by (simp add: unat_eq_nat_uint uint_word_ariths)

lemma brk_not_error:
  assumes "kernel_ok s"
  shows "brk_cur s \<noteq> - 1"
proof
  assume "brk_cur s = - 1"
  then have "unat (brk_cur s) = 2 ^ 64 - 1" using unat_minus_one_64 by metis
  moreover have "unat (brk_cur s) < 2 ^ 63" using assms by (simp add: kernel_ok_def)
  ultimately show False by simp
qed

text \<open>
  The address at which a new block would start, its size, and whether the kernel lets the
  break move that far.
\<close>

definition grow_base :: "malloc_state \<Rightarrow> addr" where
  "grow_base s = round_up_16 (brk_cur s)"

definition chunk_for :: "size_t \<Rightarrow> size_t" where
  "chunk_for used = (if used < CHUNK_SIZE then CHUNK_SIZE else used)"

definition room :: "malloc_state \<Rightarrow> size_t \<Rightarrow> bool" where
  "room s n \<longleftrightarrow> unat (grow_base s) + unat n \<le> unat (brk_max s)"

abbreviation fresh_block :: "malloc_state \<Rightarrow> size_t \<Rightarrow> block" where
  "fresh_block s n \<equiv> \<lparr>b_addr = grow_base s, b_cap = n - 32, b_free = True\<rparr>"

lemma grow_base_props:
  assumes "kernel_ok s"
  shows "unat (brk_cur s) \<le> unat (grow_base s)" and "16 dvd unat (grow_base s)"
    and "unat (grow_base s - brk_cur s) = unat (grow_base s) - unat (brk_cur s)"
    and "unat (grow_base s) - unat (brk_cur s) < 16"
    and "brk_cur s + (grow_base s - brk_cur s) = grow_base s"
    and "0 < unat (grow_base s)" and "unat (grow_base s) < 2 ^ 63 + 16"
proof -
  have small: "unat (brk_cur s) + 16 \<le> 2 ^ 64" "unat (brk_cur s) < 2 ^ 63" "0 < unat (brk_cur s)"
    using assms by (auto simp: kernel_ok_def)
  note r = round_up_16_props [OF small(1)]
  show "unat (brk_cur s) \<le> unat (grow_base s)" "16 dvd unat (grow_base s)"
    "unat (grow_base s) - unat (brk_cur s) < 16" "unat (grow_base s) < 2 ^ 63 + 16"
    "0 < unat (grow_base s)"
    using r small by (simp_all add: grow_base_def)
  then show "unat (grow_base s - brk_cur s) = unat (grow_base s) - unat (brk_cur s)"
    by (simp add: unat_diff_fits)
  show "brk_cur s + (grow_base s - brk_cur s) = grow_base s" by simp
qed

lemma layout_dvd: "layout lo bs hi \<Longrightarrow> 16 dvd lo \<Longrightarrow> 16 dvd hi"
proof (induction bs arbitrary: lo)
  case (Cons b bs)
  then have "16 dvd b_end b" by (auto simp: b_end_def)
  with Cons show ?case by auto
qed simp

text \<open>A heap with blocks has an aligned break: no padding is needed.\<close>

lemma grow_base_aligned:
  assumes "placed s bs" and "bs \<noteq> []"
  shows "grow_base s = brk_cur s"
proof -
  have "16 dvd unat (brk_cur s)" "unat (brk_cur s) < 2 ^ 63"
    using assms layout_dvd by (auto simp: placed_def tiled_def)
  then show ?thesis by (simp add: grow_base_def round_up_16_id)
qed

lemma malloc_grow_ok:
  assumes placed: "placed s bs" and n: "n = chunk_for used" "unat n < 2 ^ 63" "48 \<le> unat n" "16 dvd unat n"
    and room: "room s n" and prev: "prev = (if bs = [] then NULL else b_addr (last bs))"
  shows "\<exists>s'. malloc_grow sz used prev s = Some (grow_base s, s') \<and>
    placed s' (bs @ [fresh_block s n]) \<and> heap_step (slots (bs @ [fresh_block s n])) s s'"
proof -
  let ?nb = "fresh_block s n"
  have k: "kernel_ok s" using placed by (simp add: placed_def)
  note base = grow_base_props [OF k]
  obtain lo hi where l: "0 < lo" "16 dvd lo" "layout lo bs hi" "hi < 2 ^ 63"
    "bs \<noteq> [] \<Longrightarrow> unat (brk_start s) \<le> lo \<and> hi = unat (brk_cur s)"
    using placed by (auto simp: placed_def tiled_def)
  have top: "unat (grow_base s) + unat n \<le> unat (brk_max s)" "unat (brk_max s) < 2 ^ 63"
    using room k by (auto simp: room_def kernel_ok_def)
  have cap: "unat (n - 32) = unat n - 32" using n(3) by (simp add: unat_diff_fits)
  have nb_end: "b_end ?nb = unat (grow_base s) + unat n" using cap n(3) by (simp add: b_end_def)
  have brk': "unat (grow_base s + n) = unat (grow_base s) + unat n"
    using top by (simp add: unat_add_fits)
  define s1 where "s1 = talk (custom_text ''MALLOC: no block big enough, calling sbrk\<newline>'' s) s"
  define s3 where "s3 = s1\<lparr>brk_cur := grow_base s + n\<rparr>"
  define s4 where "s4 = say ''MALLOC: sbrk succeeded'' s3"
  define s5 where "s5 = poke (put_next (grow_base s) NULL) (poke (put_free (grow_base s) True)
    (poke (put_cap (grow_base s) (n - 32)) s4))"
  define s6 where "s6 = (if prev = NULL then s5\<lparr>heap_head := grow_base s\<rparr>
    else poke (put_next prev (grow_base s)) s5)"
  have k1: "kernel_ok s1" "kernel_ok (s1\<lparr>brk_cur := grow_base s\<rparr>)"
    using k base(1) top n by (auto simp: s1_def kernel_ok_def)
  have b1: "brk_cur s1 = brk_cur s" "brk_max s1 = brk_max s" by (simp_all add: s1_def)
  have sb0: "sbrk 0 s1 = (brk_cur s, s1)"
    using sbrk_grant [OF k1(1), of 0] k by (simp add: b1 kernel_ok_def)
  have sb1: "sbrk (grow_base s - brk_cur s) s1 = (brk_cur s, s1\<lparr>brk_cur := grow_base s\<rparr>)"
    using sbrk_grant [OF k1(1), of "grow_base s - brk_cur s"] base top n
    by (simp add: b1)
  have sb2: "sbrk n (s1\<lparr>brk_cur := grow_base s\<rparr>) = (grow_base s, s3)"
    using sbrk_grant [OF k1(2), of n] n top by (simp add: b1 s3_def)
  have ne: "brk_cur s \<noteq> - 1" "grow_base s \<noteq> - 1"
    using brk_not_error [OF k] brk_not_error [OF k1(2)] by simp_all
  have run: "malloc_grow sz used prev s = Some (grow_base s, s6)"
    by (simp add: malloc_grow_def Let_def sb0 [unfolded s1_def] sb1 [unfolded s1_def]
        sb2 [unfolded s1_def] ne s6_def s5_def s4_def n(1) [unfolded chunk_for_def, simplified, symmetric]
        flip: grow_base_def)
  have prev_nz: "prev = NULL \<longleftrightarrow> bs = []"
    using prev layout_addr_pos [OF l(3) l(1), of "last bs"] by auto
  have hi_le: "bs = [] \<or> hi = unat (grow_base s)"
    using l(5) grow_base_aligned [OF placed] by (cases "bs = []") auto
  have "chain_to (heap_mem s) bs NULL" using placed by (simp add: placed_def)
  then have "chain_to (heap_mem s6) (bs @ [?nb]) NULL \<and>
    touches (slots (bs @ [?nb])) (heap_mem s) (heap_mem s6)"
  proof (cases "bs = []")
    case True
    then show ?thesis
      using chain_append_block [of "heap_mem s" "[]" 16 16 ?nb] base nb_end top prev_nz
      by (auto simp: s6_def s5_def s4_def s3_def s1_def)
  next
    case False
    then show ?thesis
      using chain_append_block [of "heap_mem s" bs lo hi ?nb] placed l hi_le nb_end top prev_nz prev
      by (simp add: s6_def s5_def s4_def s3_def s1_def placed_def)
  qed
  note mem = this
  have "tiled s6 (bs @ [?nb])"
  proof -
    have brk6: "brk_cur s6 = grow_base s + n" "brk_start s6 = brk_start s"
      by (simp_all add: s6_def s5_def s4_def s3_def s1_def)
    have "16 dvd unat n - 32" using n(4) by (simp add: dvd_diff_nat)
    then have nb: "layout (unat (grow_base s)) [?nb] (unat (grow_base s + n))"
      using n(3) cap by (simp add: nb_end brk')
    show ?thesis
    proof (cases "bs = []")
      case True
      have "unat (brk_start s) \<le> unat (grow_base s)" using k base(1) by (simp add: kernel_ok_def)
      with True nb base brk6 brk' top show ?thesis unfolding tiled_def
        by (intro exI [of _ "unat (grow_base s)"] exI [of _ "unat (grow_base s + n)"]) simp
    next
      case False
      with l hi_le nb brk6 brk' top show ?thesis unfolding tiled_def
        by (intro exI [of _ lo] exI [of _ "unat (grow_base s + n)"]) (auto simp: layout_append)
    qed
  qed
  moreover have "kernel_ok s6"
    using k top brk' base(1) by (simp add: s6_def s5_def s4_def s3_def s1_def kernel_ok_def)
  moreover have "heap_head s6 = first_addr (bs @ [?nb])"
    using placed prev_nz by (auto simp: s6_def s5_def s4_def s3_def s1_def placed_def)
  ultimately have "placed s6 (bs @ [?nb])" using mem by (simp add: placed_def)
  moreover have "heap_step (slots (bs @ [?nb])) s s6"
    using mem by (auto simp: heap_step_def s6_def s5_def s4_def s3_def s1_def custom_text_def quiet_def)
  ultimately show ?thesis using run by blast
qed

lemma malloc_grow_refused:
  assumes placed: "placed s bs" and n: "n = chunk_for used" "unat n < 2 ^ 63" and full: "\<not> room s n"
  shows "\<exists>s'. malloc_grow sz used prev s = Some (NULL, s') \<and>
    placed s' bs \<and> heap_step {} s s' \<and> errno s' = ENOMEM"
proof -
  have k: "kernel_ok s" using placed by (simp add: placed_def)
  note base = grow_base_props [OF k]
  define s1 where "s1 = talk (custom_text ''MALLOC: no block big enough, calling sbrk\<newline>'' s) s"
  have k1: "kernel_ok s1" using k by (simp add: s1_def kernel_ok_def)
  have b1: "brk_cur s1 = brk_cur s" "brk_max s1 = brk_max s" "brk_start s1 = brk_start s"
    by (simp_all add: s1_def)
  have step1: "heap_step {} s s1" by (simp add: s1_def heap_step_talk)
  have p1: "placed s1 bs" using placed by (simp add: s1_def)
  have sb0: "sbrk 0 s1 = (brk_cur s, s1)"
    using sbrk_grant [OF k1, of 0] k by (simp add: b1 kernel_ok_def)
  have report: "\<exists>s'. print_debug_msg MALLOC_ID NULL NULL 0 sz (t\<lparr>errno := ENOMEM\<rparr>) \<bind>
        (\<lambda>s. Some (NULL, say msg s)) = Some (NULL, s') \<and>
      placed s' bs \<and> heap_step {} s s' \<and> errno s' = ENOMEM"
    if t: "placed t bs" "heap_step {} s t" for t msg
  proof -
    let ?t = "t\<lparr>errno := ENOMEM\<rparr>"
    let ?ts = "report_text MALLOC_ID NULL NULL 0 sz ?t"
    have "heap_step {} s (say msg (talk ?ts ?t))"
      using t(2) report_text_quiet [of ?t] by (auto simp: heap_step_def custom_text_def quiet_def)
    with t print_debug_msg_talk [of ?t bs] show ?thesis by simp
  qed
  show ?thesis
  proof (cases "unat (grow_base s) \<le> unat (brk_max s)")
    case False
    have sb1: "sbrk (grow_base s - brk_cur s) s1 = (- 1, s1\<lparr>errno := ENOMEM\<rparr>)"
      using sbrk_refuse [OF k1, of "grow_base s - brk_cur s"] base False by (simp add: b1)
    show ?thesis
      using report [OF p1 step1, of "''MALLOC: padding sbrk failed''"]
      by (simp add: malloc_grow_def Let_def sb0 [unfolded s1_def] sb1 [unfolded s1_def]
          s1_def flip: grow_base_def)
  next
    case True
    define s2 where "s2 = s1\<lparr>brk_cur := grow_base s\<rparr>"
    have k2: "kernel_ok s2" using k base(1) True by (simp add: s2_def s1_def kernel_ok_def)
    have sb1: "sbrk (grow_base s - brk_cur s) s1 = (brk_cur s, s2)"
      using sbrk_grant [OF k1, of "grow_base s - brk_cur s"] base True by (simp add: b1 s2_def)
    have sb2: "sbrk n s2 = (- 1, s2\<lparr>errno := ENOMEM\<rparr>)"
      using sbrk_refuse [OF k2 n(2)] full by (simp add: room_def s2_def b1)
    have "placed s2 bs"
      using placed k2 grow_base_aligned [OF placed]
      by (cases "bs = []") (simp_all add: placed_def tiled_def s2_def s1_def)
    moreover have "heap_step {} s s2" using step1 by (simp add: s2_def heap_step_def)
    ultimately show ?thesis
      using report [of s2 "''MALLOC: block sbrk failed''"] brk_not_error [OF k]
      by (simp add: malloc_grow_def Let_def sb0 [unfolded s1_def] sb1 [unfolded s1_def] sb2
          n(1) [unfolded chunk_for_def, simplified, symmetric] flip: grow_base_def)
  qed
qed

section \<open>malloc\<close>

text \<open>Requests that the rounding, the header and the signed argument of \<open>sbrk\<close> can represent.\<close>

definition req_ok :: "size_t \<Rightarrow> bool" where
  "req_ok sz \<longleftrightarrow> 0 < unat sz \<and> unat sz \<le> 2 ^ 63 - 64"

lemma req_ok_sizes:
  assumes "req_ok sz"
  shows "16 \<le> unat (round_up_16 sz)" and "16 dvd unat (round_up_16 sz)"
    and "unat sz \<le> unat (round_up_16 sz)" and "unat (round_up_16 sz) < unat sz + 16"
    and "unat (chunk_for (header_size + round_up_16 sz)) < 2 ^ 63"
    and "unat (round_up_16 sz) + 32 \<le> unat (chunk_for (header_size + round_up_16 sz))"
    and "16 dvd unat (chunk_for (header_size + round_up_16 sz))"
    and "48 \<le> unat (chunk_for (header_size + round_up_16 sz))"
proof -
  have sz: "unat sz + 16 \<le> 2 ^ 64" "0 < unat sz" using assms by (simp_all add: req_ok_def)
  note r = round_up_16_props [OF sz(1)]
  show r1: "16 \<le> unat (round_up_16 sz)" "16 dvd unat (round_up_16 sz)"
    "unat sz \<le> unat (round_up_16 sz)" "unat (round_up_16 sz) < unat sz + 16"
    using r sz by auto
  have "(unat sz + 15) div 16 \<le> (2 ^ 63 - 49) div 16"
    using assms by (intro div_le_mono) (simp add: req_ok_def)
  then have "(unat sz + 15) div 16 * 16 \<le> 2 ^ 63 - 64" by simp
  then have top: "unat (round_up_16 sz) \<le> 2 ^ 63 - 64" using unat_round_up_16 [OF sz(1)] by simp
  then have u: "unat (32 + round_up_16 sz) = 32 + unat (round_up_16 sz)" by (simp add: unat_add_fits)
  show "unat (chunk_for (header_size + round_up_16 sz)) < 2 ^ 63"
    "unat (round_up_16 sz) + 32 \<le> unat (chunk_for (header_size + round_up_16 sz))"
    "16 dvd unat (chunk_for (header_size + round_up_16 sz))"
    "48 \<le> unat (chunk_for (header_size + round_up_16 sz))"
    using u top r1 by (auto simp: chunk_for_def word_less_nat_alt)
qed

text \<open>First fit; if nothing fits, a new block at the end when the kernel grants it.\<close>

definition spec_malloc :: "malloc_state \<Rightarrow> size_t \<Rightarrow> block list \<Rightarrow> addr \<times> block list" where
  "spec_malloc s sz bs =
    (let r = round_up_16 sz; n = chunk_for (header_size + r) in
     case dropWhile (\<lambda>b. \<not> suits r b) bs of
       b # ys \<Rightarrow> (b_addr b + 32,
         takeWhile (\<lambda>b. \<not> suits r b) bs @ trim (b\<lparr>b_free := False\<rparr>) r ys)
     | [] \<Rightarrow> if room s n
         then (grow_base s + 32, bs @ trim ((fresh_block s n)\<lparr>b_free := False\<rparr>) r [])
         else (NULL, bs))"

lemma malloc_finish:
  assumes placed: "placed s (xs @ b # ys)" and sep: "separated xs" "separated ys"
    and r: "16 \<le> unat r" "16 dvd unat r" "unat r \<le> unat (b_cap b)"
    and bs': "bs' = xs @ trim (b\<lparr>b_free := False\<rparr>) r ys"
  shows "\<exists>s'. splitblock (b_addr b) r (poke (put_free (b_addr b) False) s) \<bind>
      (\<lambda>(p, s). print_debug_msg MALLOC_ID NULL p 0 sz s \<bind>
        (\<lambda>s. Some (p, say ''MALLOC: malloc succeeded'' s))) = Some (b_addr b + 32, s') \<and>
    heap_inv s' bs' \<and> heap_step (slots (xs @ b # ys) \<union> slots bs') s s'"
proof -
  obtain s1 where s1: "splitblock (b_addr b) r (poke (put_free (b_addr b) False) s) = Some (b_addr b + 32, s1)"
    "heap_inv s1 bs'" "mem_step (slots (xs @ b # ys) \<union> slots bs') s s1"
    using take_block [OF assms] by blast
  have step: "heap_step (slots (xs @ b # ys) \<union> slots bs') s (talk ts s1)"
    if "quiet s1 \<longrightarrow> ts = []" for ts
    using heap_step_after_talk [OF heap_step_mem [OF s1(3)]] that mem_step_quiet [OF s1(3)] by blast
  have "placed s1 bs'" using s1(2) by (simp add: heap_inv_def)
  from print_debug_msg_talk [OF this] s1 show ?thesis
    by (simp del: slots_simps) (rule step, simp)
qed

lemma slots_append_fresh: "slots (bs @ [b]) \<subseteq> slots bs \<union> slots (bs @ trim (b\<lparr>b_free := False\<rparr>) r [])"
  by (auto simp: trim_def)

lemma malloc_ok:
  assumes inv: "heap_inv s bs" and req: "req_ok sz"
  shows "\<exists>s'. malloc sz s = Some (fst (spec_malloc s sz bs), s') \<and>
    heap_inv s' (snd (spec_malloc s sz bs)) \<and>
    heap_step (slots bs \<union> slots (snd (spec_malloc s sz bs))) s s' \<and>
    (fst (spec_malloc s sz bs) = NULL \<longrightarrow> errno s' = ENOMEM \<and> heap_mem s' = heap_mem s)"
proof -
  let ?r = "round_up_16 sz" and ?n = "chunk_for (header_size + round_up_16 sz)"
  note sizes = req_ok_sizes [OF req]
  have nz: "sz \<noteq> 0" using req by (auto simp: req_ok_def)
  have placed: "placed s bs" and sep: "separated bs" using inv by (simp_all add: heap_inv_def)
  then have k: "kernel_ok s" and head: "heap_head s = first_addr bs"
    and chain: "chain_to (heap_mem s) bs NULL" by (simp_all add: placed_def)
  obtain lo hi where l: "0 < lo" "layout lo bs hi" "hi < 2 ^ 63"
    using placed by (auto simp: placed_def tiled_def)
  show ?thesis
  proof (cases "dropWhile (\<lambda>b. \<not> suits ?r b) bs")
    case (Cons b ys)
    define xs where "xs = takeWhile (\<lambda>b. \<not> suits ?r b) bs"
    have bs: "bs = xs @ b # ys" using takeWhile_dropWhile_id [of "\<lambda>b. \<not> suits ?r b" bs] Cons by (simp add: xs_def)
    have fits: "suits ?r b" using Cons hd_dropWhile [of "\<lambda>b. \<not> suits ?r b" bs] by simp
    have "\<not> suits ?r x" if "x \<in> set xs" for x
      using that set_takeWhileD [of x "\<lambda>b. \<not> suits ?r b" bs] by (simp add: xs_def)
    with malloc_search_found [OF chain [unfolded bs] l(2) [unfolded bs] l(1)] fits
    obtain prev where search: "malloc_search ?r NULL (heap_head s) s
      = Some (prev, b_addr b, talk (custom_text (''MALLOC: found block big enough'' @ ''\<newline>'') s) s)"
      unfolding head bs by fastforce
    let ?s = "talk (custom_text (''MALLOC: found block big enough'' @ ''\<newline>'') s) s"
    have cap: "unat ?r \<le> unat (b_cap b)" using fits by (simp add: suits_def word_le_nat_alt)
    have p': "placed ?s (xs @ b # ys)" using placed bs by simp
    have "b_addr b \<noteq> NULL" using layout_addr_pos [OF l(2,1)] bs by simp
    moreover have sp: "separated xs" "separated ys"
      using sep separated_appendD [of xs "b # ys"] separated_appendD [of "[b]" ys]
      by (simp_all add: bs)
    obtain s' where s': "splitblock (b_addr b) ?r (poke (put_free (b_addr b) False) ?s) \<bind>
        (\<lambda>(p, s). print_debug_msg MALLOC_ID NULL p 0 sz s \<bind>
          (\<lambda>s. Some (p, say ''MALLOC: malloc succeeded'' s))) = Some (b_addr b + 32, s')"
      "heap_inv s' (xs @ trim (b\<lparr>b_free := False\<rparr>) ?r ys)"
      "heap_step (slots (xs @ b # ys) \<union> slots (xs @ trim (b\<lparr>b_free := False\<rparr>) ?r ys)) ?s s'"
      using malloc_finish [OF p' sp sizes(1,2) cap refl] by blast
    ultimately have run: "malloc sz s = Some (b_addr b + 32, s')"
      using search nz by (simp add: malloc_def Let_def)
    have spec: "spec_malloc s sz bs = (b_addr b + 32, xs @ trim (b\<lparr>b_free := False\<rparr>) ?r ys)"
      using Cons by (simp add: spec_malloc_def Let_def xs_def)
    have "heap_step (slots bs \<union> slots (xs @ trim (b\<lparr>b_free := False\<rparr>) ?r ys)) s s'"
      using heap_step_trans [OF heap_step_talk s'(3)] bs by auto
    moreover have "b_addr b + 32 \<noteq> NULL"
    proof -
      have "b_end b \<le> hi" using layout_bounds(2) [OF l(2)] bs by simp
      then have "unat (b_addr b + 32) = unat (b_addr b) + 32"
        using l(3) by (simp add: unat_add_fits b_end_def)
      then show ?thesis by auto
    qed
    ultimately show ?thesis using run spec s'(2) by simp
  next
    case Nil
    then have none: "\<And>x. x \<in> set bs \<Longrightarrow> \<not> suits ?r x" by (simp add: dropWhile_eq_Nil_conv)
    let ?prev = "if bs = [] then NULL else b_addr (last bs)"
    have search: "malloc_search ?r NULL (heap_head s) s = Some (?prev, NULL, s)"
      using malloc_search_none [OF chain l(2,1) none] by (simp add: head)
    show ?thesis
    proof (cases "room s ?n")
      case False
      obtain s' where s': "malloc_grow sz (header_size + ?r) ?prev s = Some (NULL, s')"
        "placed s' bs" "heap_step {} s s'" "errno s' = ENOMEM"
        using malloc_grow_refused [OF placed refl sizes(5) False] by blast
      have "malloc sz s = Some (NULL, s')" using search nz s'(1) by (simp add: malloc_def Let_def)
      moreover have "heap_mem s' = heap_mem s" using s'(3) by (auto simp: heap_step_def touches_def)
      moreover have "spec_malloc s sz bs = (NULL, bs)"
        using False by (simp add: spec_malloc_def Let_def Nil)
      ultimately show ?thesis
        using s' sep heap_step_mono [OF s'(3)] by (simp add: heap_inv_def)
    next
      case True
      let ?b = "fresh_block s ?n"
      let ?bs' = "bs @ trim (?b\<lparr>b_free := False\<rparr>) ?r []"
      obtain s1 where s1: "malloc_grow sz (header_size + ?r) ?prev s = Some (grow_base s, s1)"
        "placed s1 (bs @ [?b])" "heap_step (slots (bs @ [?b])) s s1"
        using malloc_grow_ok [OF placed refl sizes(5,8,7) True refl] by blast
      have "unat (?n - 32) = unat ?n - 32" using sizes(8) by (simp add: unat_diff_fits)
      then have cap: "unat ?r \<le> unat (b_cap ?b)" using sizes(6) by simp
      obtain s' where s': "splitblock (b_addr ?b) ?r (poke (put_free (b_addr ?b) False) s1) \<bind>
          (\<lambda>(p, s). print_debug_msg MALLOC_ID NULL p 0 sz s \<bind>
            (\<lambda>s. Some (p, say ''MALLOC: malloc succeeded'' s))) = Some (b_addr ?b + 32, s')"
        "heap_inv s' ?bs'" "heap_step (slots (bs @ [?b]) \<union> slots ?bs') s1 s'"
        using malloc_finish [OF s1(2) sep _ sizes(1,2) cap refl] by auto
      note base = grow_base_props [OF k]
      have "grow_base s \<noteq> NULL" using base(6) by auto
      then have run: "malloc sz s = Some (grow_base s + 32, s')"
        using search nz s1(1) s'(1) by (simp add: malloc_def Let_def)
      have spec: "spec_malloc s sz bs = (grow_base s + 32, ?bs')"
        using True by (simp add: spec_malloc_def Let_def Nil)
      have "heap_step (slots bs \<union> slots ?bs') s s'"
        using heap_step_trans [OF heap_step_mono [OF s1(3)] heap_step_mono [OF s'(3)]]
          slots_append_fresh [of bs ?b ?r] by blast
      moreover have "unat (grow_base s + 32) = unat (grow_base s) + 32"
        using base(7) by (simp add: unat_add_fits)
      then have "grow_base s + 32 \<noteq> NULL" by auto
      ultimately show ?thesis using run spec s'(2) by simp
    qed
  qed
qed

section \<open>free\<close>

lemma slots_coalesce: "slots (coalesce bs) \<subseteq> slots bs"
  by (induction bs rule: coalesce.induct) (auto simp del: range_of_iff)

lemma block_of_SomeD: "block_of p bs = Some b \<Longrightarrow> b \<in> set bs \<and> p \<in> payload b"
  by (auto simp: block_of_def find_Some_iff)

lemma layout_apart:
  assumes "layout lo bs hi" and "b \<in> set bs" and "c \<in> set bs" and "b \<noteq> c"
  shows "b_end b \<le> unat (b_addr c) \<or> b_end c \<le> unat (b_addr b)"
proof -
  obtain xs ys where bs: "bs = xs @ b # ys" using assms(2) by (meson split_list)
  with assms(3,4) have "c \<in> set xs \<or> c \<in> set ys" by auto
  with layout_ordered [of lo xs b ys hi c] layout_ordered(1) [of lo xs b ys hi c] assms(1) bs
  show ?thesis by blast
qed

lemma payload_disjoint:
  assumes "layout lo bs hi" and "b \<in> set bs" and "c \<in> set bs" and "b \<noteq> c"
  shows "payload b \<inter> payload c = {}"
  using layout_apart [OF assms] by (auto simp: payload_def b_end_def)

lemma payload_slots:
  assumes "layout lo bs hi" and "b \<in> set bs"
  shows "payload b \<inter> slots bs = {}"
proof -
  have "payload b \<inter> range_of (unat (b_addr c)) 24 = {}" if "c \<in> set bs" for c
    using layout_apart [OF assms that] by (cases "b = c") (auto simp: payload_def b_end_def)
  then show ?thesis by (auto simp: slots_def)
qed

lemma block_of_unique:
  assumes "layout lo bs hi" and "b \<in> set bs" and "p \<in> payload b"
  shows "block_of p bs = Some b"
proof -
  obtain c where c: "block_of p bs = Some c"
    using assms(2,3) by (cases "block_of p bs") (auto simp: block_of_def find_None_iff)
  with payload_disjoint [OF assms(1,2), of c] assms(3) block_of_SomeD [OF c] show ?thesis by blast
qed

text \<open>
  Nothing happens to a pointer outside every payload or into a free block; otherwise the block
  is marked free and merged with its neighbours.
\<close>

definition spec_free :: "addr \<Rightarrow> block list \<Rightarrow> block list" where
  "spec_free p bs = (case block_of p bs of
      None \<Rightarrow> bs
    | Some b \<Rightarrow> if b_free b then bs
        else coalesce (takeWhile (\<lambda>c. c \<noteq> b) bs @ b\<lparr>b_free := True\<rparr> # tl (dropWhile (\<lambda>c. c \<noteq> b) bs)))"

lemma split_at:
  assumes "b \<in> set bs"
  shows "bs = takeWhile (\<lambda>c. c \<noteq> b) bs @ b # tl (dropWhile (\<lambda>c. c \<noteq> b) bs)"
proof -
  have "dropWhile (\<lambda>c. c \<noteq> b) bs \<noteq> []" using assms by (auto simp: dropWhile_eq_Nil_conv)
  moreover from this have "hd (dropWhile (\<lambda>c. c \<noteq> b) bs) = b" using hd_dropWhile by blast
  ultimately have "dropWhile (\<lambda>c. c \<noteq> b) bs = b # tl (dropWhile (\<lambda>c. c \<noteq> b) bs)"
    by (metis list.collapse)
  then show ?thesis by (metis takeWhile_dropWhile_id)
qed

lemma mem_step_after_talk: "mem_step S s s' \<Longrightarrow> (quiet s \<Longrightarrow> ts = []) \<Longrightarrow> mem_step S s (talk ts s')"
  using mem_step_trans [OF _ mem_step_talk] mem_step_quiet by blast

lemma free_ok_writes:
  assumes inv: "heap_inv s bs"
  shows "\<exists>s'. free p s = Some s' \<and> heap_inv s' (spec_free p bs) \<and>
    mem_step (if \<exists>b \<in> set bs. \<not> b_free b \<and> p \<in> payload b then slots bs else {}) s s'"
proof -
  have placed: "placed s bs" and sep: "separated bs" using inv by (simp_all add: heap_inv_def)
  obtain ts where fb: "findblock p s = Some (addr_of (block_of p bs), talk ts s)" "quiet s \<longrightarrow> ts = []"
    using findblock_ok [OF placed] by blast
  obtain lo hi where l: "0 < lo" "layout lo bs hi"
    using placed by (auto simp: placed_def tiled_def)
  have null: "block_of NULL bs = None"
    by (auto simp: block_of_def find_None_iff payload_def)
  have ignored: ?thesis
    if "\<exists>s'. free p s = Some s' \<and> heap_inv s' (spec_free p bs) \<and> mem_step {} s s'"
    using that mem_step_mono [of "{}"] by blast
  have report: "\<exists>s'. print_debug_msg FREE_ID p NULL 0 0 t = Some s' \<and>
      heap_inv s' bs' \<and> mem_step S s s'"
    if "heap_inv t bs'" "mem_step S s t" for t bs' S
  proof -
    have "placed t bs'" using that(1) by (simp add: heap_inv_def)
    from print_debug_msg_talk [OF this] have "print_debug_msg FREE_ID p NULL 0 0 t
      = Some (talk (report_text FREE_ID p NULL 0 0 t) t)" .
    moreover have "mem_step S s (talk (report_text FREE_ID p NULL 0 0 t) t)"
      using that(2) mem_step_quiet [OF that(2)] by (intro mem_step_after_talk) auto
    ultimately show ?thesis using that(1) by auto
  qed
  consider (null) "p = NULL" | (unknown) "p \<noteq> NULL" "block_of p bs = None"
    | (again) b where "p \<noteq> NULL" "block_of p bs = Some b" "b_free b"
    | (used) b where "p \<noteq> NULL" "block_of p bs = Some b" "\<not> b_free b"
    by (cases "block_of p bs") auto
  then show ?thesis
  proof cases
    case null
    have "mem_step {} s (say ''FREE: ptr is NULL'' s)" by simp
    from report [OF _ this, of bs] null \<open>block_of NULL bs = None\<close> inv show ?thesis
      by (intro ignored) (simp add: free_def spec_free_def)
  next
    case unknown
    have "mem_step {} s (say ''FREE: block not found'' (talk ts s))"
      using fb(2) by (auto intro!: mem_step_talk)
    from report [OF _ this, of bs] unknown fb inv show ?thesis
      by (intro ignored) (simp add: free_def spec_free_def)
  next
    case again
    have b: "b \<in> set bs" using block_of_SomeD [OF again(2)] by simp
    then have "b_addr b \<noteq> NULL" "get_free (heap_mem s) (b_addr b)"
      using layout_addr_pos [OF l(2,1)] placed again(3) split_list [OF b]
      by (auto simp: placed_def chain_to_append)
    moreover have "mem_step {} s (say ''FREE: double free'' (talk ts s))"
      using fb(2) by (auto intro!: mem_step_talk)
    from report [OF _ this, of bs] inv have
      "\<exists>s'. print_debug_msg FREE_ID p NULL 0 0 (say ''FREE: double free'' (talk ts s)) = Some s' \<and>
        heap_inv s' bs \<and> mem_step {} s s'" by simp
    ultimately show ?thesis using again fb(1)
      by (intro ignored) (simp add: free_def spec_free_def)
  next
    case used
    have b: "b \<in> set bs" using block_of_SomeD [OF used(2)] by simp
    define xs ys where "xs = takeWhile (\<lambda>c. c \<noteq> b) bs" and "ys = tl (dropWhile (\<lambda>c. c \<noteq> b) bs)"
    have bs: "bs = xs @ b # ys" using split_at [OF b] by (simp add: xs_def ys_def)
    have hdr: "b_addr b \<noteq> NULL" "\<not> get_free (heap_mem s) (b_addr b)"
      using layout_addr_pos [OF l(2,1) b] placed used(3) bs by (auto simp: placed_def chain_to_append)
    let ?t = "poke (put_free (b_addr b) True) (talk ts s)"
    have pt: "placed (talk ts s) (xs @ b # ys)" using placed bs by simp
    have m1: "mem_step (slots bs) s ?t"
      using mem_step_trans [OF mem_step_talk] placed_mark(2) [OF pt, of True] fb(2) bs by blast
    obtain s1 where s1: "merge_free_nodes ?t = Some s1"
      "mem_step (slots (coalesce (xs @ b\<lparr>b_free := True\<rparr> # ys))) ?t s1"
      "heap_inv s1 (coalesce (xs @ b\<lparr>b_free := True\<rparr> # ys))"
      using merge_free_nodes_ok [OF placed_mark(1) [OF pt, of True]] by blast
    have "slots (coalesce (xs @ b\<lparr>b_free := True\<rparr> # ys)) \<subseteq> slots bs"
      using slots_coalesce [of "xs @ b\<lparr>b_free := True\<rparr> # ys"] bs by simp
    then have m2: "mem_step (slots bs) s s1" using m1 s1(2) mem_step_mono mem_step_trans by blast
    then have "mem_step (slots bs) s (say ''FREE: free succeeded'' s1)"
      using mem_step_trans by fastforce
    from report [OF _ this] s1(3) have
      "\<exists>s'. print_debug_msg FREE_ID p NULL 0 0 (say ''FREE: free succeeded'' s1) = Some s' \<and>
        heap_inv s' (spec_free p bs) \<and> mem_step (slots bs) s s'"
      using used by (simp add: spec_free_def xs_def ys_def)
    moreover have "\<exists>b \<in> set bs. \<not> b_free b \<and> p \<in> payload b"
      using used(3) block_of_SomeD [OF used(2)] by blast
    ultimately show ?thesis using used fb(1) hdr s1(1) by (simp add: free_def)
  qed
qed

lemma free_ok:
  assumes "heap_inv s bs"
  shows "\<exists>s'. free p s = Some s' \<and> heap_inv s' (spec_free p bs) \<and> mem_step (slots bs) s s'"
  using free_ok_writes [OF assms, of p] mem_step_mono [of "{}" s _ "slots bs"]
  by (auto split: if_splits)

end
