(* ===== verification/Malloc_Client.thy ===== *)
theory Malloc_Client
  imports Malloc_Ops
begin

text \<open>
  The allocator as its clients see it: which blocks are allocated (\<open>live\<close>), that every
  operation leaves the bytes of the other allocated blocks alone, that a client may write any
  byte of its payloads, and the operations \<open>calloc\<close> and \<open>realloc\<close> built from the others.
\<close>

section \<open>Allocated blocks\<close>

definition live :: "block list \<Rightarrow> block set" where
  "live bs = {b \<in> set bs. \<not> b_free b}"

definition user_bytes :: "block list \<Rightarrow> addr set" where
  "user_bytes bs = (\<Union>b \<in> live bs. payload b)"

lemma live_simps [simp]:
  "live [] = {}"
  "live (b # bs) = (if b_free b then live bs else insert b (live bs))"
  "live (xs @ ys) = live xs \<union> live ys"
  by (auto simp: live_def)

lemma live_set: "b \<in> live bs \<Longrightarrow> b \<in> set bs"
  by (simp add: live_def)

lemma live_coalesce [simp]: "live (coalesce bs) = live bs"
  by (induction bs rule: coalesce.induct) auto

lemma live_trim:
  assumes "\<not> b_free b"
  shows "live (trim b r ys) = insert (hd (trim b r ys)) (live ys)"
  using assms by (simp add: trim_def del: coalesce.simps)

text \<open>The block a request ends up with, and its size.\<close>

abbreviation taken :: "block \<Rightarrow> size_t \<Rightarrow> block list \<Rightarrow> block" where
  "taken b r ys \<equiv> hd (trim b r ys)"

lemma taken_props:
  assumes "unat r \<le> unat (b_cap b)"
  shows "b_addr (taken b r ys) = b_addr b" and "unat r \<le> unat (b_cap (taken b r ys))"
    and "unat (b_cap (taken b r ys)) < unat r + 48" and "b_free (taken b r ys) = b_free b"
    and "unat (b_cap (taken b r ys)) \<le> unat (b_cap b)"
  using assms by (auto simp: trim_def)

lemma taken_apart:
  assumes lay: "layout lo (xs @ trim b r ys) hi" and c: "c \<in> live xs \<union> live ys"
  shows "b_end c \<le> unat (b_addr b) \<or> b_end (taken b r ys) \<le> unat (b_addr c)"
proof -
  obtain t where t: "trim b r ys = taken b r ys # t" by (cases "trim b r ys") auto
  have addr: "b_addr (taken b r ys) = b_addr b" by (simp add: trim_def)
  have "live t = live ys \<or> (t = ys)"
    using t by (auto simp: trim_def simp del: coalesce.simps split: if_splits)
  then have "c \<in> set xs \<or> c \<in> set t" using c live_set by auto
  then show ?thesis
    using layout_ordered [of lo xs "taken b r ys" t hi c] lay addr by (auto simp flip: t)
qed

lemma taken_payload_disjoint:
  assumes "layout lo (xs @ trim b r ys) hi" and "c \<in> live xs \<union> live ys"
  shows "payload (taken b r ys) \<inter> payload c = {}" and "c \<noteq> taken b r ys"
proof -
  have addr: "b_addr (taken b r ys) = b_addr b" by (simp add: trim_def)
  with taken_apart [OF assms] show "payload (taken b r ys) \<inter> payload c = {}"
    by (auto simp: payload_def b_end_def)
  show "c \<noteq> taken b r ys" using taken_apart [OF assms] addr by (auto simp: b_end_def)
qed

lemma heap_inv_layout:
  assumes "heap_inv s bs"
  obtains lo hi where "0 < lo" "16 dvd lo" "layout lo bs hi" "hi < 2 ^ 63"
  using assms by (auto simp: heap_inv_def placed_def tiled_def)

text \<open>Bytes that belong to an allocated block before and after an operation keep their value.\<close>

lemma bytes_kept:
  assumes "heap_step (slots bs \<union> slots bs') s s'" and "heap_inv s bs" and "heap_inv s' bs'"
    and "b \<in> set bs" "x \<in> payload b" and "b' \<in> set bs'" "x \<in> payload b'"
  shows "heap_mem s' x = heap_mem s x"
proof -
  obtain lo hi where "layout lo bs hi" using assms(2) by (rule heap_inv_layout)
  moreover obtain lo' hi' where "layout lo' bs' hi'" using assms(3) by (rule heap_inv_layout)
  ultimately have "x \<notin> slots bs \<union> slots bs'"
    using payload_slots [of lo bs hi b] payload_slots [of lo' bs' hi' b'] assms by blast
  with assms(1) show ?thesis by (auto simp: heap_step_def touches_def)
qed

text \<open>A client that writes only inside payloads cannot damage the heap.\<close>

lemma client_write_inv:
  assumes inv: "heap_inv s bs" and t: "touches (\<Union>b \<in> set bs. payload b) (heap_mem s) m'"
  shows "heap_inv (s\<lparr>heap_mem := m'\<rparr>) bs"
proof -
  obtain lo hi where l: "layout lo bs hi" "hi < 2 ^ 63" using inv by (rule heap_inv_layout)
  have "m' x = heap_mem s x" if "x \<in> slots bs" for x
    using that t payload_slots [OF l(1)] by (auto simp: touches_def)
  then have "chain_to m' bs NULL"
    using inv chain_to_unchanged [of bs m' "heap_mem s" NULL] layout_header_fits [OF l(1)] l(2)
    by (simp add: heap_inv_def placed_def)
  with inv show ?thesis by (simp add: heap_inv_def placed_def kernel_ok_def tiled_def)
qed

section \<open>malloc for its client\<close>

text \<open>The result of a successful request, as a fact on lists of blocks.\<close>

definition grants :: "size_t \<Rightarrow> block set \<Rightarrow> block \<Rightarrow> bool" where
  "grants sz L b \<longleftrightarrow> unat sz \<le> unat (b_cap b) \<and> unat (b_cap b) < unat sz + 64 \<and>
     16 dvd unat (b_addr b + 32) \<and> b \<notin> L \<and> (\<forall>c \<in> L. payload b \<inter> payload c = {})"

lemma layout_addr_dvd:
  assumes "layout lo bs hi" and "16 dvd lo" and "b \<in> set bs"
  shows "16 dvd unat (b_addr b)"
proof -
  obtain xs ys where bs: "bs = xs @ b # ys" using assms(3) by (meson split_list)
  then show ?thesis using assms layout_dvd by (auto simp: layout_append)
qed

lemma grants_taken:
  assumes lay: "layout lo (xs @ trim b (round_up_16 sz) ys) hi" "16 dvd lo" "hi < 2 ^ 63"
    and req: "req_ok sz" and cap: "unat (round_up_16 sz) \<le> unat (b_cap b)"
  shows "grants sz (live xs \<union> live ys) (taken b (round_up_16 sz) ys)"
proof -
  let ?b = "taken b (round_up_16 sz) ys"
  have mem: "?b \<in> set (xs @ trim b (round_up_16 sz) ys)" by simp
  have "unat (b_addr ?b + 32) = unat (b_addr ?b) + 32"
    using layout_bounds(2) [OF lay(1) mem] lay(3) by (simp add: unat_add_fits b_end_def)
  moreover have "16 dvd unat (b_addr ?b)" using layout_addr_dvd [OF lay(1,2) mem] .
  ultimately have "16 dvd unat (b_addr ?b + 32)" by simp
  with taken_props [OF cap, of ys] req_ok_sizes [OF req] taken_payload_disjoint [OF lay(1)]
  show ?thesis by (auto simp: grants_def)
qed

lemma spec_malloc_live:
  assumes inv: "heap_inv s' (snd (spec_malloc s sz bs))" and req: "req_ok sz"
    and ok: "fst (spec_malloc s sz bs) \<noteq> NULL"
  shows "\<exists>b. live (snd (spec_malloc s sz bs)) = insert b (live bs) \<and>
    fst (spec_malloc s sz bs) = b_addr b + 32 \<and> grants sz (live bs) b"
proof -
  let ?r = "round_up_16 sz"
  obtain lo hi where l: "0 < lo" "16 dvd lo" "layout lo (snd (spec_malloc s sz bs)) hi" "hi < 2 ^ 63"
    using inv by (rule heap_inv_layout)
  note sizes = req_ok_sizes [OF req]
  show ?thesis
  proof (cases "dropWhile (\<lambda>b. \<not> suits ?r b) bs")
    case (Cons b ys)
    define xs where "xs = takeWhile (\<lambda>b. \<not> suits ?r b) bs"
    have bs: "bs = xs @ b # ys"
      using takeWhile_dropWhile_id [of "\<lambda>b. \<not> suits ?r b" bs] Cons by (simp add: xs_def)
    have fits: "b_free b" "unat ?r \<le> unat (b_cap (b\<lparr>b_free := False\<rparr>))"
      using Cons hd_dropWhile [of "\<lambda>b. \<not> suits ?r b" bs] by (simp_all add: suits_def word_le_nat_alt)
    have spec: "spec_malloc s sz bs = (b_addr b + 32, xs @ trim (b\<lparr>b_free := False\<rparr>) ?r ys)"
      using Cons by (simp add: spec_malloc_def Let_def xs_def)
    have "live bs = live xs \<union> live ys" using bs fits by simp
    with grants_taken [OF _ l(2,4) req fits(2)] l(3) spec taken_props(1) [OF fits(2)] fits(1)
    show ?thesis by (auto simp: live_trim)
  next
    case Nil
    let ?n = "chunk_for (header_size + ?r)"
    let ?b = "(fresh_block s ?n)\<lparr>b_free := False\<rparr>"
    have room: "room s ?n" using ok Nil by (auto simp: spec_malloc_def Let_def split: if_splits)
    then have spec: "spec_malloc s sz bs = (grow_base s + 32, bs @ trim ?b ?r [])"
      by (simp add: spec_malloc_def Let_def Nil)
    have "unat (?n - 32) = unat ?n - 32" using sizes(8) by (simp add: unat_diff_fits)
    then have cap: "unat ?r \<le> unat (b_cap ?b)" using sizes(6) by simp
    from grants_taken [OF _ l(2,4) req cap, of bs "[]"] l(3) spec taken_props(1) [OF cap]
    show ?thesis by (auto simp: live_trim)
  qed
qed

end
