(* ===== verification/Malloc_Props.thy ===== *)
theory Malloc_Props
  imports Malloc_Client
begin

text \<open>
  What malloc and free of Asgn1/malloc.c promise to a client, on a concrete heap as well: the
  fresh heap of a process and a heap with one used and one free block.
\<close>

section \<open>Two concrete heaps\<close>

definition heap0 :: malloc_state where
  "heap0 = \<lparr>heap_mem = (\<lambda>_. 0), heap_head = NULL, suppress_debug = False, brk_start = 4096,
     brk_cur = 4096, brk_max = 16777216, errno = 0, debug_malloc = True, stderr_out = []\<rparr>"

abbreviation used0 :: block where
  "used0 \<equiv> \<lparr>b_addr = 4096, b_cap = 112, b_free = False\<rparr>"

abbreviation free0 :: block where
  "free0 \<equiv> \<lparr>b_addr = 4240, b_cap = 65360, b_free = True\<rparr>"

definition heap2 :: malloc_state where
  "heap2 = heap0\<lparr>heap_head := 4096, brk_cur := 69632,
     heap_mem := put_next 4096 4240 (put_free 4096 False (put_cap 4096 112
       (put_next 4240 NULL (put_free 4240 True (put_cap 4240 65360 (\<lambda>_. 0))))))\<rparr>"

lemma heap0_inv: "heap_inv heap0 []"
  by (simp add: heap_inv_def placed_def kernel_ok_def heap0_def)

lemma heap2_chain: "chain_to (heap_mem heap2) [used0, free0] NULL"
  by (simp add: heap2_def header_simps header_fits_def apart_def)

lemma heap2_inv: "heap_inv heap2 [used0, free0]"
proof -
  have "layout 4096 [used0, free0] 69632" by (simp add: b_end_def)
  then have "tiled heap2 [used0, free0]"
    unfolding tiled_def
    by (intro exI [of _ 4096] exI [of _ 69632]) (simp add: heap2_def heap0_def)
  with heap2_chain show ?thesis
    by (simp add: heap_inv_def placed_def kernel_ok_def) (simp add: heap2_def heap0_def)
qed

lemma heap2_quiet: "payload used0 = range_of 4128 112"
  by (simp add: payload_def)

section \<open>Consequences of the refinement lemmas\<close>

lemma user_bytes_kept:
  assumes "heap_step (slots bs \<union> slots bs') s s'" and "heap_inv s bs" and "heap_inv s' bs'"
    and "x \<in> user_bytes bs" and "x \<in> user_bytes bs'"
  shows "heap_mem s' x = heap_mem s x"
  using assms bytes_kept by (fastforce simp: user_bytes_def dest: live_set)

lemma spec_free_live:
  assumes "layout lo bs hi" and "b \<in> live bs" and "p \<in> payload b"
  shows "live (spec_free p bs) = live bs - {b}"
proof -
  have b: "b \<in> set bs" "\<not> b_free b" using assms(2) by (simp_all add: live_def)
  define xs ys where "xs = takeWhile (\<lambda>c. c \<noteq> b) bs" and "ys = tl (dropWhile (\<lambda>c. c \<noteq> b) bs)"
  have bs: "bs = xs @ b # ys" using split_at [OF b(1)] by (simp add: xs_def ys_def)
  have "b_end b \<le> unat (b_addr b)" if "b \<in> set xs \<union> set ys"
    using layout_ordered [of lo xs b ys hi b] assms(1) that bs by auto
  then have "b \<notin> set xs \<union> set ys" by (auto simp: b_end_def)
  then have "live bs - {b} = live xs \<union> live ys" using bs b by (auto simp: live_def)
  moreover have "spec_free p bs = coalesce (xs @ b\<lparr>b_free := True\<rparr> # ys)"
    using block_of_unique [OF assms(1) b(1) assms(3)] b(2) by (simp add: spec_free_def xs_def ys_def)
  ultimately show ?thesis by simp
qed

lemma mem_step_heap_step: "mem_step S s s' \<Longrightarrow> S \<subseteq> T \<Longrightarrow> heap_step T s s'"
  using heap_step_mem mem_step_mono by blast

lemma spec_free_ignored:
  assumes "\<And>b. b \<in> live bs \<Longrightarrow> p \<notin> payload b"
  shows "spec_free p bs = bs"
  using assms block_of_SomeD [of p bs] by (auto simp: spec_free_def live_def split: option.splits)

text \<open>A free block that suits a request: malloc does not move the break.\<close>

lemma spec_malloc_suits:
  assumes "c \<in> set bs" and "suits (round_up_16 sz) c" and "heap_inv s bs" and "req_ok sz"
  shows "fst (spec_malloc s sz bs) \<noteq> NULL"
proof -
  have "dropWhile (\<lambda>b. \<not> suits (round_up_16 sz) b) bs \<noteq> []"
    using assms(1,2) by (auto simp: dropWhile_eq_Nil_conv)
  then obtain b ys where b: "dropWhile (\<lambda>b. \<not> suits (round_up_16 sz) b) bs = b # ys"
    by (meson neq_Nil_conv)
  then have "b \<in> set bs" by (metis list.set_intros(1) set_dropWhileD)
  moreover obtain lo hi where "layout lo bs hi" "hi < 2 ^ 63"
    using assms(3) by (rule heap_inv_layout)
  ultimately have "b_end b < 2 ^ 63" using layout_bounds(2) by fastforce
  then have "unat (b_addr b + 32) = unat (b_addr b) + 32"
    by (simp add: unat_add_fits b_end_def)
  then have "b_addr b + 32 \<noteq> 0" by (metis add_is_0 unat_0 zero_neq_numeral)
  with b show ?thesis by (simp add: spec_malloc_def Let_def)
qed

lemma coalesce_keeps_room:
  assumes "layout lo bs hi" and "hi \<le> 2 ^ 64" and "0 < lo" and "b \<in> set bs" and "b_free b"
  shows "\<exists>c \<in> set (coalesce bs). b_free c \<and> b_cap b \<le> b_cap c"
  using assms
proof (induction bs arbitrary: b lo rule: coalesce.induct)
  case (3 x c bs)
  show ?case
  proof (cases "b_free x \<and> b_free c")
    case False
    then have co: "set (coalesce (x # c # bs)) = insert x (set (coalesce (c # bs)))"
      by (simp only: coalesce.simps if_False list.set)
    show ?thesis
    proof (cases "b = x")
      case True
      then show ?thesis using 3(7) unfolding co by blast
    next
      case ne: False
      have "layout (b_end x) (c # bs) hi" using 3(3) by simp
      moreover have "0 < b_end x" by (simp add: b_end_def)
      ultimately have "layout (b_end x) (c # bs) hi" "0 < b_end x" .
      from 3(2) [OF False this(1) 3(4) this(2)] ne 3(6,7) show ?thesis
        unfolding co by (metis insertI2 set_ConsD)
    qed
  next
    case True
    have lay: "layout lo (absorb x c # bs) hi" using layout_absorb [OF 3(3-5)] .
    have u: "unat (b_cap x + (32 + b_cap c)) = unat (b_cap x) + 32 + unat (b_cap c)"
      using unat_absorb [OF 3(3-5)] .
    have "b_cap x \<le> b_cap x + (32 + b_cap c)" "b_cap c \<le> b_cap x + (32 + b_cap c)"
      unfolding word_le_nat_alt u by linarith+
    then have "b_cap x \<le> b_cap (absorb x c)" "b_cap c \<le> b_cap (absorb x c)" by simp_all
    moreover have "b_free (absorb x c)" using True by simp
    ultimately have "\<exists>d \<in> set (absorb x c # bs). b_free d \<and> b_cap b \<le> b_cap d"
      using 3(6,7) by (metis list.set_intros order_refl set_ConsD)
    then obtain d where d: "d \<in> set (absorb x c # bs)" "b_free d" "b_cap b \<le> b_cap d" by blast
    from 3(1) [OF True lay 3(4,5) d(1,2)] d(3) True show ?thesis
      by (metis coalesce.simps(3) order_trans)
  qed
qed auto

lemma spec_malloc_NULL:
  assumes "heap_inv s bs" and "req_ok sz" and "fst (spec_malloc s sz bs) = NULL"
  shows "snd (spec_malloc s sz bs) = bs"
proof -
  have "\<not> suits (round_up_16 sz) c" if "c \<in> set bs" for c
    using spec_malloc_suits [OF that _ assms(1,2)] assms(3) by blast
  then have none: "dropWhile (\<lambda>b. \<not> suits (round_up_16 sz) b) bs = []"
    by (simp only: dropWhile_eq_Nil_conv) blast
  have "kernel_ok s" using assms(1) by (simp add: heap_inv_def placed_def)
  then have "unat (grow_base s + 32) = unat (grow_base s) + 32"
    using grow_base_props(7) [of s] by (simp add: unat_add_fits)
  then have "grow_base s + 32 \<noteq> 0" by (metis add_is_0 unat_0 zero_neq_numeral)
  with assms(3) show ?thesis
    unfolding spec_malloc_def Let_def none by (simp split: if_splits)
qed

lemma free_ignored_step:
  assumes "heap_inv s bs" and "\<And>b. b \<in> live bs \<Longrightarrow> p \<notin> payload b"
  shows "\<exists>s'. free p s = Some s' \<and> heap_inv s' bs \<and> mem_step {} s s'"
  using free_ok_writes [OF assms(1), of p] assms(2) spec_free_ignored [of bs p]
  by (auto simp: live_def split: if_splits)

lemma spec_free_room:
  assumes "heap_inv s bs" and "b \<in> live bs" and "p \<in> payload b"
  shows "\<exists>c \<in> set (spec_free p bs). b_free c \<and> b_cap b \<le> b_cap c"
proof -
  obtain lo hi where l: "0 < lo" "layout lo bs hi" "hi < 2 ^ 63"
    using assms(1) by (rule heap_inv_layout)
  have b: "b \<in> set bs" "\<not> b_free b" using assms(2) by (simp_all add: live_def)
  define xs ys where "xs = takeWhile (\<lambda>c. c \<noteq> b) bs" and "ys = tl (dropWhile (\<lambda>c. c \<noteq> b) bs)"
  have bs: "bs = xs @ b # ys" using split_at [OF b(1)] by (simp add: xs_def ys_def)
  have "spec_free p bs = coalesce (xs @ b\<lparr>b_free := True\<rparr> # ys)"
    using block_of_unique [OF l(2) b(1) assms(3)] b(2) by (simp add: spec_free_def xs_def ys_def)
  moreover have "layout lo (xs @ b\<lparr>b_free := True\<rparr> # ys) hi"
    using l(2) bs by (simp add: layout_append b_end_def)
  ultimately show ?thesis
    using coalesce_keeps_room [OF _ _ l(1), of _ hi "b\<lparr>b_free := True\<rparr>"] l(3) by simp
qed

lemma malloc_effect:
  assumes "heap_inv s bs" and "req_ok sz"
  shows "\<exists>p s' bs'. malloc sz s = Some (p, s') \<and> heap_inv s' bs' \<and>
    (p = NULL \<longrightarrow> bs' = bs \<and> errno s' = ENOMEM \<and> heap_mem s' = heap_mem s) \<and>
    (p \<noteq> NULL \<longrightarrow> (\<exists>b. live bs' = insert b (live bs) \<and> p = b_addr b + 32 \<and> grants sz (live bs) b)) \<and>
    (\<forall>x \<in> user_bytes bs. heap_mem s' x = heap_mem s x)"
proof -
  obtain s' where s': "malloc sz s = Some (fst (spec_malloc s sz bs), s')"
    "heap_inv s' (snd (spec_malloc s sz bs))"
    "heap_step (slots bs \<union> slots (snd (spec_malloc s sz bs))) s s'"
    "fst (spec_malloc s sz bs) = NULL \<longrightarrow> errno s' = ENOMEM \<and> heap_mem s' = heap_mem s"
    using malloc_ok [OF assms] by blast
  have null: "snd (spec_malloc s sz bs) = bs" if "fst (spec_malloc s sz bs) = NULL"
    using spec_malloc_NULL [OF assms that] .
  note ok = spec_malloc_live [OF s'(2) assms(2)]
  have "user_bytes bs \<subseteq> user_bytes (snd (spec_malloc s sz bs))"
    using null ok by (cases "fst (spec_malloc s sz bs) = NULL") (auto simp: user_bytes_def)
  then have "\<forall>x \<in> user_bytes bs. heap_mem s' x = heap_mem s x"
    using user_bytes_kept [OF s'(3) assms(1) s'(2)] by blast
  with s' null ok show ?thesis by blast
qed

lemma free_effect:
  assumes "heap_inv s bs" and "b \<in> live bs" and "p \<in> payload b"
  shows "\<exists>s' bs'. free p s = Some s' \<and> heap_inv s' bs' \<and> live bs' = live bs - {b} \<and>
    brk_cur s' = brk_cur s \<and> (\<forall>x \<in> user_bytes bs. heap_mem s' x = heap_mem s x)"
proof -
  obtain s' where s': "free p s = Some s'" "heap_inv s' (spec_free p bs)" "mem_step (slots bs) s s'"
    using free_ok [OF assms(1)] by blast
  obtain lo hi where l: "layout lo bs hi" using assms(1) by (rule heap_inv_layout)
  have "x \<notin> slots bs" if "x \<in> user_bytes bs" for x
    using that payload_slots [OF l] by (fastforce simp: user_bytes_def dest: live_set)
  then have "\<forall>x \<in> user_bytes bs. heap_mem s' x = heap_mem s x"
    using s'(3) by (auto simp: mem_step_def touches_def)
  with s' spec_free_live [OF l assms(2,3)] show ?thesis by (auto simp: mem_step_def)
qed

section \<open>malloc\<close>

text \<open>C1: a request of 1 to \<open>2 ^ 63 - 64\<close> bytes on any well-formed heap returns. Either it returns
  NULL, sets \<open>ENOMEM\<close> and changes neither the blocks nor memory; or it returns the 16-aligned
  payload of exactly one newly allocated block, which is at least as long as the request, wastes
  less than 64 bytes and overlaps no block already allocated. The heap stays well formed (tiled,
  aligned, no two free neighbours) and no byte of an allocated block changes.\<close>

theorem malloc_allocates:
  assumes "heap_inv s bs" and "req_ok sz"
  shows "\<exists>p s' bs'. malloc sz s = Some (p, s') \<and> heap_inv s' bs' \<and>
    (p = NULL \<longrightarrow> bs' = bs \<and> errno s' = ENOMEM \<and> heap_mem s' = heap_mem s) \<and>
    (p \<noteq> NULL \<longrightarrow> (\<exists>b. live bs' = insert b (live bs) \<and> p = b_addr b + 32 \<and> grants sz (live bs) b)) \<and>
    (\<forall>x \<in> user_bytes bs. heap_mem s' x = heap_mem s x)"
  using malloc_effect [OF assms] .

theorem malloc_allocates_witness:
  "\<exists>p s' bs'. malloc 100 heap2 = Some (p, s') \<and> heap_inv s' bs' \<and>
    (p \<noteq> NULL \<longrightarrow> (\<exists>b. live bs' = {b, used0} \<and> p = b_addr b + 32 \<and> grants 100 {used0} b))"
  using malloc_allocates [OF heap2_inv, of 100] by (fastforce simp: req_ok_def)

text \<open>C8: malloc refines first fit over the list of blocks: on every well-formed heap it returns
  the pointer, and leaves the list of blocks, that \<open>spec_malloc\<close> gives (the first free block that
  is large enough, split when at least 48 bytes are left over; a chunk of at least 64 KiB from
  \<open>sbrk\<close> when there is none; NULL when the break cannot move); it writes block headers only.\<close>

theorem malloc_first_fit:
  assumes "heap_inv s bs" and "req_ok sz"
  shows "\<exists>s'. malloc sz s = Some (fst (spec_malloc s sz bs), s') \<and>
    heap_inv s' (snd (spec_malloc s sz bs)) \<and>
    touches (slots bs \<union> slots (snd (spec_malloc s sz bs))) (heap_mem s) (heap_mem s')"
  using malloc_ok [OF assms] by (auto simp: heap_step_def)

theorem malloc_first_fit_witness:
  "\<exists>s'. malloc 100 heap2 = Some (4272, s') \<and>
    heap_inv s' [used0, \<lparr>b_addr = 4240, b_cap = 112, b_free = False\<rparr>,
      \<lparr>b_addr = 4384, b_cap = 65216, b_free = True\<rparr>]"
proof -
  have "spec_malloc heap2 100 [used0, free0] = (4272, [used0,
      \<lparr>b_addr = 4240, b_cap = 112, b_free = False\<rparr>, \<lparr>b_addr = 4384, b_cap = 65216, b_free = True\<rparr>])"
    by (simp add: spec_malloc_def suits_def trim_def round_up_16_def)
  with malloc_first_fit [OF heap2_inv, of 100] show ?thesis by (auto simp: req_ok_def)
qed

lemma malloc_zero_effect:
  assumes "heap_inv s bs"
  shows "\<exists>s'. malloc 0 s = Some (NULL, s') \<and> heap_inv s' bs \<and> mem_step {} s s'"
proof -
  have "placed s bs" using assms by (simp add: heap_inv_def)
  note talk = print_debug_msg_talk [OF this, of MALLOC_ID NULL NULL 0 0]
  have "mem_step {} s (talk (ts @ custom_text msg (talk ts s)) s)" if "quiet s \<longrightarrow> ts = []" for ts msg
    using that by (intro mem_step_talk) auto
  from this [of "report_text MALLOC_ID NULL NULL 0 0 s" "''MALLOC: size is 0, returning\<newline>''"] talk assms
  show ?thesis by (simp add: malloc_def)
qed

text \<open>A request of zero bytes returns NULL and changes nothing but the debug output.\<close>

theorem malloc_zero:
  assumes "heap_inv s bs"
  shows "\<exists>s'. malloc 0 s = Some (NULL, s') \<and> heap_inv s' bs \<and> mem_step {} s s'"
  using malloc_zero_effect [OF assms] .

theorem malloc_zero_witness: "\<exists>s'. malloc 0 heap0 = Some (NULL, s') \<and> heap_inv s' []"
  using malloc_zero [OF heap0_inv] by blast

section \<open>free\<close>

text \<open>C7: freeing a pointer anywhere inside the payload of an allocated block returns, releases
  exactly that block, merges it with its free neighbours (the heap stays well formed, so no two
  free blocks are adjacent), moves no break and changes no byte of the other allocated blocks.\<close>

theorem free_releases:
  assumes "heap_inv s bs" and "b \<in> live bs" and "p \<in> payload b"
  shows "\<exists>s' bs'. free p s = Some s' \<and> heap_inv s' bs' \<and> live bs' = live bs - {b} \<and>
    brk_cur s' = brk_cur s \<and> (\<forall>x \<in> user_bytes bs. heap_mem s' x = heap_mem s x)"
  using free_effect [OF assms] .

theorem free_releases_witness:
  "\<exists>s' bs'. free 4200 heap2 = Some s' \<and> heap_inv s' bs' \<and> live bs' = {} \<and> brk_cur s' = 69632"
  using free_releases [OF heap2_inv, of used0 4200]
  by (fastforce simp: payload_def heap2_def)

text \<open>C27: freeing NULL, a pointer outside every payload, or a pointer into a block that is already
  free (a double free) returns and changes nothing but the debug output.\<close>

theorem free_ignored:
  assumes "heap_inv s bs" and "\<forall>b \<in> live bs. p \<notin> payload b"
  shows "\<exists>s'. free p s = Some s' \<and> heap_inv s' bs \<and> heap_mem s' = heap_mem s \<and> mem_step {} s s'"
proof -
  obtain s' where s': "free p s = Some s'" "heap_inv s' bs" "mem_step {} s s'"
    using free_ignored_step [OF assms(1)] assms(2) by blast
  then show ?thesis by (auto simp: mem_step_def touches_def fun_eq_iff)
qed

theorem free_ignored_witness: "\<exists>s'. free 5000 heap2 = Some s' \<and> heap_inv s' [used0, free0]"
  using free_ignored [OF heap2_inv, of 5000] by (fastforce simp: payload_def)

text \<open>C28: memory is reused: right after a block has been freed, a request that fits in it is
  granted, whatever the kernel's limit on the break.\<close>

theorem free_then_malloc:
  assumes "heap_inv s bs" and "b \<in> live bs" and "p \<in> payload b"
    and "req_ok sz" and "round_up_16 sz \<le> b_cap b"
  shows "\<exists>s1 q s2. free p s = Some s1 \<and> malloc sz s1 = Some (q, s2) \<and> q \<noteq> NULL"
proof -
  obtain s1 where s1: "free p s = Some s1" "heap_inv s1 (spec_free p bs)"
    using free_ok [OF assms(1)] by blast
  obtain c where "c \<in> set (spec_free p bs)" "suits (round_up_16 sz) c"
    using spec_free_room [OF assms(1-3)] assms(5) by (auto simp: suits_def)
  then have "fst (spec_malloc s1 sz (spec_free p bs)) \<noteq> NULL"
    using s1(2) assms(4) by (rule spec_malloc_suits)
  with malloc_ok [OF s1(2) assms(4)] s1(1) show ?thesis by blast
qed

theorem free_then_malloc_witness:
  "\<exists>s1 q s2. free 4128 heap2 = Some s1 \<and> malloc 112 s1 = Some (q, s2) \<and> q \<noteq> NULL"
  using free_then_malloc [OF heap2_inv, of used0 4128 112]
  by (simp add: payload_def req_ok_def round_up_16_def)

end
