(* ===== verification/Malloc_Realloc.thy ===== *)
theory Malloc_Realloc
  imports Malloc_Props
begin

text \<open>
  calloc and realloc of Asgn1/malloc.c: the overflow check, the zeroed payload, and the four ways
  realloc resizes a block (shrink, extend at the break, absorb the next block, move), each of
  which keeps the contents and every other allocated byte.
\<close>

section \<open>calloc\<close>

lemma calloc_overflow_iff:
  "sz \<noteq> 0 \<and> SIZE_MAX div sz < nmemb \<longleftrightarrow> 2 ^ 64 \<le> unat nmemb * unat sz"
proof (cases "sz = 0")
  case False
  then have pos: "0 < unat sz" by (simp add: unat_gt_0)
  have "unat SIZE_MAX = 2 ^ 64 - 1" unfolding SIZE_MAX_def by (rule unat_minus_one_64)
  then have "SIZE_MAX div sz < nmemb \<longleftrightarrow> (2 ^ 64 - 1) div unat sz < unat nmemb"
    by (simp add: word_less_nat_alt unat_div)
  also have "\<dots> \<longleftrightarrow> 2 ^ 64 - 1 < unat nmemb * unat sz"
    using pos by (rule div_less_iff_less_mult)
  finally show ?thesis using False by auto
qed simp

lemma unat_product:
  fixes a b :: size_t
  assumes "unat a * unat b < 2 ^ 64"
  shows "unat (a * b) = unat a * unat b"
  using assms by (simp add: unat_mult_lem [THEN iffD1])

lemma payload_in_memory:
  assumes "heap_inv s bs" and "b \<in> set bs"
  shows "unat (b_addr b + 32) = unat (b_addr b) + 32"
    and "unat (b_addr b) + 32 + unat (b_cap b) < 2 ^ 63"
proof -
  obtain lo hi where "layout lo bs hi" "hi < 2 ^ 63" using assms(1) by (rule heap_inv_layout)
  then have "b_end b < 2 ^ 63" using layout_bounds(2) [of lo bs hi b] assms(2) by simp
  then show "unat (b_addr b) + 32 + unat (b_cap b) < 2 ^ 63" by (simp add: b_end_def)
  then show "unat (b_addr b + 32) = unat (b_addr b) + 32" by (simp add: unat_add_fits)
qed

text \<open>Writing inside one payload keeps the heap and the bytes of the other allocated blocks.\<close>

lemma payload_write:
  assumes "heap_inv s bs" and "b \<in> set bs" and "touches (payload b) (heap_mem s) m'"
  shows "heap_inv (s\<lparr>heap_mem := m'\<rparr>) bs"
    and "x \<notin> payload b \<Longrightarrow> m' x = heap_mem s x"
proof -
  have "payload b \<subseteq> (\<Union>b \<in> set bs. payload b)" using assms(2) by blast
  from client_write_inv [OF assms(1) touches_mono [OF assms(3) this]]
  show "heap_inv (s\<lparr>heap_mem := m'\<rparr>) bs" .
  show "x \<notin> payload b \<Longrightarrow> m' x = heap_mem s x" using assms(3) by (auto simp: touches_def)
qed

lemma memset_payload:
  assumes "heap_inv s bs" and "b \<in> set bs" and "unat n \<le> unat (b_cap b)"
  shows "touches (payload b) m (memset (b_addr b + 32) v n m)"
    and "i < unat n \<Longrightarrow> memset (b_addr b + 32) v n m (b_addr b + 32 + of_nat i) = v"
proof -
  note u = payload_in_memory [OF assms(1,2)]
  have fits: "unat (b_addr b + 32) + unat n \<le> 2 ^ 64" using u assms(3) by simp
  then show "touches (payload b) m (memset (b_addr b + 32) v n m)"
    using u(1) assms(3) by (auto simp: memset_def memset_bytes_eq touches_def payload_def split: if_splits)
  assume i: "i < unat n"
  then have "unat (b_addr b + 32 + of_nat i) = unat (b_addr b + 32) + i"
    using fits by (intro unat_add_of_nat) simp
  with i fits show "memset (b_addr b + 32) v n m (b_addr b + 32 + of_nat i) = v"
    by (simp add: memset_def memset_bytes_eq)
qed

lemma say_report:
  assumes "heap_inv s bs"
  shows "\<exists>ts. print_debug_msg i p q n z (say msg s) = Some (talk ts s)"
proof -
  have "placed (say msg s) bs" using assms by (simp add: heap_inv_def)
  from print_debug_msg_talk [OF this, of i p q n z] show ?thesis by auto
qed

lemma heap_inv_poke: "heap_inv (s\<lparr>heap_mem := f (heap_mem s)\<rparr>) bs \<Longrightarrow> heap_inv (poke f s) bs"
  by (simp add: poke_def)

lemma user_bytes_insert: "live bs' = insert b (live bs) \<Longrightarrow> user_bytes bs' = payload b \<union> user_bytes bs"
  by (simp add: user_bytes_def)

lemma grants_disjoint: "grants sz (live bs) b \<Longrightarrow> x \<in> user_bytes bs \<Longrightarrow> x \<notin> payload b"
  by (auto simp: grants_def user_bytes_def)

lemma calloc_effect:
  assumes "heap_inv s bs" and "0 < unat nmemb * unat sz" and "unat nmemb * unat sz \<le> 2 ^ 63 - 64"
  shows "\<exists>p s' bs'. calloc nmemb sz s = Some (p, s') \<and> heap_inv s' bs' \<and> \<not> suppress_debug s' \<and>
    (p = NULL \<longrightarrow> bs' = bs \<and> errno s' = ENOMEM \<and> heap_mem s' = heap_mem s) \<and>
    (p \<noteq> NULL \<longrightarrow> (\<exists>b. live bs' = insert b (live bs) \<and> p = b_addr b + 32 \<and>
       grants (nmemb * sz) (live bs) b \<and>
       (\<forall>i < unat nmemb * unat sz. heap_mem s' (p + of_nat i) = 0))) \<and>
    (\<forall>x \<in> user_bytes bs. heap_mem s' x = heap_mem s x)"
proof -
  have prod: "unat (nmemb * sz) = unat nmemb * unat sz" using assms(3) by (intro unat_product) simp
  then have req: "req_ok (nmemb * sz)" using assms by (simp add: req_ok_def)
  have no_overflow: "\<not> (sz \<noteq> 0 \<and> SIZE_MAX div sz < nmemb)"
    unfolding calloc_overflow_iff using assms(3) by simp
  have "heap_inv (s\<lparr>suppress_debug := True\<rparr>) bs" using assms(1) by simp
  from malloc_effect [OF this req] obtain p t bs' where
    t: "malloc (nmemb * sz) (s\<lparr>suppress_debug := True\<rparr>) = Some (p, t)" "heap_inv t bs'"
    and null: "p = NULL \<Longrightarrow> bs' = bs \<and> errno t = ENOMEM \<and> heap_mem t = heap_mem s"
    and ok: "p \<noteq> NULL \<Longrightarrow> \<exists>b. live bs' = insert b (live bs) \<and> p = b_addr b + 32 \<and>
       grants (nmemb * sz) (live bs) b"
    and kept: "\<forall>x \<in> user_bytes bs. heap_mem t x = heap_mem s x"
    by auto
  let ?u = "t\<lparr>suppress_debug := False\<rparr>"
  have u: "heap_inv ?u bs'" using t(2) by simp
  show ?thesis
  proof (cases "p = NULL")
    case True
    obtain ts where "print_debug_msg CALLOC_ID NULL NULL nmemb sz (say ''CALLOC: malloc failed'' ?u)
        = Some (talk ts ?u)" using say_report [OF u] by blast
    then have "calloc nmemb sz s = Some (NULL, talk ts ?u)"
      unfolding calloc_def if_not_P [OF no_overflow] using t(1) True by (simp add: Let_def)
    then show ?thesis using True null u kept by (intro exI [of _ NULL]) auto
  next
    case False
    then obtain b where b: "live bs' = insert b (live bs)" "p = b_addr b + 32"
      "grants (nmemb * sz) (live bs) b" using ok by blast
    have mem: "b \<in> set bs'" using b(1) by (intro live_set) simp
    have len: "unat (nmemb * sz) \<le> unat (b_cap b)" using b(3) by (simp add: grants_def)
    let ?v = "poke (memset p 0 (nmemb * sz)) ?u"
    note ms = memset_payload [OF u mem len]
    have v: "heap_inv ?v bs'"
      using payload_write(1) [OF u mem ms(1)] b(2) by (intro heap_inv_poke) simp
    obtain ts where "print_debug_msg CALLOC_ID NULL p nmemb sz (say ''CALLOC: calloc succeeded'' ?v)
        = Some (talk ts ?v)" using say_report [OF v] by blast
    then have res: "calloc nmemb sz s = Some (p, talk ts ?v)"
      unfolding calloc_def if_not_P [OF no_overflow] using t(1) False by (simp add: Let_def)
    have "heap_mem ?v x = heap_mem s x" if "x \<in> user_bytes bs" for x
      using payload_write(2) [OF u mem ms(1), of x] grants_disjoint [OF b(3) that] kept that b(2)
      by simp
    moreover have "\<forall>i < unat nmemb * unat sz. heap_mem ?v (p + of_nat i) = 0"
      using ms(2) prod b(2) by simp
    ultimately show ?thesis using res v b False
      by (intro exI [of _ p] exI [of _ "talk ts ?v"] exI [of _ bs']) auto
  qed
qed

text \<open>C26: a calloc whose product of 1 to \<open>2 ^ 63 - 64\<close> bytes fits returns NULL with \<open>ENOMEM\<close> and an
  unchanged heap, or the payload of one newly allocated block of at least that many bytes, the
  first \<open>nmemb * sz\<close> of which are zero; the bytes of the other allocated blocks do not change,
  and debug output is on again afterwards.\<close>

theorem calloc_zeroes:
  assumes "heap_inv s bs" and "0 < unat nmemb * unat sz" and "unat nmemb * unat sz \<le> 2 ^ 63 - 64"
  shows "\<exists>p s' bs'. calloc nmemb sz s = Some (p, s') \<and> heap_inv s' bs' \<and> \<not> suppress_debug s' \<and>
    (p = NULL \<longrightarrow> bs' = bs \<and> errno s' = ENOMEM \<and> heap_mem s' = heap_mem s) \<and>
    (p \<noteq> NULL \<longrightarrow> (\<exists>b. live bs' = insert b (live bs) \<and> p = b_addr b + 32 \<and>
       grants (nmemb * sz) (live bs) b \<and>
       (\<forall>i < unat nmemb * unat sz. heap_mem s' (p + of_nat i) = 0))) \<and>
    (\<forall>x \<in> user_bytes bs. heap_mem s' x = heap_mem s x)"
  using calloc_effect [OF assms] .

theorem calloc_zeroes_witness:
  "\<exists>p s' bs'. calloc 5 20 heap2 = Some (p, s') \<and> heap_inv s' bs' \<and> (p \<noteq> NULL \<longrightarrow>
    (\<forall>i < 100. heap_mem s' (p + of_nat i) = 0))"
  using calloc_zeroes [OF heap2_inv, of 5 20] by fastforce

lemma calloc_overflow_effect:
  assumes "heap_inv s bs" and "2 ^ 64 \<le> unat nmemb * unat sz"
  shows "\<exists>s'. calloc nmemb sz s = Some (NULL, s') \<and> errno s' = ENOMEM \<and> heap_inv s' bs \<and>
    heap_mem s' = heap_mem s \<and> brk_cur s' = brk_cur s"
proof -
  have "heap_inv (s\<lparr>errno := ENOMEM\<rparr>) bs" using assms(1) by simp
  from say_report [OF this] obtain ts where
    "print_debug_msg CALLOC_ID NULL NULL nmemb sz (say ''CALLOC: overflow'' (s\<lparr>errno := ENOMEM\<rparr>))
      = Some (talk ts (s\<lparr>errno := ENOMEM\<rparr>))" by blast
  moreover have "sz \<noteq> 0 \<and> SIZE_MAX div sz < nmemb"
    unfolding calloc_overflow_iff by (rule assms(2))
  ultimately have "calloc nmemb sz s = Some (NULL, talk ts (s\<lparr>errno := ENOMEM\<rparr>))"
    unfolding calloc_def by simp
  with assms(1) show ?thesis by simp
qed

text \<open>A calloc whose product does not fit in \<open>size_t\<close> is refused with \<open>ENOMEM\<close>: the division in
  the code detects exactly the overflowing products, and nothing but \<open>errno\<close> and the debug output
  changes.\<close>

theorem calloc_overflow:
  assumes "heap_inv s bs" and "2 ^ 64 \<le> unat nmemb * unat sz"
  shows "\<exists>s'. calloc nmemb sz s = Some (NULL, s') \<and> errno s' = ENOMEM \<and> heap_inv s' bs \<and>
    heap_mem s' = heap_mem s \<and> brk_cur s' = brk_cur s"
  using calloc_overflow_effect [OF assms] .

theorem calloc_overflow_witness:
  "\<exists>s'. calloc (2 ^ 32) (2 ^ 32) heap2 = Some (NULL, s') \<and> errno s' = ENOMEM \<and> heap_inv s' [used0, free0]"
proof -
  have "2 ^ 64 \<le> unat (2 ^ 32 :: size_t) * unat (2 ^ 32 :: size_t)" by simp
  from calloc_overflow [OF heap2_inv this] show ?thesis by blast
qed

section \<open>Resizing one block\<close>

text \<open>
  \<open>resized sz b s bs s' bs' b'\<close>: block \<open>b\<close> of the old heap has become block \<open>b'\<close> of the new one,
  which satisfies the request; the common prefix of the contents is the same, and so is every byte
  of the other allocated blocks.
\<close>

definition resized ::
  "size_t \<Rightarrow> block \<Rightarrow> malloc_state \<Rightarrow> block list \<Rightarrow> malloc_state \<Rightarrow> block list \<Rightarrow> block \<Rightarrow> bool" where
  "resized sz b s bs s' bs' b' \<longleftrightarrow>
     live bs' = insert b' (live bs - {b}) \<and> grants sz (live bs - {b}) b' \<and>
     (\<forall>i. i < unat (b_cap b) \<and> i < unat (b_cap b') \<longrightarrow>
        heap_mem s' (b_addr b' + 32 + of_nat i) = heap_mem s (b_addr b + 32 + of_nat i)) \<and>
     (\<forall>c \<in> live bs - {b}. \<forall>x \<in> payload c. heap_mem s' x = heap_mem s x)"

lemma live_minus:
  assumes "layout lo (xs @ b # ys) hi"
  shows "live (xs @ b # ys) - {b} = live xs \<union> live ys"
proof -
  have "b \<notin> set xs \<union> set ys"
    using layout_ordered [OF assms, of b] by (auto simp: b_end_def)
  then show ?thesis by (auto simp: live_def)
qed

lemma payload_index:
  assumes "heap_inv s bs" and "b \<in> set bs" and "i < unat (b_cap b)"
  shows "b_addr b + 32 + of_nat i \<in> payload b"
    and "unat (b_addr b + 32 + of_nat i) = unat (b_addr b) + 32 + i"
proof -
  note u = payload_in_memory [OF assms(1,2)]
  have "unat (b_addr b + 32 + of_nat i) = unat (b_addr b + 32) + i"
    using u assms(3) by (intro unat_add_of_nat) simp
  then show "unat (b_addr b + 32 + of_nat i) = unat (b_addr b) + 32 + i" using u(1) by simp
  then show "b_addr b + 32 + of_nat i \<in> payload b" using assms(3) by (simp add: payload_def)
qed

lemma resized_in_place:
  assumes inv: "heap_inv s (xs @ b # ys)" "heap_inv s' (xs @ trim B (round_up_16 sz) zs)"
    and req: "req_ok sz" and used: "\<not> b_free b" "\<not> b_free B" and start: "b_addr B = b_addr b"
    and cap: "unat (round_up_16 sz) \<le> unat (b_cap B)" and live: "live zs = live ys"
    and step: "touches (slots (xs @ b # ys) \<union> slots (xs @ trim B (round_up_16 sz) zs)) (heap_mem s) (heap_mem s')"
  shows "resized sz b s (xs @ b # ys) s' (xs @ trim B (round_up_16 sz) zs) (taken B (round_up_16 sz) zs)"
proof -
  let ?r = "round_up_16 sz" and ?bs = "xs @ b # ys"
  let ?bs' = "xs @ trim B ?r zs" and ?b = "taken B ?r zs"
  obtain lo hi where l: "layout lo ?bs hi" using inv(1) by (rule heap_inv_layout)
  obtain lo' hi' where l': "layout lo' ?bs' hi'" "16 dvd lo'" "hi' < 2 ^ 63"
    using inv(2) by (rule heap_inv_layout)
  have rest: "live ?bs - {b} = live xs \<union> live zs" using live_minus [OF l] live by simp
  have new: "live ?bs' = insert ?b (live ?bs - {b})" unfolding rest by (simp add: live_trim used)
  have kept: "heap_mem s' x = heap_mem s x"
    if "c \<in> set ?bs" "x \<in> payload c" "c' \<in> set ?bs'" "x \<in> payload c'" for c c' x
  proof -
    have "x \<notin> slots ?bs \<union> slots ?bs'"
      using payload_slots [OF l that(1)] payload_slots [OF l'(1) that(3)] that by blast
    with step show ?thesis by (auto simp: touches_def)
  qed
  have addr: "b_addr ?b = b_addr b" using taken_props(1) [OF cap] start by simp
  have "heap_mem s' (b_addr ?b + 32 + of_nat i) = heap_mem s (b_addr b + 32 + of_nat i)"
    if "i < unat (b_cap b)" "i < unat (b_cap ?b)" for i
    using kept [of b _ ?b] payload_index(1) [OF inv(1) _ that(1)] payload_index(1) [OF inv(2) _ that(2)]
    by (simp add: addr)
  moreover have "heap_mem s' x = heap_mem s x" if "c \<in> live ?bs - {b}" "x \<in> payload c" for c x
    using kept [of c x c] that new live_set by blast
  moreover have "grants sz (live ?bs - {b}) ?b"
    unfolding rest by (rule grants_taken [OF l' req cap])
  ultimately show ?thesis unfolding resized_def using new by blast
qed

text \<open>The result every branch of realloc has, for a live block \<open>b\<close>.\<close>

definition realloc_outcome ::
  "size_t \<Rightarrow> block \<Rightarrow> malloc_state \<Rightarrow> block list \<Rightarrow> (addr \<times> malloc_state) option \<Rightarrow> bool" where
  "realloc_outcome sz b s bs res \<longleftrightarrow> (\<exists>q s' bs'. res = Some (q, s') \<and> heap_inv s' bs' \<and>
     (q = NULL \<longrightarrow> bs' = bs \<and> errno s' = ENOMEM \<and> heap_mem s' = heap_mem s) \<and>
     (q \<noteq> NULL \<longrightarrow> (\<exists>b'. q = b_addr b' + 32 \<and> resized sz b s bs s' bs' b')))"

lemma realloc_outcome_talk [simp]:
  "realloc_outcome sz b (talk ts s) bs res = realloc_outcome sz b s bs res"
  by (simp add: realloc_outcome_def resized_def)

lemma block_start_not_null:
  assumes "heap_inv s bs" and "b \<in> set bs"
  shows "b_addr b + 32 \<noteq> NULL" and "b_addr b \<noteq> NULL"
proof -
  show "b_addr b + 32 \<noteq> NULL"
    using payload_in_memory(1) [OF assms] by (metis add_is_0 unat_0 zero_neq_numeral)
  obtain lo hi where "0 < lo" "layout lo bs hi" using assms(1) by (rule heap_inv_layout)
  then show "b_addr b \<noteq> NULL" using layout_addr_pos assms(2) by blast
qed

text \<open>All in-place branches end by splitting the block and reporting.\<close>

lemma realloc_split_ok:
  assumes orig: "heap_inv s (xs @ b # ys)" and req: "req_ok sz"
    and inv: "heap_inv t (xs @ B # zs)" and used: "\<not> b_free b" "\<not> b_free B"
    and start: "b_addr B = b_addr b" and cap: "unat (round_up_16 sz) \<le> unat (b_cap B)"
    and live: "live zs = live ys"
    and step: "touches (slots (xs @ b # ys)) (heap_mem s) (heap_mem t)"
      "slots (xs @ B # zs) \<subseteq> slots (xs @ b # ys)"
  shows "realloc_outcome sz b s (xs @ b # ys)
    (splitblock (b_addr b) (round_up_16 sz) t \<bind>
      (\<lambda>(p, t). print_debug_msg REALLOC_ID ptr p 0 sz t \<bind> (\<lambda>t. Some (p, t))))"
proof -
  let ?r = "round_up_16 sz"
  let ?bs' = "xs @ trim B ?r zs"
  obtain t' where t': "splitblock (b_addr b) ?r t = Some (b_addr b + 32, t')" "heap_inv t' ?bs'"
    "mem_step (slots (xs @ B # zs) \<union> slots ?bs') t t'"
    using splitblock_ok [OF inv used(2) req_ok_sizes(1,2) [OF req] cap] start by auto
  define ts where "ts = report_text REALLOC_ID ptr (b_addr b + 32) 0 sz t'"
  have msg: "print_debug_msg REALLOC_ID ptr (b_addr b + 32) 0 sz t' = Some (talk ts t')"
    unfolding ts_def using t'(2) print_debug_msg_talk by (auto simp: heap_inv_def)
  have "touches (slots (xs @ b # ys) \<union> slots ?bs') (heap_mem s) (heap_mem t')"
    using touches_trans [OF touches_mono [OF step(1)] touches_mono] t'(3) step(2)
    unfolding mem_step_def by (metis Un_upper1 sup.mono order_refl)
  then have "resized sz b s (xs @ b # ys) (talk ts t') ?bs' (taken B ?r zs)"
    using t'(2) by (intro resized_in_place) (simp_all add: assms)
  moreover have "b_addr (taken B ?r zs) = b_addr b" using taken_props(1) [OF cap] start by simp
  moreover have "b_addr b + 32 \<noteq> NULL" by (rule block_start_not_null(1) [OF orig]) simp
  ultimately show ?thesis
    unfolding realloc_outcome_def t'(1) using msg t'(2)
    by (intro exI [of _ "b_addr b + 32"] exI [of _ "talk ts t'"] exI [of _ ?bs'])
      (auto intro!: exI [of _ "taken B ?r zs"])
qed

lemma realloc_extend_ok:
  assumes inv: "heap_inv s (xs @ [b])" and used: "\<not> b_free b" and req: "req_ok sz"
    and grow: "unat (b_cap b) < unat (round_up_16 sz)"
  shows "realloc_outcome sz b s (xs @ [b]) (realloc_extend ptr sz (b_addr b) (b_cap b) (round_up_16 sz) s)"
proof -
  let ?r = "round_up_16 sz"
  define n where "n = (if ?r - b_cap b < CHUNK_SIZE then CHUNK_SIZE else ?r - b_cap b)"
  define s1 where "s1 = say ''REALLOC: at the end of heap, calling sbrk'' s"
  note sizes = req_ok_sizes [OF req]
  have need: "unat (?r - b_cap b) = unat ?r - unat (b_cap b)" using grow by (simp add: unat_diff_fits)
  have k: "kernel_ok s1" and fields: "heap_mem s1 = heap_mem s" "brk_cur s1 = brk_cur s" "brk_max s1 = brk_max s"
    using inv by (simp_all add: s1_def heap_inv_def placed_def kernel_ok_def)
  obtain lo where l: "0 < lo" "16 dvd lo" "layout lo (xs @ [b]) (unat (brk_cur s))"
    "unat (brk_start s) \<le> lo"
    using inv by (auto simp: heap_inv_def placed_def tiled_def)
  then have b16: "16 dvd unat (b_cap b)" by (auto simp: layout_append)
  have n: "unat n < 2 ^ 63" "unat ?r \<le> unat (b_cap b) + unat n" "16 dvd unat n"
    using sizes(2,5,6) need b16 grow by (auto simp: n_def word_less_nat_alt chunk_for_def split: if_splits)
  have inv1: "heap_inv s1 (xs @ [b])" using inv by (simp add: s1_def)
  show ?thesis
  proof (cases "unat (brk_cur s) + unat n \<le> unat (brk_max s)")
    case False
    then have "sbrk n s1 = (- 1, s1\<lparr>errno := ENOMEM\<rparr>)"
      using sbrk_refuse [OF k n(1)] fields by simp
    moreover have "heap_inv (s1\<lparr>errno := ENOMEM\<rparr>) (xs @ [b])" using inv1 by simp
    from say_report [OF this] obtain ts where
      "print_debug_msg REALLOC_ID ptr NULL 0 sz (say ''REALLOC: sbrk failed'' (s1\<lparr>errno := ENOMEM\<rparr>))
        = Some (talk ts (s1\<lparr>errno := ENOMEM\<rparr>))" by blast
    ultimately have "realloc_extend ptr sz (b_addr b) (b_cap b) ?r s
        = Some (NULL, talk ts (s1\<lparr>errno := ENOMEM\<rparr>))"
      by (simp add: realloc_extend_def Let_def s1_def n_def)
    then show ?thesis using inv1 fields unfolding realloc_outcome_def
      by (intro exI [of _ NULL] exI [of _ "talk ts (s1\<lparr>errno := ENOMEM\<rparr>)"] exI [of _ "xs @ [b]"]) simp
  next
    case True
    define s2 where "s2 = s1\<lparr>brk_cur := brk_cur s1 + n\<rparr>"
    have sb: "sbrk n s1 = (brk_cur s1, s2)"
      unfolding s2_def using True fields by (intro sbrk_grant [OF k n(1)]) simp
    define s3 where "s3 = poke (put_cap (b_addr b) (get_cap (heap_mem (say ''REALLOC: sbrk succeeded'' s2)) (b_addr b) + n))
      (say ''REALLOC: sbrk succeeded'' s2)"
    let ?b = "b\<lparr>b_cap := b_cap b + n\<rparr>"
    have top: "unat (brk_cur s) + unat n < 2 ^ 63" using True k fields by (simp add: kernel_ok_def)
    have brk: "unat (brk_cur s + n) = unat (brk_cur s) + unat n" using top by (simp add: unat_add_fits)
    have endb: "b_end b = unat (brk_cur s)" using l by (auto simp: layout_append)
    then have cap: "unat (b_cap b + n) = unat (b_cap b) + unat n"
      using top by (simp add: unat_add_fits b_end_def)
    have chain: "chain_to (heap_mem s) (xs @ [b]) NULL" using inv by (simp add: heap_inv_def placed_def)
    have hi: "unat (brk_cur s) \<le> 2 ^ 64" using top by simp
    have fits: "header_fits (b_addr b)" using layout_header_fits [OF l(3) hi] by simp
    have mem3: "heap_mem s3 = put_cap (b_addr b) (b_cap b + n) (heap_mem s)"
      using chain by (simp add: s3_def s2_def fields chain_to_append)
    have t3: "touches (range_of (unat (b_addr b)) 24) (heap_mem s) (heap_mem s3)"
      unfolding mem3 by (rule touches_put(1) [OF fits]) auto
    have "chain_to (heap_mem s3) (xs @ [?b]) NULL"
      using chain_rewrite [OF chain l(3) hi t3, of ?b] chain header_same [OF fits]
      by (simp add: mem3 chain_to_append)
    moreover have "tiled s3 (xs @ [?b])"
      unfolding tiled_def
    proof (intro exI conjI)
      show "layout lo (xs @ [?b]) (unat (brk_cur s + n))"
        using l(3) endb brk cap n(3) by (auto simp: layout_append b_end_def)
      show "xs @ [?b] \<noteq> [] \<longrightarrow> unat (brk_start s3) \<le> lo \<and> unat (brk_cur s + n) = unat (brk_cur s3)"
        using l(4) by (simp add: s3_def s2_def s1_def)
    qed (use l top brk in simp_all)
    moreover have "kernel_ok s3"
      using k True fields brk by (simp add: kernel_ok_def s3_def s2_def)
    moreover have "heap_head s3 = first_addr (xs @ [?b])"
      using inv first_addr_mid [of ?b b xs "[]" "[]"] by (simp add: s3_def s2_def s1_def heap_inv_def placed_def)
    moreover have "separated (xs @ [?b])"
      using inv used separated_append_used [of ?b xs "[]"] by (simp add: heap_inv_def)
    ultimately have inv3: "heap_inv s3 (xs @ [?b])" by (simp add: heap_inv_def placed_def)
    have "realloc_extend ptr sz (b_addr b) (b_cap b) ?r s = splitblock (b_addr b) ?r s3 \<bind>
        (\<lambda>(p, t). print_debug_msg REALLOC_ID ptr p 0 sz t \<bind> (\<lambda>t. Some (p, t)))"
      unfolding realloc_extend_def Let_def s1_def [symmetric] n_def [symmetric] sb prod.case
        if_not_P [OF brk_not_error [OF k]] s3_def [symmetric] by (rule refl)
    moreover have "touches (slots (xs @ [b])) (heap_mem s) (heap_mem s3)"
      using t3 by (rule touches_mono) auto
    ultimately show ?thesis
      using realloc_split_ok [OF inv req inv3] used cap n(2) by simp
  qed
qed

lemma realloc_move_ok:
  assumes inv: "heap_inv s bs" and live: "b \<in> live bs" and p: "p \<in> payload b" and req: "req_ok sz"
    and grow: "unat (b_cap b) < unat (round_up_16 sz)"
  shows "realloc_outcome sz b s bs (realloc_move p sz (b_addr b) (b_cap b) s)"
proof -
  let ?s = "say ''REALLOC: copying, calling malloc'' s"
  have "heap_inv (?s\<lparr>suppress_debug := True\<rparr>) bs" using inv by simp
  from malloc_effect [OF this req] obtain q t bs1 where
    t: "malloc sz (?s\<lparr>suppress_debug := True\<rparr>) = Some (q, t)" "heap_inv t bs1"
    and null: "q = NULL \<Longrightarrow> bs1 = bs \<and> errno t = ENOMEM \<and> heap_mem t = heap_mem s"
    and ok: "q \<noteq> NULL \<Longrightarrow> \<exists>b'. live bs1 = insert b' (live bs) \<and> q = b_addr b' + 32 \<and>
       grants sz (live bs) b'"
    and kept: "\<And>x. x \<in> user_bytes bs \<Longrightarrow> heap_mem t x = heap_mem s x"
    by auto
  let ?u = "t\<lparr>suppress_debug := False\<rparr>"
  have u: "heap_inv ?u bs1" using t(2) by simp
  show ?thesis
  proof (cases "q = NULL")
    case True
    obtain ts where "print_debug_msg REALLOC_ID p NULL 0 sz (say ''REALLOC: malloc failed'' ?u)
        = Some (talk ts ?u)" using say_report [OF u] by blast
    then have "realloc_move p sz (b_addr b) (b_cap b) s = Some (NULL, talk ts ?u)"
      using t(1) True by (simp add: realloc_move_def Let_def)
    then show ?thesis using True null u unfolding realloc_outcome_def
      by (intro exI [of _ NULL] exI [of _ "talk ts ?u"] exI [of _ bs]) auto
  next
    case False
    then obtain b' where b': "live bs1 = insert b' (live bs)" "q = b_addr b' + 32"
      "grants sz (live bs) b'" using ok by blast
    have sets: "b \<in> set bs1" "b' \<in> set bs1" "b \<noteq> b'" "b \<in> set bs"
      using b' live by (auto simp: grants_def intro: live_set)
    obtain lo hi where l: "layout lo bs1 hi" using u by (rule heap_inv_layout)
    have "unat sz \<le> unat (b_cap b')" using b'(3) by (simp add: grants_def)
    moreover have "16 dvd unat (b_cap b')" "16 dvd unat (b_cap b)"
      using layout_bounds l sets by (auto simp: layout_append dest!: split_list)
    ultimately have len: "unat (b_cap b) \<le> unat (b_cap b')"
      using grow req_ok_sizes(4) [OF req] by presburger
    note mem = payload_in_memory [OF u sets(1)] payload_in_memory [OF u sets(2)]
    define m where "m = memcpy q (b_addr b + 32) (b_cap b) (heap_mem ?u)"
    have outside: "m x = heap_mem ?u x" if "x \<notin> payload b'" for x
      unfolding m_def memcpy_def using that mem(3,4) len b'(2)
      by (intro memcpy_bytes_frame) (auto simp: payload_def)
    then have tm: "touches (payload b') (heap_mem ?u) m" by (auto simp: touches_def)
    have copied: "m (q + of_nat i) = heap_mem s (b_addr b + 32 + of_nat i)" if i: "i < unat (b_cap b)" for i
    proof -
      have "m (q + of_nat i) = heap_mem ?u (b_addr b + 32 + of_nat i)"
        unfolding m_def memcpy_def using layout_apart [OF l sets(1-3)] mem len b'(2) i
        by (intro memcpy_bytes_copies) (auto simp: b_end_def)
      moreover have "b_addr b + 32 + of_nat i \<in> user_bytes bs"
        using payload_index(1) [OF u sets(1) i] live by (auto simp: user_bytes_def)
      ultimately show ?thesis using kept by simp
    qed
    define v where "v = say ''REALLOC: copied bytes'' (poke (memcpy q (b_addr b + 32) (b_cap b)) ?u)"
    have v: "heap_inv (v\<lparr>suppress_debug := True\<rparr>) bs1" "heap_mem v = m"
      using payload_write(1) [OF u sets(2) tm] by (simp_all add: v_def m_def poke_def)
    have "b \<in> live bs1" using b'(1) live by simp
    from free_effect [OF v(1) this p] obtain w bs2 where
      w: "free p (v\<lparr>suppress_debug := True\<rparr>) = Some w" "heap_inv w bs2" "live bs2 = live bs1 - {b}"
      and w_kept: "\<And>x. x \<in> user_bytes bs1 \<Longrightarrow> heap_mem w x = m x" using v(2) by auto
    let ?w = "w\<lparr>suppress_debug := False\<rparr>"
    define ts where "ts = report_text REALLOC_ID p q 0 sz ?w"
    have "print_debug_msg REALLOC_ID p q 0 sz ?w = Some (talk ts ?w)"
      unfolding ts_def using w(2) by (intro print_debug_msg_talk [of _ bs2]) (simp add: heap_inv_def)
    then have res: "realloc_move p sz (b_addr b) (b_cap b) s = Some (q, talk ts ?w)"
      using t(1) False w(1) by (simp add: realloc_move_def Let_def v_def)
    have "heap_mem w (b_addr b' + 32 + of_nat i) = heap_mem s (b_addr b + 32 + of_nat i)"
      if "i < unat (b_cap b)" "i < unat (b_cap b')" for i
      using w_kept [of "q + of_nat i"] copied [OF that(1)] payload_index(1) [OF u sets(2) that(2)] b'
      by (auto simp: user_bytes_def)
    moreover have "heap_mem w x = heap_mem s x" if "c \<in> live bs - {b}" "x \<in> payload c" for c x
    proof -
      have x: "x \<in> user_bytes bs" using that by (auto simp: user_bytes_def)
      then have "x \<in> user_bytes bs1" using b'(1) by (auto simp: user_bytes_def)
      then show ?thesis
        using w_kept outside [OF grants_disjoint [OF b'(3) x]] kept [OF x] by simp
    qed
    moreover have "live bs2 = insert b' (live bs - {b})" using w(3) b'(1) sets(3) by auto
    moreover have "grants sz (live bs - {b}) b'" using b'(3) by (auto simp: grants_def)
    ultimately have "resized sz b s bs (talk ts ?w) bs2 b'" unfolding resized_def by simp
    with res w(2) b'(2) False show ?thesis unfolding realloc_outcome_def
      by (intro exI [of _ q] exI [of _ "talk ts ?w"] exI [of _ bs2]) auto
  qed
qed

lemma realloc_absorb_ok:
  assumes inv: "heap_inv s (xs @ b # c # ys)" and used: "\<not> b_free b" and p: "p \<in> payload b"
    and req: "req_ok sz" and grow: "unat (b_cap b) < unat (round_up_16 sz)"
  shows "realloc_outcome sz b s (xs @ b # c # ys)
    (realloc_absorb p sz (b_addr b) (b_cap b) (round_up_16 sz) s)"
proof -
  let ?r = "round_up_16 sz" and ?bs = "xs @ b # c # ys"
  define s1 where "s1 = say ''REALLOC: attempting to expand in place'' s"
  have inv1: "heap_inv s1 ?bs" using inv by (simp add: s1_def)
  obtain lo hi where l: "0 < lo" "layout lo ?bs hi" "hi < 2 ^ 63" using inv by (rule heap_inv_layout)
  then have hi: "hi \<le> 2 ^ 64" by simp
  have chain: "chain_to (heap_mem s1) ?bs NULL" using inv1 by (simp add: heap_inv_def placed_def)
  then have hdr: "get_next (heap_mem s1) (b_addr b) = b_addr c" "get_cap (heap_mem s1) (b_addr b) = b_cap b"
    "get_free (heap_mem s1) (b_addr c) = b_free c" "get_cap (heap_mem s1) (b_addr c) = b_cap c"
    by (simp_all add: chain_to_append)
  have nz: "b_addr c \<noteq> NULL" by (rule block_start_not_null(2) [OF inv]) simp
  show ?thesis
  proof (cases "b_free c \<and> ?r \<le> b_cap b + (header_size + b_cap c)")
    case False
    have "realloc_outcome sz b s1 ?bs (realloc_move p sz (b_addr b) (b_cap b) s1)"
      using inv1 used p grow by (intro realloc_move_ok [OF _ _ _ req]) auto
    moreover have "realloc_absorb p sz (b_addr b) (b_cap b) ?r s = realloc_move p sz (b_addr b) (b_cap b) s1"
      unfolding realloc_absorb_def Let_def s1_def [symmetric] hdr using False
      by (simp only: if_False simp_thms)
    ultimately show ?thesis by (simp add: s1_def)
  next
    case True
    define s2 where "s2 = say ''REALLOC: expanding in place'' s1"
    define s3 where "s3 = poke (put_cap (b_addr b) (get_cap (heap_mem s2) (b_addr b)
        + (header_size + get_cap (heap_mem s1) (b_addr c)))) s2"
    define s4 where "s4 = poke (put_next (b_addr b) (get_next (heap_mem s3) (b_addr c))) s3"
    have s2: "heap_mem s2 = heap_mem s1" and s1_mem: "heap_mem s1 = heap_mem s"
      by (simp_all add: s2_def s1_def)
    have merged: "chain_to (heap_mem s4) (xs @ absorb b c # ys) NULL"
      "touches (range_of (unat (b_addr b)) 24) (heap_mem s1) (heap_mem s4)"
      using chain_merge [OF chain l(2) hi refl refl] by (simp_all add: s4_def s3_def s2)
    have t4: "touches (slots ?bs) (heap_mem s) (heap_mem s4)"
      using merged(2) unfolding s1_mem by (rule touches_mono) auto
    have step: "mem_step (slots ?bs) s s4"
      using t4 by (auto simp: mem_step_def s4_def s3_def s2_def s1_def custom_text_def quiet_def)
    have "placed s4 (xs @ absorb b c # ys)"
    proof (rule placed_mem_step [OF step _ merged(1)])
      show "placed s ?bs" using inv by (simp add: heap_inv_def)
      show "first_addr (xs @ absorb b c # ys) = first_addr ?bs" by (rule first_addr_mid) simp
      show "layout lo' (xs @ absorb b c # ys) hi'" if "layout lo' ?bs hi'" "0 < lo'" "hi' \<le> 2 ^ 64" for lo' hi'
        using that layout_absorb [of _ b c ys hi'] layout_le
        by (fastforce simp: layout_append simp del: layout.simps)
    qed simp
    moreover have "separated (xs @ absorb b c # ys)"
      using inv used separated_append_used [of b xs "c # ys"] separated_append_used [of "absorb b c" xs ys]
        separated_Cons [of c ys] by (simp add: heap_inv_def)
    ultimately have inv4: "heap_inv s4 (xs @ absorb b c # ys)" by (simp add: heap_inv_def)
    have eq: "realloc_absorb p sz (b_addr b) (b_cap b) ?r s = splitblock (b_addr b) ?r s4 \<bind>
        (\<lambda>(q, t). print_debug_msg REALLOC_ID p q 0 sz t \<bind> (\<lambda>t. Some (q, t)))"
      unfolding realloc_absorb_def Let_def s1_def [symmetric] hdr using True nz
      by (simp add: s4_def s3_def s2_def hdr)
    have cap: "unat ?r \<le> unat (b_cap (absorb b c))" using True by (simp add: word_le_nat_alt)
    have free_c: "b_free c" using True by simp
    show ?thesis unfolding eq
      by (rule realloc_split_ok [OF inv req inv4 used _ _ cap _ t4]) (use used free_c in auto)
  qed
qed

lemma realloc_resize_effect:
  assumes inv: "heap_inv s bs" and live: "b \<in> live bs" and p: "p \<in> payload b" and req: "req_ok sz"
  shows "realloc_outcome sz b s bs (realloc p sz s)"
proof -
  let ?r = "round_up_16 sz"
  have b: "b \<in> set bs" "\<not> b_free b" using live by (simp_all add: live_def)
  then obtain xs ys where bs: "bs = xs @ b # ys" by (meson split_list)
  obtain lo hi where l: "layout lo bs hi" using inv by (rule heap_inv_layout)
  have placed: "placed s bs" using inv by (simp add: heap_inv_def)
  obtain ts where fb: "findblock p s = Some (b_addr b, talk ts s)"
    using findblock_ok [OF placed, of p] block_of_unique [OF l b(1) p] by auto
  have nz: "p \<noteq> NULL" "sz \<noteq> 0" "b_addr b \<noteq> NULL"
    using p req block_start_not_null(2) [OF inv b(1)] by (auto simp: payload_def req_ok_def)
  define t where "t = say ''REALLOC: block found'' (talk ts s)"
  have t: "heap_inv t (xs @ b # ys)" "heap_mem t = heap_mem s" "t = talk (ts @ custom_text ''REALLOC: block found\<newline>'' (talk ts s)) s"
    using inv by (simp_all add: t_def bs)
  have hdr: "get_cap (heap_mem t) (b_addr b) = b_cap b"
    "get_next (heap_mem t) (b_addr b) = first_addr ys"
    using t(1) by (simp_all add: heap_inv_def placed_def chain_to_append)
  have outcome: "realloc_outcome sz b t bs (realloc p sz s)"
  proof -
    consider (same) "b_cap b = ?r" | (shrink) "?r < b_cap b"
      | (extend) "b_cap b < ?r" "ys = []" | (more) c zs where "b_cap b < ?r" "ys = c # zs"
      using linorder_less_linear [of "b_cap b" ?r] by (cases ys) auto
    then show ?thesis
    proof cases
      case same
      let ?u = "say ''REALLOC: size didn't change, returning payload ptr'' t"
      obtain us where "print_debug_msg REALLOC_ID p (b_addr b + 32) 0 sz ?u = Some (talk us t)"
        using say_report [OF t(1)] by blast
      then have res: "realloc p sz s = Some (b_addr b + 32, talk us t)"
        using fb nz hdr same by (simp add: realloc_def t_def Let_def)
      have "resized sz b t bs (talk us t) (xs @ trim b ?r ys) (taken b ?r ys)"
        unfolding bs using t(1) same by (intro resized_in_place [OF t(1) _ req b(2) b(2)]) (simp_all add: trim_def)
      moreover have "xs @ trim b ?r ys = bs" "b_addr (taken b ?r ys) = b_addr b"
        using same by (simp_all add: trim_def bs)
      ultimately show ?thesis
        using t(1) block_start_not_null(1) [OF inv b(1)] unfolding realloc_outcome_def res
        by (intro exI [of _ "b_addr b + 32"] exI [of _ "talk us t"] exI [of _ bs])
          (auto simp: bs intro!: exI [of _ "taken b ?r ys"])
    next
      case shrink
      let ?u = "say ''REALLOC: user requested smaller size'' t"
      have "realloc p sz s = splitblock (b_addr b) ?r ?u \<bind>
          (\<lambda>(q, t). print_debug_msg REALLOC_ID p q 0 sz t \<bind> (\<lambda>t. Some (q, t)))"
        using fb nz hdr shrink less_imp_neq [OF shrink] by (simp add: realloc_def t_def Let_def)
      moreover have "unat ?r \<le> unat (b_cap b)" using shrink by (simp add: word_less_nat_alt)
      ultimately show ?thesis
        unfolding bs using t(1) b(2) realloc_split_ok [OF t(1) req _ b(2) b(2), of ?u ys p] by simp
    next
      case extend
      have "realloc p sz s = realloc_extend p sz (b_addr b) (b_cap b) ?r t"
        using fb nz hdr extend less_not_sym [OF extend(1)] less_imp_neq [OF extend(1)] by (simp add: realloc_def t_def Let_def)
      then show ?thesis
        using realloc_extend_ok [OF _ b(2) req] t(1) extend by (simp add: bs word_less_nat_alt)
    next
      case more
      have "b_addr c \<noteq> NULL" by (rule block_start_not_null(2) [OF t(1)]) (simp add: more)
      then have "realloc p sz s = realloc_absorb p sz (b_addr b) (b_cap b) ?r t"
        using fb nz hdr more less_not_sym [OF more(1)] less_imp_neq [OF more(1)] by (simp add: realloc_def t_def Let_def)
      then show ?thesis
        using realloc_absorb_ok [OF _ b(2) p req] t(1) more by (simp add: bs word_less_nat_alt)
    qed
  qed
  then show ?thesis unfolding t(3) by simp
qed

section \<open>realloc for its client\<close>

text \<open>C4: resizing an allocated block (through any pointer into its payload) to 1 to
  \<open>2 ^ 63 - 64\<close> bytes returns in each of the five branches. Either it returns NULL with \<open>ENOMEM\<close>
  and the old block, its contents and all others are untouched; or the old block is replaced by
  exactly one block that satisfies the request, holds the old contents up to the smaller of the two
  sizes and overlaps no other allocated block, whose bytes have not changed.\<close>

theorem realloc_resizes:
  assumes "heap_inv s bs" and "b \<in> live bs" and "p \<in> payload b" and "req_ok sz"
  shows "\<exists>q s' bs'. realloc p sz s = Some (q, s') \<and> heap_inv s' bs' \<and>
    (q = NULL \<longrightarrow> bs' = bs \<and> errno s' = ENOMEM \<and> heap_mem s' = heap_mem s) \<and>
    (q \<noteq> NULL \<longrightarrow> (\<exists>b'. q = b_addr b' + 32 \<and> live bs' = insert b' (live bs - {b}) \<and>
       grants sz (live bs - {b}) b' \<and>
       (\<forall>i. i < unat (b_cap b) \<and> i < unat (b_cap b') \<longrightarrow>
          heap_mem s' (q + of_nat i) = heap_mem s (b_addr b + 32 + of_nat i)) \<and>
       (\<forall>c \<in> live bs - {b}. \<forall>x \<in> payload c. heap_mem s' x = heap_mem s x)))"
proof -
  obtain q s' bs' where r: "realloc p sz s = Some (q, s')" "heap_inv s' bs'"
    "q = NULL \<longrightarrow> bs' = bs \<and> errno s' = ENOMEM \<and> heap_mem s' = heap_mem s"
    "q \<noteq> NULL \<longrightarrow> (\<exists>b'. q = b_addr b' + 32 \<and> resized sz b s bs s' bs' b')"
    using realloc_resize_effect [OF assms] unfolding realloc_outcome_def by blast
  show ?thesis
    by (intro exI [of _ q] exI [of _ s'] exI [of _ bs'] conjI r(1-3))
      (use r(4) in \<open>auto simp: resized_def\<close>)
qed

theorem realloc_resizes_witness:
  "\<exists>q s' bs'. realloc 4128 200 heap2 = Some (q, s') \<and> heap_inv s' bs' \<and>
    (q \<noteq> NULL \<longrightarrow> (\<exists>b'. live bs' = {b'} \<and> grants 200 {} b'))"
  using realloc_resizes [OF heap2_inv, of used0 4128 200]
  by (fastforce simp: payload_def req_ok_def)

lemma realloc_degenerate_cases:
  assumes "heap_inv s bs"
  shows "req_ok sz \<longrightarrow> (\<exists>q t ts. malloc sz (s\<lparr>suppress_debug := True\<rparr>) = Some (q, t) \<and>
      realloc NULL sz s = Some (q, talk ts (t\<lparr>suppress_debug := False\<rparr>)))"
    and "p \<noteq> NULL \<longrightarrow> (\<exists>t ts. free p (s\<lparr>suppress_debug := True\<rparr>) = Some t \<and>
      realloc p 0 s = Some (NULL, talk ts (t\<lparr>suppress_debug := False\<rparr>)))"
    and "p \<noteq> NULL \<and> sz \<noteq> 0 \<and> block_of p bs = None \<longrightarrow> (\<exists>ts. realloc p sz s = Some (NULL, talk ts s))"
proof -
  have inv: "heap_inv (s\<lparr>suppress_debug := True\<rparr>) bs" using assms by simp
  have "\<exists>q t ts. malloc sz (s\<lparr>suppress_debug := True\<rparr>) = Some (q, t) \<and>
      realloc NULL sz s = Some (q, talk ts (t\<lparr>suppress_debug := False\<rparr>))" if req: "req_ok sz"
  proof -
    obtain q t bs' where t: "malloc sz (s\<lparr>suppress_debug := True\<rparr>) = Some (q, t)" "heap_inv t bs'"
      using malloc_effect [OF inv req] by blast
    then have "heap_inv (t\<lparr>suppress_debug := False\<rparr>) bs'" by simp
    from say_report [OF this] obtain ts where
      "print_debug_msg REALLOC_ID NULL q 0 sz
        (say ''REALLOC: ptr is NULL, calling malloc'' (t\<lparr>suppress_debug := False\<rparr>))
        = Some (talk ts (t\<lparr>suppress_debug := False\<rparr>))" by blast
    with t(1) show ?thesis by (auto simp: realloc_def Let_def)
  qed
  then show "req_ok sz \<longrightarrow> (\<exists>q t ts. malloc sz (s\<lparr>suppress_debug := True\<rparr>) = Some (q, t) \<and>
      realloc NULL sz s = Some (q, talk ts (t\<lparr>suppress_debug := False\<rparr>)))" by blast
  obtain t where t: "free p (s\<lparr>suppress_debug := True\<rparr>) = Some t" "heap_inv t (spec_free p bs)"
    using free_ok [OF inv] by blast
  then have "heap_inv (t\<lparr>suppress_debug := False\<rparr>) (spec_free p bs)" by simp
  from say_report [OF this] obtain ts where
    "print_debug_msg REALLOC_ID p NULL 0 0
      (say ''REALLOC: size is 0, calling free'' (t\<lparr>suppress_debug := False\<rparr>))
      = Some (talk ts (t\<lparr>suppress_debug := False\<rparr>))" by blast
  with t(1) show "p \<noteq> NULL \<longrightarrow> (\<exists>t ts. free p (s\<lparr>suppress_debug := True\<rparr>) = Some t \<and>
      realloc p 0 s = Some (NULL, talk ts (t\<lparr>suppress_debug := False\<rparr>)))"
    by (auto simp: realloc_def Let_def)
  show "p \<noteq> NULL \<and> sz \<noteq> 0 \<and> block_of p bs = None \<longrightarrow> (\<exists>ts. realloc p sz s = Some (NULL, talk ts s))"
  proof (intro impI)
    assume p: "p \<noteq> NULL \<and> sz \<noteq> 0 \<and> block_of p bs = None"
    obtain ts where fb: "findblock p s = Some (NULL, talk ts s)"
      using findblock_ok [of s bs p] assms p by (auto simp: heap_inv_def)
    have "heap_inv (talk ts s) bs" using assms by simp
    from say_report [OF this] obtain us where
      "print_debug_msg REALLOC_ID p NULL 0 sz (say ''REALLOC: block not found'' (talk ts s))
        = Some (talk us (talk ts s))" by blast
    with fb p show "\<exists>ts. realloc p sz s = Some (NULL, talk ts s)" by (auto simp: realloc_def)
  qed
qed

text \<open>realloc of NULL is malloc, and realloc to size zero is free, with the debug output of the
  inner call suppressed; a pointer outside every payload gives NULL and changes nothing.\<close>

theorem realloc_degenerate:
  assumes "heap_inv s bs"
  shows "(req_ok sz \<longrightarrow> (\<exists>q t ts. malloc sz (s\<lparr>suppress_debug := True\<rparr>) = Some (q, t) \<and>
      realloc NULL sz s = Some (q, talk ts (t\<lparr>suppress_debug := False\<rparr>)))) \<and>
    (p \<noteq> NULL \<longrightarrow> (\<exists>t ts. free p (s\<lparr>suppress_debug := True\<rparr>) = Some t \<and>
      realloc p 0 s = Some (NULL, talk ts (t\<lparr>suppress_debug := False\<rparr>)))) \<and>
    (p \<noteq> NULL \<and> sz \<noteq> 0 \<and> block_of p bs = None \<longrightarrow> (\<exists>ts. realloc p sz s = Some (NULL, talk ts s)))"
  using realloc_degenerate_cases(1) [OF assms, of sz] realloc_degenerate_cases(2) [OF assms, of p]
    realloc_degenerate_cases(3) [OF assms, of p sz] by blast

theorem realloc_degenerate_witness:
  "(\<exists>q t ts. malloc 8 (heap2\<lparr>suppress_debug := True\<rparr>) = Some (q, t) \<and>
      realloc NULL 8 heap2 = Some (q, talk ts (t\<lparr>suppress_debug := False\<rparr>))) \<and>
   (\<exists>ts. realloc 16 8 heap2 = Some (NULL, talk ts heap2))"
  using realloc_degenerate [OF heap2_inv, of 8 16]
  by (simp add: req_ok_def block_of_def payload_def)

section \<open>Requests close to the largest size\<close>

text \<open>\<open>round_up_16\<close> is the identity on multiples of 16 and the next multiple of 16 otherwise, for
  every size up to \<open>2 ^ 64 - 16\<close>; beyond that the addition wraps and the result is 0.\<close>

theorem round_up_16_exact:
  shows "if unat sz + 16 \<le> 2 ^ 64 then unat (round_up_16 sz) = (unat sz + 15) div 16 * 16
    else round_up_16 sz = 0"
proof (cases "unat sz + 16 \<le> 2 ^ 64")
  case True
  then show ?thesis by (simp add: unat_round_up_16)
next
  case False
  have "unat (sz + 15) = (unat sz + 15) mod 2 ^ 64" by (simp add: unat_word_ariths)
  also have "\<dots> < 16" using False unat_lt_64 [of sz] by (simp add: mod_if) linarith
  finally have "unat ((sz + 15) div 16) = 0" by (simp add: unat_div)
  then have "(sz + 15) div 16 = 0" by (simp only: unat_eq_0)
  with False show ?thesis by (simp only: round_up_16_def) simp
qed

text \<open>C29: because of that wrap a request of almost \<open>2 ^ 64\<close> bytes is granted: on a fresh heap
  \<open>malloc (2 ^ 64 - 1)\<close> returns a block of capacity zero whose payload pointer is the address of the
  next block's header.\<close>

theorem malloc_wraps:
  "\<exists>s'. malloc SIZE_MAX (heap0\<lparr>debug_malloc := False\<rparr>) = Some (4128, s') \<and>
    get_cap (heap_mem s') 4096 = 0 \<and> get_next (heap_mem s') 4096 = 4128"
proof -
  let ?h = "heap0\<lparr>debug_malloc := False\<rparr>"
  have r: "round_up_16 SIZE_MAX = 0" "SIZE_MAX \<noteq> 0" by (simp_all add: round_up_16_def SIZE_MAX_def)
  define s1 where "s1 = ?h\<lparr>brk_cur := 69632, heap_head := 4096,
    heap_mem := put_next 4096 NULL (put_free 4096 True (put_cap 4096 65504 (\<lambda>_. 0)))\<rparr>"
  have quiet: "custom_text msg s = []" if "\<not> debug_malloc s" for msg s using that by (simp add: custom_text_def)
  have "malloc_grow SIZE_MAX 32 NULL ?h = Some (4096, s1)"
    by (simp add: malloc_grow_def sbrk_def heap0_def Let_def quiet round_up_16_def s1_def poke_def)
  moreover have "malloc_search 0 NULL (heap_head ?h) ?h = Some (NULL, NULL, ?h)"
    by (subst malloc_search.simps) (simp add: heap0_def)
  moreover define s2 where "s2 = s1\<lparr>heap_mem := put_next 4096 4128 (put_next 4128 NULL (put_free 4128 True
    (put_cap 4128 65472 (put_cap 4096 0 (put_free 4096 False (put_next 4096 NULL (put_free 4096 True
    (put_cap 4096 65504 (\<lambda>_. 0)))))))))\<rparr>"
  have hdr: "get_free (heap_mem s2) 4096 = False" "get_free (heap_mem s2) 4128 = True"
    "get_next (heap_mem s2) 4096 = 4128" "get_next (heap_mem s2) 4128 = NULL" "get_cap (heap_mem s2) 4096 = 0"
    by (simp_all add: s2_def header_simps header_fits_def apart_def)
  have dbg: "\<not> debug_malloc s2" by (simp add: s2_def s1_def)
  have "merge_loop 4128 NULL s2 = Some s2"
    by (subst merge_loop.simps, subst merge_loop.simps) (simp add: hdr)
  then have "merge_loop 4096 NULL s2 = Some s2" by (subst merge_loop.simps) (simp add: hdr)
  then have "merge_free_nodes s2 = Some s2"
    using dbg by (simp add: merge_free_nodes_def quiet) (simp add: s2_def s1_def)
  moreover have "print_debug_msg MALLOC_ID NULL 4128 0 SIZE_MAX s2 = Some s2"
    using dbg by (simp add: print_debug_msg_def)
  moreover have "splitblock 4096 0 (poke (put_free 4096 False) s1) = merge_free_nodes s2 \<bind> (\<lambda>s. Some (4128, s))"
    by (simp add: splitblock_def poke_def s1_def s2_def header_simps header_fits_def apart_def quiet)
  ultimately have "malloc SIZE_MAX ?h = Some (4128, s2)"
    using dbg by (simp add: malloc_def r quiet)
  with hdr show ?thesis by blast
qed

lemma merge_loop_cycle:
  assumes "merge_loop c f s = Some s'" and "header_fits q" and "q \<noteq> NULL"
  shows "\<not> (c = q \<and> (f = NULL \<or> f = q) \<and> get_next (heap_mem s) q = q \<and> get_free (heap_mem s) q)"
proof (rule merge_loop.raw_induct [OF _ assms(1), where P = "\<lambda>c f s s'.
    \<not> (c = q \<and> (f = NULL \<or> f = q) \<and> get_next (heap_mem s) q = q \<and> get_free (heap_mem s) q)"], rule notI)
  fix loop :: "addr \<Rightarrow> addr \<Rightarrow> malloc_state \<Rightarrow> malloc_state option"
    and c f :: addr and s s' :: malloc_state
  let ?m = "put_next q q (put_cap q (get_cap (heap_mem s) q + (32 + get_cap (heap_mem s) q)) (heap_mem s))"
  assume IH: "\<And>c f s s'. loop c f s = Some s' \<Longrightarrow>
      \<not> (c = q \<and> (f = NULL \<or> f = q) \<and> get_next (heap_mem s) q = q \<and> get_free (heap_mem s) q)"
    and c: "c = q \<and> (f = NULL \<or> f = q) \<and> get_next (heap_mem s) q = q \<and> get_free (heap_mem s) q"
  have m: "get_next ?m q = q" "get_free ?m q" "get_next (put_cap q v (heap_mem s)) q = q" for v
    using c header_same [OF assms(2)] by simp_all
  assume "(if c = NULL then Some s
     else if f = NULL \<and> get_free (heap_mem s) c then loop (get_next (heap_mem s) c) c s
     else if f \<noteq> NULL \<and> get_free (heap_mem s) c
     then (let s = poke (put_cap f (get_cap (heap_mem s) f
                     + (header_size + get_cap (heap_mem s) c))) s;
               s = poke (put_next f (get_next (heap_mem s) c)) s; curr_block = f;
               s = say ''merged free nodes'' s
           in loop (get_next (heap_mem s) curr_block) f s)
     else if f \<noteq> NULL \<and> \<not> get_free (heap_mem s) c then loop (get_next (heap_mem s) c) NULL s
     else loop (get_next (heap_mem s) c) f s) = Some s'"
  with c assms(3) obtain t f' where "loop q f' t = Some s'" "f' = q"
      "get_next (heap_mem t) q = q" "get_free (heap_mem t) q"
    using m by (fastforce simp: Let_def split: if_splits)
  with IH show False by blast
qed

text \<open>C30: a request that rounds to \<open>2 ^ 64 - 32\<close> bytes never returns: the block size wraps to 0, the
  leftover block of the split is the block itself, and \<open>merge_free_nodes\<close> walks a cycle.\<close>

theorem malloc_diverges:
  "malloc (- 32) (heap0\<lparr>debug_malloc := False\<rparr>) = None"
proof -
  let ?h = "heap0\<lparr>debug_malloc := False\<rparr>"
  have r: "round_up_16 (- 32) = - 32" "(- 32 :: size_t) \<noteq> 0" by (simp_all add: round_up_16_def)
  define s1 where "s1 = ?h\<lparr>brk_cur := 69632, heap_head := 4096,
    heap_mem := put_next 4096 NULL (put_free 4096 True (put_cap 4096 65504 (\<lambda>_. 0)))\<rparr>"
  have quiet: "custom_text msg s = []" if "\<not> debug_malloc s" for msg s using that by (simp add: custom_text_def)
  have "malloc_grow (- 32) 0 NULL ?h = Some (4096, s1)"
    by (simp add: malloc_grow_def sbrk_def heap0_def Let_def quiet round_up_16_def s1_def poke_def)
  moreover have "malloc_search (- 32) NULL (heap_head ?h) ?h = Some (NULL, NULL, ?h)"
    by (subst malloc_search.simps) (simp add: heap0_def)
  moreover have "splitblock 4096 (- 32) (poke (put_free 4096 False) s1) = None"
  proof -
    define s2 where "s2 = s1\<lparr>heap_mem := put_next 4096 4096 (put_next 4096 NULL (put_free 4096 True
      (put_cap 4096 65504 (put_cap 4096 (- 32) (put_free 4096 False (heap_mem s1))))))\<rparr>"
    have dbg: "\<not> debug_malloc s2" by (simp add: s2_def s1_def)
    have "get_next (heap_mem s2) 4096 = 4096" "get_free (heap_mem s2) 4096"
      by (simp_all add: s2_def header_simps header_fits_def apart_def)
    then have "merge_loop 4096 NULL s2 = None"
      using merge_loop_cycle [of 4096 NULL s2 _ 4096] by (cases "merge_loop 4096 NULL s2") (auto simp: header_fits_def)
    then have "merge_free_nodes s2 = None"
      using dbg by (simp add: merge_free_nodes_def quiet) (simp add: s2_def s1_def)
    moreover have "splitblock 4096 (- 32) (poke (put_free 4096 False) s1) = merge_free_nodes s2 \<bind> (\<lambda>s. Some (4128, s))"
      by (simp add: splitblock_def poke_def s1_def s2_def header_simps header_fits_def apart_def quiet)
    ultimately show ?thesis by simp
  qed
  ultimately show ?thesis by (simp add: malloc_def r)
qed

end
