(* ===== verification/Malloc_Session.thy ===== *)
theory Malloc_Session
  imports Malloc_Realloc
begin

text \<open>
  Whole sessions of a client with the allocator of Asgn1/malloc.c: any interleaving of malloc,
  free, calloc, realloc and writes into allocated payloads, as a step relation. The client rules
  are those of the C library: no use of a block after it was freed.
\<close>

section \<open>Client actions\<close>

datatype client_call =
    Call_malloc size_t
  | Call_free addr
  | Call_calloc size_t size_t
  | Call_realloc addr size_t
  | Write_byte addr byte

fun perform :: "client_call \<Rightarrow> malloc_state \<Rightarrow> malloc_state option" where
  "perform (Call_malloc sz) s = map_option snd (malloc sz s)"
| "perform (Call_free p) s = free p s"
| "perform (Call_calloc nmemb sz) s = map_option snd (calloc nmemb sz s)"
| "perform (Call_realloc p sz) s = map_option snd (realloc p sz s)"
| "perform (Write_byte x v) s = Some (poke (\<lambda>m. m(x := v)) s)"

text \<open>The blocks the memory holds, read off the list of headers.\<close>

definition represents :: "malloc_state \<Rightarrow> block list \<Rightarrow> bool" where
  "represents s bs \<longleftrightarrow> heap_head s = first_addr bs \<and> chain_to (heap_mem s) bs NULL \<and>
     (\<forall>b \<in> set bs. b_addr b \<noteq> NULL)"

definition size_ok :: "nat \<Rightarrow> bool" where
  "size_ok n \<longleftrightarrow> n \<le> 2 ^ 63 - 64"

fun allowed :: "block list \<Rightarrow> client_call \<Rightarrow> bool" where
  "allowed bs (Call_malloc sz) \<longleftrightarrow> size_ok (unat sz)"
| "allowed bs (Call_free p) \<longleftrightarrow> True"
| "allowed bs (Call_calloc nmemb sz) \<longleftrightarrow>
     size_ok (unat nmemb * unat sz) \<or> 2 ^ 64 \<le> unat nmemb * unat sz"
| "allowed bs (Call_realloc p sz) \<longleftrightarrow>
     size_ok (unat sz) \<and> (\<forall>b \<in> set bs. b_free b \<longrightarrow> p \<notin> payload b)"
| "allowed bs (Write_byte x v) \<longleftrightarrow> x \<in> user_bytes bs"

inductive session :: "malloc_state \<Rightarrow> malloc_state \<Rightarrow> bool" for s0 where
  session_start: "session s0 s0"
| session_call: "session s0 s \<Longrightarrow> represents s bs \<Longrightarrow> allowed bs c \<Longrightarrow> perform c s = Some s' \<Longrightarrow>
    session s0 s'"

inductive_cases session_cases: "session s0 s"

lemma chain_unique:
  assumes "chain_to m bs NULL" and "chain_to m cs NULL" and "first_addr bs = first_addr cs"
    and "\<forall>b \<in> set bs. b_addr b \<noteq> NULL" and "\<forall>c \<in> set cs. b_addr c \<noteq> NULL"
  shows "bs = cs"
  using assms
proof (induction bs arbitrary: cs)
  case Nil
  then show ?case by (cases cs) auto
next
  case (Cons b bs)
  then obtain c cs' where cs: "cs = c # cs'" by (cases cs) auto
  then have same: "b_addr b = b_addr c" using Cons.prems(3) by simp
  have "b = c" using Cons.prems(1,2) cs same by (intro block.equality) simp_all
  moreover have "bs = cs'"
    using Cons.prems cs same by (intro Cons.IH) (simp_all split: if_splits)
  ultimately show ?case by (simp add: cs)
qed

lemma heap_inv_represents: "heap_inv s bs \<Longrightarrow> represents s bs"
  using block_start_not_null(2) by (auto simp: represents_def heap_inv_def placed_def)

lemma represents_unique: "represents s bs \<Longrightarrow> heap_inv s cs \<Longrightarrow> bs = cs"
  using chain_unique [of "heap_mem s" bs cs] heap_inv_represents [of s cs] by (simp add: represents_def)

section \<open>Every allowed call returns and keeps the heap well formed\<close>

lemma size_ok_cases: "size_ok (unat sz) \<longleftrightarrow> sz = 0 \<or> req_ok sz"
  by (auto simp: size_ok_def req_ok_def unat_gt_0)

lemma malloc_returns:
  assumes "heap_inv s bs" and "size_ok (unat sz)"
  shows "\<exists>q s' bs'. malloc sz s = Some (q, s') \<and> heap_inv s' bs'"
  using assms(2) malloc_effect [OF assms(1), of sz] malloc_zero_effect [OF assms(1)]
  unfolding size_ok_cases by blast

lemma calloc_returns:
  assumes "heap_inv s bs" and "size_ok (unat nmemb * unat sz) \<or> 2 ^ 64 \<le> unat nmemb * unat sz"
  shows "\<exists>q s' bs'. calloc nmemb sz s = Some (q, s') \<and> heap_inv s' bs'"
proof -
  consider (overflow) "2 ^ 64 \<le> unat nmemb * unat sz" | (zero) "unat nmemb * unat sz = 0"
    | (ok) "0 < unat nmemb * unat sz" "unat nmemb * unat sz \<le> 2 ^ 63 - 64"
    using assms(2) unfolding size_ok_def by linarith
  then show ?thesis
  proof cases
    case overflow
    then show ?thesis using calloc_overflow_effect [OF assms(1)] by blast
  next
    case ok
    then show ?thesis using calloc_effect [OF assms(1)] by blast
  next
    case zero
    then have prod: "nmemb * sz = 0" by (auto simp: unat_eq_zero)
    have no: "\<not> (sz \<noteq> 0 \<and> SIZE_MAX div sz < nmemb)" unfolding calloc_overflow_iff zero by simp
    have "heap_inv (s\<lparr>suppress_debug := True\<rparr>) bs" using assms(1) by simp
    from malloc_zero_effect [OF this] obtain t where
      t: "malloc 0 (s\<lparr>suppress_debug := True\<rparr>) = Some (NULL, t)" "heap_inv t bs" by blast
    then have u: "heap_inv (t\<lparr>suppress_debug := False\<rparr>) bs" by simp
    obtain ts where "print_debug_msg CALLOC_ID NULL NULL nmemb sz
      (say ''CALLOC: malloc failed'' (t\<lparr>suppress_debug := False\<rparr>)) = Some (talk ts (t\<lparr>suppress_debug := False\<rparr>))"
      using say_report [OF u] by blast
    then have "calloc nmemb sz s = Some (NULL, talk ts (t\<lparr>suppress_debug := False\<rparr>))"
      unfolding calloc_def if_not_P [OF no] prod Let_def using t(1) by simp
    with u show ?thesis by auto
  qed
qed

lemma realloc_returns:
  assumes inv: "heap_inv s bs" and sz: "size_ok (unat sz)"
    and live: "\<forall>b \<in> set bs. b_free b \<longrightarrow> p \<notin> payload b"
  shows "\<exists>q s' bs'. realloc p sz s = Some (q, s') \<and> heap_inv s' bs'"
proof -
  have quiet: "heap_inv (s\<lparr>suppress_debug := True\<rparr>) bs" using inv by simp
  consider (null) "p = NULL" | (zero) "p \<noteq> NULL" "sz = 0"
    | (unknown) "p \<noteq> NULL" "sz \<noteq> 0" "block_of p bs = None"
    | (block) b where "req_ok sz" "block_of p bs = Some b"
    using sz unfolding size_ok_cases by (cases "block_of p bs") auto
  then show ?thesis
  proof cases
    case null
    obtain q t bs' where t: "malloc sz (s\<lparr>suppress_debug := True\<rparr>) = Some (q, t)" "heap_inv t bs'"
      using malloc_returns [OF quiet sz] by blast
    then have u: "heap_inv (t\<lparr>suppress_debug := False\<rparr>) bs'" by simp
    obtain ts where "print_debug_msg REALLOC_ID NULL q 0 sz
        (say ''REALLOC: ptr is NULL, calling malloc'' (t\<lparr>suppress_debug := False\<rparr>))
        = Some (talk ts (t\<lparr>suppress_debug := False\<rparr>))" using say_report [OF u] by blast
    with t(1) u null show ?thesis by (auto simp: realloc_def Let_def)
  next
    case zero
    then obtain t ts where t: "free p (s\<lparr>suppress_debug := True\<rparr>) = Some t"
      "realloc p 0 s = Some (NULL, talk ts (t\<lparr>suppress_debug := False\<rparr>))"
      using realloc_degenerate_cases(2) [OF inv, of p] by blast
    then have "heap_inv t (spec_free p bs)" using free_ok [OF quiet, of p] by auto
    then show ?thesis using t(2) zero(2) by auto
  next
    case unknown
    then show ?thesis using realloc_degenerate_cases(3) [OF inv, of p sz] inv
      by (metis heap_inv_simps(1))
  next
    case block
    then have "b \<in> live bs" "p \<in> payload b" using block_of_SomeD live by (auto simp: live_def)
    then show ?thesis
      using realloc_resize_effect [OF inv _ _ block(1)] unfolding realloc_outcome_def by blast
  qed
qed

lemma write_byte_ok:
  assumes "heap_inv s bs" and "x \<in> user_bytes bs"
  shows "heap_inv (poke (\<lambda>m. m(x := v)) s) bs"
proof -
  obtain b where "b \<in> set bs" "x \<in> payload b" using assms(2) live_set by (auto simp: user_bytes_def)
  then show ?thesis
    using payload_write(1) [OF assms(1), of b "(heap_mem s)(x := v)"]
    by (intro heap_inv_poke) (auto simp: touches_def)
qed

lemma perform_ok:
  assumes "heap_inv s bs" and "allowed bs c"
  shows "\<exists>s' bs'. perform c s = Some s' \<and> heap_inv s' bs'"
proof (cases c)
  case (Call_malloc sz)
  then show ?thesis using malloc_returns [OF assms(1), of sz] assms(2) by auto
next
  case (Call_free p)
  then show ?thesis using free_ok [OF assms(1), of p] by auto
next
  case (Call_calloc nmemb sz)
  then show ?thesis using calloc_returns [OF assms(1), of nmemb sz] assms(2) by auto
next
  case (Call_realloc p sz)
  then show ?thesis using realloc_returns [OF assms(1), of sz p] assms(2) by auto
next
  case (Write_byte x v)
  then show ?thesis using write_byte_ok [OF assms(1), of x v] assms(2) by auto
qed

lemma session_inv:
  assumes "session s0 s" and "heap_inv s0 bs0"
  shows "\<exists>bs. heap_inv s bs"
  using assms
proof (induction rule: session.induct)
  case session_start
  then show ?case by blast
next
  case (session_call s bs c s')
  then obtain cs where cs: "heap_inv s cs" by blast
  then have "bs = cs" using represents_unique session_call.hyps(2) by blast
  then have "allowed cs c" using session_call.hyps(3) by simp
  from perform_ok [OF cs this] session_call.hyps(4) show ?case by (metis option.inject)
qed

text \<open>C5: in a session that starts on a well-formed heap (such as that of a fresh process) every
  reachable heap is well formed: the header list tiles the memory up to the break, sizes and
  addresses stay 16-aligned and no two free blocks are neighbours, whatever the client's sequence
  of malloc, free (of any pointer), calloc, realloc and writes into its own payloads.\<close>

theorem session_well_formed:
  assumes "session s0 s" and "heap_inv s0 bs0"
  shows "\<exists>bs. heap_inv s bs"
  using session_inv [OF assms] .

theorem session_well_formed_witness:
  "\<exists>q s. malloc 100 heap2 = Some (q, s) \<and> (\<exists>bs. heap_inv s bs)"
proof -
  obtain q s where m: "malloc 100 heap2 = Some (q, s)"
    using malloc_returns [OF heap2_inv, of 100] by (auto simp: size_ok_def)
  have "session heap2 s"
    by (rule session_call [OF session_start heap_inv_represents [OF heap2_inv], of "Call_malloc 100"])
      (simp_all add: m size_ok_def)
  from session_well_formed [OF this heap2_inv] m show ?thesis by auto
qed

text \<open>C6: and in every reachable heap every allowed call returns: none of the list walks can loop.\<close>

theorem session_calls_return:
  assumes "session s0 s" and "heap_inv s0 bs0" and "represents s bs" and "allowed bs c"
  shows "\<exists>s'. perform c s = Some s'"
proof -
  obtain cs where cs: "heap_inv s cs" using session_inv [OF assms(1,2)] by blast
  with perform_ok represents_unique [OF assms(3) cs] assms(4) show ?thesis by blast
qed

theorem session_calls_return_witness:
  "\<exists>s'. perform (Call_realloc 4128 500) heap2 = Some s'"
  by (rule session_calls_return [OF session_start heap2_inv heap_inv_represents [OF heap2_inv]])
    (simp add: size_ok_def payload_def)

end
