(* ===== verification/Secret_Model.thy ===== *)
theory Secret_Model
  imports Prelude
begin

text \<open>
  The MINIX driver of Asgn4/secret.c: the device keeps one secret of at most 8192 bytes in a
  buffer, an owner, a count of open descriptors and a flag that somebody opened it for reading.
  The kernel (credentials, safe copies between address spaces) and the data store server used
  during a live update are arguments of the definitions that call them. C \<open>int\<close> fields are
  mathematical integers, converted at 32 bits where the code converts them (the unsigned
  comparisons of \<open>secret_transfer\<close>, the data store's \<open>u32\<close> values). \<open>DEBUG_ENABLED\<close> is 0 in
  secret.h, so the prints are left out.
\<close>

section \<open>State and constants\<close>

record secret_state =
  open_counter :: int
  secret_owner :: int
  has_owner :: bool
  secret_buf :: "byte list"
  secret_len :: int
  read_offset :: int
  read_fd_opened :: bool

definition SECRET_SIZE :: int where "SECRET_SIZE = 8192"

text \<open>The reply codes of the MINIX headers, which are negative inside drivers.\<close>

definition OK :: int where "OK = 0"
definition EACCES :: int where "EACCES = - 13"
definition EINVAL :: int where "EINVAL = - 22"
definition ENOTTY :: int where "ENOTTY = - 25"
definition ENOSPC :: int where "ENOSPC = - 28"

definition R_BIT :: u32 where "R_BIT = 4"
definition W_BIT :: u32 where "W_BIT = 2"

unbundle bit_operations_syntax

section \<open>The driver's operations\<close>

definition reset_secret_state :: "secret_state \<Rightarrow> secret_state" where
  "reset_secret_state s = \<lparr>open_counter = 0, secret_owner = 0, has_owner = False,
     secret_buf = replicate (nat SECRET_SIZE) 0, secret_len = 0, read_offset = 0,
     read_fd_opened = False\<rparr>"

definition secret_name :: string where "secret_name = ''secret''"

text \<open>\<open>getnucred\<close> gives a code, negative on failure, and the user id of an endpoint's process.\<close>

definition secret_open ::
  "(int \<Rightarrow> int \<times> int) \<Rightarrow> u32 \<Rightarrow> int \<Rightarrow> secret_state \<Rightarrow> int \<times> secret_state" where
  "secret_open getnucred mode endpoint s =
    (if mode AND R_BIT \<noteq> 0 \<and> mode AND W_BIT \<noteq> 0 then (EACCES, s)
     else if \<not> (mode AND R_BIT \<noteq> 0 \<or> mode AND W_BIT \<noteq> 0) then (EACCES, s)
     else let (ret, caller_uid) = getnucred endpoint in
       if ret < 0 then (ret, s)
       else if has_owner s \<and> mode AND W_BIT \<noteq> 0 then (ENOSPC, s)
       else if has_owner s \<and> mode AND R_BIT \<noteq> 0 \<and> caller_uid \<noteq> secret_owner s then (EACCES, s)
       else let s = (if \<not> has_owner s then s\<lparr>has_owner := True, secret_owner := caller_uid\<rparr> else s);
                s = s\<lparr>open_counter := open_counter s + 1\<rparr>;
                s = (if mode AND R_BIT \<noteq> 0 then s\<lparr>read_fd_opened := True\<rparr> else s)
            in (OK, s))"

definition secret_close :: "secret_state \<Rightarrow> int \<times> secret_state" where
  "secret_close s =
    (let s = (if open_counter s > 0 then s\<lparr>open_counter := open_counter s - 1\<rparr> else s);
         s = (if open_counter s = 0 \<and> read_fd_opened s then reset_secret_state s else s)
     in (OK, s))"

text \<open>\<open>copy_grantee\<close>: the code of \<open>sys_safecopyfrom\<close> and the user id copied from the caller.\<close>

definition secret_ioctl :: "int \<Rightarrow> int \<times> int \<Rightarrow> int \<Rightarrow> secret_state \<Rightarrow> int \<times> secret_state" where
  "secret_ioctl SSGRANT copy_grantee request s =
    (if request \<noteq> SSGRANT then (ENOTTY, s)
     else let (ret, grantee) = copy_grantee in
       (ret, if ret = OK then s\<lparr>secret_owner := grantee\<rparr> else s))"

record device =
  dv_base :: "u32 \<times> u32"
  dv_size :: "u32 \<times> u32"

text \<open>The pairs are the \<open>lo\<close> and \<open>hi\<close> halves of a \<open>u64_t\<close>.\<close>

definition secret_prepare :: "device \<Rightarrow> device" where
  "secret_prepare d = d\<lparr>dv_base := (0, 0), dv_size := (word_of_int SECRET_SIZE, 0)\<rparr>"

record partition =
  cylinders :: int
  heads :: int
  sectors :: int

definition secret_geometry :: "partition \<Rightarrow> partition" where
  "secret_geometry e = e\<lparr>cylinders := 0, heads := 0, sectors := 0\<rparr>"

datatype opcode = DEV_GATHER_S | DEV_SCATTER_S | Other_opcode

text \<open>
  C converts the \<open>int\<close> to the unsigned type of \<open>iov_size\<close> for the comparison and the conditional
  expression, and the result back to \<open>int\<close>.
\<close>

definition min_unsigned :: "int \<Rightarrow> u32 \<Rightarrow> int" where
  "min_unsigned n iov_size = sint (if word_of_int n < iov_size then word_of_int n else iov_size)"

definition overwrite :: "int \<Rightarrow> byte list \<Rightarrow> byte list \<Rightarrow> byte list" where
  "overwrite off data buf = take (nat off) buf @ data @ drop (nat off + length data) buf"

text \<open>
  The safe copies are arguments: \<open>copyto off k\<close> is the code of copying \<open>k\<close> bytes from \<open>secret_buf + off\<close>
  to the caller, \<open>copyfrom off k\<close> the code of copying \<open>k\<close> bytes from the caller to \<open>secret_buf + off\<close>,
  with the bytes that arrived there. The result is the code, the remaining \<open>iov_size\<close>, the bytes copied
  to the caller and the state.
\<close>

definition secret_transfer ::
  "(int \<Rightarrow> int \<Rightarrow> int) \<Rightarrow> (int \<Rightarrow> int \<Rightarrow> int \<times> byte list) \<Rightarrow> opcode \<Rightarrow> u32 \<Rightarrow> secret_state \<Rightarrow>
    int \<times> u32 \<times> byte list \<times> secret_state" where
  "secret_transfer copyto copyfrom opcode iov_size s =
    (case opcode of
       DEV_GATHER_S \<Rightarrow>
         (let bytes = min_unsigned (secret_len s - read_offset s) iov_size in
          if bytes \<le> 0 then (OK, iov_size, [], s)
          else let out = take (nat bytes) (drop (nat (read_offset s)) (secret_buf s));
                   ret = copyto (read_offset s) bytes
               in if ret = OK
                  then (ret, iov_size - word_of_int bytes, out,
                    s\<lparr>read_offset := read_offset s + bytes\<rparr>)
                  else (ret, iov_size, [], s))
     | DEV_SCATTER_S \<Rightarrow>
         (if iov_size = 0 then (OK, iov_size, [], s)
          else let space_remaining = SECRET_SIZE - secret_len s in
            if space_remaining \<le> 0 then (ENOSPC, iov_size, [], s)
            else let bytes = min_unsigned space_remaining iov_size;
                     (ret, data) = copyfrom (secret_len s) bytes;
                     s = s\<lparr>secret_buf := overwrite (secret_len s) data (secret_buf s)\<rparr>
                 in if ret = OK
                    then (ret, iov_size - word_of_int bytes, [],
                      s\<lparr>secret_len := secret_len s + bytes\<rparr>)
                    else (ret, iov_size, [], s))
     | Other_opcode \<Rightarrow> (EINVAL, iov_size, [], s))"

section \<open>Live update\<close>

text \<open>The calls of the data store server (\<open>ds.h\<close>) the driver uses.\<close>

record 'ds ds_service =
  ds_publish_u32 :: "string \<Rightarrow> u32 \<Rightarrow> 'ds \<Rightarrow> int \<times> 'ds"
  ds_publish_mem :: "string \<Rightarrow> byte list \<Rightarrow> 'ds \<Rightarrow> int \<times> 'ds"
  ds_retrieve_u32 :: "string \<Rightarrow> 'ds \<Rightarrow> int \<times> u32"
  ds_retrieve_mem :: "string \<Rightarrow> nat \<Rightarrow> 'ds \<Rightarrow> int \<times> byte list"
  ds_delete_u32 :: "string \<Rightarrow> 'ds \<Rightarrow> int \<times> 'ds"
  ds_delete_mem :: "string \<Rightarrow> 'ds \<Rightarrow> int \<times> 'ds"

definition if_ok :: "int \<times> 'ds \<Rightarrow> ('ds \<Rightarrow> int \<times> 'ds) \<Rightarrow> int \<times> 'ds" where
  "if_ok r k = (case r of (ret, d) \<Rightarrow> if ret \<noteq> OK then (ret, d) else k d)"

definition u32_of_bool :: "bool \<Rightarrow> u32" where
  "u32_of_bool b = (if b then 1 else 0)"

definition sef_cb_lu_state_save :: "'ds ds_service \<Rightarrow> secret_state \<Rightarrow> 'ds \<Rightarrow> int \<times> 'ds" where
  "sef_cb_lu_state_save D s d =
    if_ok (ds_publish_u32 D ''open_counter'' (word_of_int (open_counter s)) d) (\<lambda>d.
    if_ok (ds_publish_mem D ''secret_buf'' (secret_buf s) d) (\<lambda>d.
    if_ok (ds_publish_u32 D ''secret_len'' (word_of_int (secret_len s)) d) (\<lambda>d.
    if_ok (ds_publish_u32 D ''read_offset'' (word_of_int (read_offset s)) d) (\<lambda>d.
    if_ok (ds_publish_u32 D ''secret_owner'' (word_of_int (secret_owner s)) d) (\<lambda>d.
    if_ok (ds_publish_u32 D ''has_owner'' (u32_of_bool (has_owner s)) d) (\<lambda>d.
    if_ok (ds_publish_u32 D ''read_fd_opened'' (u32_of_bool (read_fd_opened s)) d) (\<lambda>d.
    (OK, d))))))))"

text \<open>One field: retrieve it, store it in the state, delete it; the first failure is returned.\<close>

definition restore_u32 ::
  "'ds ds_service \<Rightarrow> string \<Rightarrow> (u32 \<Rightarrow> secret_state \<Rightarrow> secret_state) \<Rightarrow>
    (secret_state \<Rightarrow> 'ds \<Rightarrow> int \<times> secret_state \<times> 'ds) \<Rightarrow> secret_state \<Rightarrow> 'ds \<Rightarrow> int \<times> secret_state \<times> 'ds"
  where
  "restore_u32 D key set_field k s d =
    (let (ret, value) = ds_retrieve_u32 D key d in
     if ret \<noteq> OK then (ret, s, d)
     else let s = set_field value s; (ret, d) = ds_delete_u32 D key d in
       if ret \<noteq> OK then (ret, s, d) else k s d)"

definition restore_mem ::
  "'ds ds_service \<Rightarrow> string \<Rightarrow> (secret_state \<Rightarrow> 'ds \<Rightarrow> int \<times> secret_state \<times> 'ds) \<Rightarrow>
    secret_state \<Rightarrow> 'ds \<Rightarrow> int \<times> secret_state \<times> 'ds" where
  "restore_mem D key k s d =
    (let (ret, data) = ds_retrieve_mem D key (length (secret_buf s)) d;
         s = s\<lparr>secret_buf := overwrite 0 data (secret_buf s)\<rparr> in
     if ret \<noteq> OK then (ret, s, d)
     else let (ret, d) = ds_delete_mem D key d in
       if ret \<noteq> OK then (ret, s, d) else k s d)"

definition lu_state_restore ::
  "'ds ds_service \<Rightarrow> secret_state \<Rightarrow> 'ds \<Rightarrow> int \<times> secret_state \<times> 'ds" where
  "lu_state_restore D =
    restore_u32 D ''open_counter'' (\<lambda>v s. s\<lparr>open_counter := sint v\<rparr>) (
    restore_mem D ''secret_buf'' (
    restore_u32 D ''secret_len'' (\<lambda>v s. s\<lparr>secret_len := sint v\<rparr>) (
    restore_u32 D ''read_offset'' (\<lambda>v s. s\<lparr>read_offset := sint v\<rparr>) (
    restore_u32 D ''secret_owner'' (\<lambda>v s. s\<lparr>secret_owner := sint v\<rparr>) (
    restore_u32 D ''has_owner'' (\<lambda>v s. s\<lparr>has_owner := v \<noteq> 0\<rparr>) (
    restore_u32 D ''read_fd_opened'' (\<lambda>v s. s\<lparr>read_fd_opened := v \<noteq> 0\<rparr>) (
    \<lambda>s d. (OK, s, d))))))))"

datatype init_type = SEF_INIT_FRESH | SEF_INIT_LU | SEF_INIT_RESTART | Other_init

text \<open>The result: the code, whether the driver was announced, the state and the data store.\<close>

definition sef_cb_init ::
  "'ds ds_service \<Rightarrow> init_type \<Rightarrow> secret_state \<Rightarrow> 'ds \<Rightarrow> int \<times> bool \<times> secret_state \<times> 'ds" where
  "sef_cb_init D ty s d =
    (case ty of
       SEF_INIT_FRESH \<Rightarrow> (OK, True, reset_secret_state s, d)
     | SEF_INIT_LU \<Rightarrow> (let (ret, s, d) = lu_state_restore D s d in (ret, False, s, d))
     | SEF_INIT_RESTART \<Rightarrow> (OK, True, reset_secret_state s, d)
     | Other_init \<Rightarrow> (OK, True, s, d))"

end
