(* ===== verification/Grant_Model.thy ===== *)
theory Grant_Model
  imports Secret_Model Libc
begin

text \<open>
  The program Asgn4/grant_secret.c on top of the driver: its system calls reach the driver's entries. What
  lies between, the file server, is known by its documentation: it answers a failed call with \<open>-1\<close>, a write with
  the number of bytes the driver took, and passes \<open>O_WRONLY\<close> on as the write bit. The conversion of an \<open>int\<close> to
  \<open>uid_t\<close> is an argument, as are the caller's credentials and the codes of the kernel's copies.
\<close>

section \<open>System calls on the device\<close>

record minix =
  cred :: "int \<Rightarrow> int \<times> int"
  endpt :: int
  free_fd :: int
  write_copy :: int
  ioctl_copy :: int
  uid_t_of :: "int \<Rightarrow> int"
  SSGRANT :: int

text \<open>\<open>free_fd\<close> is the descriptor that the file server has free, or negative.\<close>

definition sys_open :: "minix \<Rightarrow> u32 \<Rightarrow> secret_state \<Rightarrow> int \<times> secret_state" where
  "sys_open M mode s =
    (if free_fd M < 0 then (- 1, s)
     else let (ret, s) = secret_open (cred M) mode (endpt M) s in (if ret = OK then free_fd M else - 1, s))"

definition sys_write :: "minix \<Rightarrow> byte list \<Rightarrow> secret_state \<Rightarrow> int \<times> secret_state" where
  "sys_write M buf s =
    (let (ret, left, _, s) = secret_transfer (\<lambda>_ _. OK)
           (\<lambda>_ k. (write_copy M, if write_copy M = OK then take (nat k) buf else [])) DEV_SCATTER_S (of_nat (length buf)) s
     in (if ret = OK then int (length buf) - uint left else - 1, s))"

definition sys_ioctl :: "minix \<Rightarrow> int \<Rightarrow> int \<Rightarrow> secret_state \<Rightarrow> int \<times> secret_state" where
  "sys_ioctl M request uid s =
    (let (ret, s) = secret_ioctl (SSGRANT M) (ioctl_copy M, uid) request s in (if ret = OK then 0 else - 1, s))"

definition sys_close :: "secret_state \<Rightarrow> int \<times> secret_state" where
  "sys_close s = (let (ret, s) = secret_close s in (if ret = OK then 0 else - 1, s))"

section \<open>The program\<close>

definition nl :: string where "nl = [CHR 0x0A]"

definition msg :: string where "msg = ''Hello, world'' @ nl"

definition msg_bytes :: "byte list" where "msg_bytes = map of_char msg"

text \<open>The exit code, what is printed on stdout, and the state of the device.\<close>

definition grant_secret :: "minix \<Rightarrow> string list \<Rightarrow> secret_state \<Rightarrow> int \<times> string \<times> secret_state" where
  "grant_secret M argv s =
    (let (fd, s) = sys_open M W_BIT s;
         out = ''Opening... fd='' @ fmt_d fd @ nl
     in if fd < 0 then (1, out, s)
        else let (res, s) = sys_write M msg_bytes s;
                 out = out @ ''Writing... res='' @ fmt_d res @ nl
        in if res < 0 then let (_, s) = sys_close s in (1, out, s)
           else let uid = uid_t_of M (atoi (argv ! 1));
                    (out, s) = (if length argv > 1 \<and> 0 \<noteq> uid
                      then let (res, s) = sys_ioctl M (SSGRANT M) uid s
                           in (out @ ''Trying to change owner to '' @ fmt_d uid @ ''...res='' @ fmt_d res @ nl, s)
                      else (out, s));
                    (res, s) = sys_close s;
                    out = out @ ''Closing... res='' @ fmt_d res @ nl
           in (if res < 0 then 1 else 0, out, s))"

end
