(* ===== verification/Secret_Props.thy ===== *)
theory Secret_Props
  imports Secret_Model "HOL-Library.Sublist"
begin

text \<open>
  What the driver of Asgn4/secret.c promises: the offsets stay inside the buffer, a reader gets
  exactly the bytes written since the last reset in order, only the owner opens for reading, and
  a live update loses nothing. The contract is an abstract vault (an optional owner, the bytes
  written, how many were read, the open descriptors) that every run of the driver implements.
\<close>

section \<open>The invariant\<close>

definition secret_inv :: "secret_state \<Rightarrow> bool" where
  "secret_inv s \<longleftrightarrow> length (secret_buf s) = nat SECRET_SIZE \<and> 0 \<le> read_offset s \<and>
     read_offset s \<le> secret_len s \<and> secret_len s \<le> SECRET_SIZE \<and> 0 \<le> open_counter s \<and>
     (\<not> has_owner s \<longrightarrow> open_counter s = 0 \<and> secret_len s = 0) \<and>
     (read_fd_opened s \<longrightarrow> 0 < open_counter s)"

definition content :: "secret_state \<Rightarrow> byte list" where
  "content s = take (nat (secret_len s)) (secret_buf s)"

lemmas reply_defs = OK_def EACCES_def EINVAL_def ENOTTY_def ENOSPC_def

lemma SECRET_SIZE_eq [simp]: "SECRET_SIZE = 8192"
  by (simp add: SECRET_SIZE_def)

lemma reset_inv: "secret_inv (reset_secret_state s)"
  by (simp add: secret_inv_def reset_secret_state_def)

lemma length_content: "secret_inv s \<Longrightarrow> length (content s) = nat (secret_len s)"
  by (auto simp: secret_inv_def content_def)

lemma min_unsigned_eq:
  assumes "0 \<le> n" and "n \<le> 8192"
  shows "min_unsigned n w = min n (uint w)"
proof -
  have n: "uint (word_of_int n :: u32) = n" using assms by (simp add: uint_word_of_int_eq take_bit_int_eq_self)
  then have lt: "word_of_int n < w \<longleftrightarrow> n < uint w" by (simp add: word_less_def)
  define v where "v = (if word_of_int n < w then word_of_int n else w)"
  have "uint v = min n (uint w)" using n lt by (auto simp: v_def min_def)
  moreover from this have "uint v < 2 ^ 31" using assms(2) by simp
  moreover have "- (2 ^ 31) \<le> uint v" using uint_ge_0 [of v] by (rule order_trans [rotated]) simp
  ultimately have "uint v = min n (uint w)" "sint v = uint v"
    using signed_take_bit_int_eq_self [of 31 "uint v"] by (simp_all add: sint_uint)
  then show ?thesis by (simp add: min_unsigned_def v_def)
qed

lemma unat_diff_word_of_int:
  fixes n :: u32
  assumes "0 \<le> k" and "k \<le> uint n"
  shows "unat (n - word_of_int k) = unat n - nat k" and "nat k \<le> unat n"
proof -
  have "k < 2 ^ 32" using assms(2) uint_lt2p [of n] by simp
  then have "unat (word_of_int k :: u32) = nat k" using assms(1) by (simp add: unsigned_of_int take_bit_int_eq_self)
  moreover show "nat k \<le> unat n" using nat_mono [OF assms(2)] by simp
  ultimately show "unat (n - word_of_int k) = unat n - nat k" by (simp add: unat_diff_fits)
qed

section \<open>The abstract vault\<close>

record vault =
  v_owner :: "int option"
  v_written :: "byte list"
  v_read :: nat
  v_opens :: nat
  v_reading :: bool

definition empty_vault :: vault where
  "empty_vault = \<lparr>v_owner = None, v_written = [], v_read = 0, v_opens = 0, v_reading = False\<rparr>"

text \<open>What a client sees of a call: who opened and how, what was granted, which bytes moved.\<close>

datatype event =
    Opened int bool
  | Open_refused
  | Closed
  | Granted int
  | Delivered "byte list"
  | Stored "byte list"
  | No_effect

definition vault_owner_after :: "int \<Rightarrow> int option \<Rightarrow> int option" where
  "vault_owner_after uid w = (case w of None \<Rightarrow> Some uid | Some u \<Rightarrow> Some u)"

fun vault_step :: "event \<Rightarrow> vault \<Rightarrow> vault" where
  "vault_step (Opened uid reading) v = v\<lparr>v_owner := vault_owner_after uid (v_owner v),
     v_opens := v_opens v + 1, v_reading := v_reading v \<or> reading\<rparr>"
| "vault_step Open_refused v = v"
| "vault_step Closed v =
     (if v_opens v \<le> 1 \<and> v_reading v then empty_vault else v\<lparr>v_opens := v_opens v - 1\<rparr>)"
| "vault_step (Granted uid) v = v\<lparr>v_owner := map_option (\<lambda>_. uid) (v_owner v)\<rparr>"
| "vault_step (Delivered bs) v = v\<lparr>v_read := v_read v + length bs\<rparr>"
| "vault_step (Stored bs) v = v\<lparr>v_written := v_written v @ bs\<rparr>"
| "vault_step No_effect v = v"

definition abs_vault :: "secret_state \<Rightarrow> vault" where
  "abs_vault s = \<lparr>v_owner = (if has_owner s then Some (secret_owner s) else None),
     v_written = content s, v_read = nat (read_offset s), v_opens = nat (open_counter s),
     v_reading = read_fd_opened s\<rparr>"

section \<open>Runs of the driver\<close>

text \<open>
  One call of the driver with the event it amounts to. Reads, writes, grants and closes come through
  a descriptor, so the file system sends them only while one is open. A writer passes a message \<open>data\<close> of
  \<open>iov_size\<close> bytes; it is told that as many bytes of it were stored as \<open>iov_size\<close> has shrunk. The kernel
  copies what is asked for from the beginning of the message, or fails after at most that many bytes.
\<close>

definition copies_from :: "byte list \<Rightarrow> (int \<Rightarrow> int \<Rightarrow> int \<times> byte list) \<Rightarrow> bool" where
  "copies_from data copyfrom \<longleftrightarrow> (\<forall>off k ret bs. 0 \<le> k \<longrightarrow> nat k \<le> length data \<longrightarrow> copyfrom off k = (ret, bs) \<longrightarrow>
     (if ret = OK then bs = take (nat k) data else length bs \<le> nat k))"

inductive driver_call :: "secret_state \<Rightarrow> event \<Rightarrow> secret_state \<Rightarrow> bool" where
  call_open: "secret_open cred mode ep s = (ret, s') \<Longrightarrow>
    driver_call s (if ret = OK then Opened (snd (cred ep)) (mode AND R_BIT \<noteq> 0) else Open_refused) s'"
| call_close: "open_counter s > 0 \<Longrightarrow> secret_close s = (ret, s') \<Longrightarrow> driver_call s Closed s'"
| call_ioctl: "open_counter s > 0 \<Longrightarrow> secret_ioctl SSGRANT copied request s = (ret, s') \<Longrightarrow>
    driver_call s (if ret = OK then Granted (snd copied) else No_effect) s'"
| call_read: "open_counter s > 0 \<Longrightarrow>
    secret_transfer copyto copyfrom DEV_GATHER_S n s = (ret, n', out, s') \<Longrightarrow>
    driver_call s (Delivered out) s'"
| call_write: "open_counter s > 0 \<Longrightarrow>
    length data = unat n \<Longrightarrow> copies_from data copyfrom \<Longrightarrow>
    secret_transfer copyto copyfrom DEV_SCATTER_S n s = (ret, n', out, s') \<Longrightarrow>
    driver_call s (Stored (take (unat n - unat n') data)) s'"

inductive driver_run :: "secret_state \<Rightarrow> event list \<Rightarrow> secret_state \<Rightarrow> bool" where
  run_start: "driver_run (reset_secret_state s) [] (reset_secret_state s)"
| run_call: "driver_run s0 tr s \<Longrightarrow> driver_call s e s' \<Longrightarrow> driver_run s0 (tr @ [e]) s'"

inductive_cases driver_call_cases: "driver_call s e s'"

definition refines :: "secret_state \<Rightarrow> event \<Rightarrow> secret_state \<Rightarrow> bool" where
  "refines s e s' \<longleftrightarrow> secret_inv s' \<and> abs_vault s' = vault_step e (abs_vault s)"

lemma open_refines:
  assumes "secret_inv s" and "secret_open cred mode ep s = (ret, s')"
  shows "refines s (if ret = OK then Opened (snd (cred ep)) (mode AND R_BIT \<noteq> 0) else Open_refused) s'"
  using assms
  by (auto simp: secret_open_def refines_def secret_inv_def abs_vault_def content_def reply_defs
      vault_owner_after_def Let_def nat_add_distrib split: if_splits prod.splits)

lemma close_refines:
  assumes "secret_inv s" and "secret_close s = (ret, s')"
  shows "refines s Closed s'"
  using assms
  by (auto simp: secret_close_def refines_def secret_inv_def abs_vault_def content_def empty_vault_def
      reset_secret_state_def Let_def nat_diff_distrib split: if_splits)

lemma ioctl_refines:
  assumes "secret_inv s" and "secret_ioctl g copied request s = (ret, s')"
  shows "refines s (if ret = OK then Granted (snd copied) else No_effect) s'"
  using assms
  by (auto simp: secret_ioctl_def refines_def secret_inv_def abs_vault_def content_def reply_defs
      Let_def split: if_splits prod.splits)

text \<open>A read: the code, the bytes and the state, in terms of the content.\<close>

lemma gather_cases:
  assumes "secret_inv s"
    and "secret_transfer copyto copyfrom DEV_GATHER_S n s = (ret, n', out, s')"
  shows "out = [] \<and> s' = s \<and> n' = n \<or>
    (ret = OK \<and> out = take (unat n) (drop (nat (read_offset s)) (content s)) \<and>
     s' = s\<lparr>read_offset := read_offset s + int (length out)\<rparr> \<and>
     unat n' = unat n - length out \<and> copyto (read_offset s) (int (length out)) = OK)"
proof -
  define k where "k = min_unsigned (secret_len s - read_offset s) n"
  have k: "k = min (secret_len s - read_offset s) (uint n)"
    unfolding k_def using assms(1) by (intro min_unsigned_eq) (auto simp: secret_inv_def)
  define o' where "o' = take (nat k) (drop (nat (read_offset s)) (secret_buf s))"
  show ?thesis
  proof (cases "k \<le> 0 \<or> copyto (read_offset s) k \<noteq> OK")
    case True
    then show ?thesis
      using assms(2) by (auto simp: secret_transfer_def Let_def simp flip: k_def o'_def split: if_splits)
  next
    case False
    then have res: "ret = OK" "out = o'" "s' = s\<lparr>read_offset := read_offset s + k\<rparr>"
      "n' = n - word_of_int k" "copyto (read_offset s) k = OK"
      using assms(2) by (auto simp: secret_transfer_def Let_def simp flip: k_def o'_def split: if_splits)
    have nk: "nat k = min (nat (secret_len s - read_offset s)) (unat n)"
      using nat_mono [of "secret_len s - read_offset s" "uint n"]
        nat_mono [of "uint n" "secret_len s - read_offset s"] unfolding k
      by (cases "secret_len s - read_offset s \<le> uint n") (simp_all add: min_absorb1 min_absorb2)
    have len: "length o' = nat k"
      using assms(1) k False by (auto simp: o'_def secret_inv_def)
    have "o' = take (unat n) (drop (nat (read_offset s)) (content s))"
    proof -
      have "nat (secret_len s - read_offset s) = nat (secret_len s) - nat (read_offset s)"
        using assms(1) by (simp add: secret_inv_def nat_diff_distrib)
      then show ?thesis by (simp only: o'_def content_def nk drop_take take_take min.commute)
    qed
    moreover have "unat n' = unat n - nat k"
    proof -
      have "0 \<le> k" using False by simp
      moreover have "k \<le> uint n" using k by simp
      ultimately show ?thesis unfolding res(4) by (rule unat_diff_word_of_int)
    qed
    ultimately show ?thesis using res len False by simp
  qed
qed

lemma read_refines:
  assumes "secret_inv s"
    and "secret_transfer copyto copyfrom DEV_GATHER_S n s = (ret, n', out, s')"
  shows "refines s (Delivered out) s'"
  using gather_cases [OF assms]
proof (elim disjE conjE)
  assume "out = []" "s' = s"
  then show ?thesis using assms(1) by (simp add: refines_def abs_vault_def)
next
  assume s': "s' = s\<lparr>read_offset := read_offset s + int (length out)\<rparr>"
    and out: "out = take (unat n) (drop (nat (read_offset s)) (content s))"
  have "length out \<le> nat (secret_len s) - nat (read_offset s)"
    using length_content [OF assms(1)] by (simp add: out)
  then have "read_offset s + int (length out) \<le> secret_len s"
    using assms(1) by (auto simp: secret_inv_def)
  then show ?thesis using assms(1) s'
    by (auto simp: refines_def secret_inv_def abs_vault_def content_def nat_add_distrib)
qed

lemma overwrite_props:
  assumes "length buf = 8192" and "0 \<le> off" and "nat off + length data \<le> 8192"
  shows "length (overwrite off data buf) = 8192"
    and "take (nat off) (overwrite off data buf) = take (nat off) buf"
    and "take (nat off + length data) (overwrite off data buf) = take (nat off) buf @ data"
  using assms by (auto simp: overwrite_def)

text \<open>A write: how many bytes it asks for, and what they do to the content.\<close>

lemma scatter_cases:
  assumes inv: "secret_inv s" and opened: "0 < open_counter s"
    and res: "secret_transfer copyto copyfrom DEV_SCATTER_S n s = (ret, n', out, s')"
    and cf: "copyfrom (secret_len s) k = (r, data)"
    and copy: "length data \<le> nat k" "r = OK \<longrightarrow> length data = nat k"
    and k: "k = min (SECRET_SIZE - secret_len s) (uint n)"
  shows "out = [] \<and> secret_inv s' \<and> secret_owner s' = secret_owner s \<and> has_owner s' = has_owner s \<and>
    open_counter s' = open_counter s \<and> read_offset s' = read_offset s \<and>
    read_fd_opened s' = read_fd_opened s \<and>
    (if n = 0 then ret = OK \<and> s' = s \<and> n' = n
     else if secret_len s = SECRET_SIZE then ret = ENOSPC \<and> s' = s \<and> n' = n
     else ret = r \<and>
       (if ret = OK then content s' = content s @ data \<and> unat n' = unat n - nat k \<and> nat k \<le> unat n
        else content s' = content s \<and> n' = n))"
proof -
  have mu: "min_unsigned (SECRET_SIZE - secret_len s) n = k"
    unfolding k using inv by (intro min_unsigned_eq) (auto simp: secret_inv_def)
  show ?thesis
  proof (cases "n = 0 \<or> secret_len s = SECRET_SIZE")
    case True
    then show ?thesis using inv res
      by (auto simp: secret_transfer_def Let_def reply_defs secret_inv_def split: if_splits)
  next
    case False
    let ?t = "s\<lparr>secret_buf := overwrite (secret_len s) data (secret_buf s)\<rparr>"
    have small: "secret_len s < 8192" using False inv by (auto simp: secret_inv_def)
    then have t: "(ret, n', out, s') = (if r = OK then (r, n - word_of_int k, [], ?t\<lparr>secret_len := secret_len s + k\<rparr>)
        else (r, n, [], ?t))"
      using res False mu cf by (auto simp: secret_transfer_def Let_def split: if_splits)
    have "uint n \<noteq> 0" using False by (simp only: uint_0_iff) simp
    then have "0 < uint n" using uint_ge_0 [of n] by linarith
    then have "0 < k" unfolding k using small by simp
    have kmax: "k \<le> 8192 - secret_len s" unfolding k by simp
    have len: "length (secret_buf s) = 8192" "0 \<le> secret_len s" using inv by (auto simp: secret_inv_def)
    have fit: "nat (secret_len s) + length data \<le> 8192"
      using copy(1) kmax small len(2) cf by (auto simp: nat_le_iff)
    note ow = overwrite_props [OF len fit]
    show ?thesis
    proof (cases "r = OK")
      case ok: True
      then have "nat (secret_len s + k) = nat (secret_len s) + length data"
        using copy(2) cf len(2) \<open>0 < k\<close> by (simp add: nat_add_distrib)
      then have "content s' = content s @ data"
        using t ok ow(3) by (simp add: content_def)
      moreover have "secret_inv s'"
        using inv t ok ow(1) kmax \<open>0 < k\<close> opened by (auto simp: secret_inv_def)
      moreover have "unat n' = unat n - nat k" "nat k \<le> unat n"
        using t ok unat_diff_word_of_int [of k n] \<open>0 < k\<close> k by simp_all
      ultimately show ?thesis using t ok False by simp
    next
      case bad: False
      then have "content s' = content s" "secret_inv s'"
        using inv t ow(1,2) by (auto simp: content_def secret_inv_def)
      then show ?thesis using t bad False by simp
    qed
  qed
qed

lemma write_refines:
  assumes "secret_inv s" and "0 < open_counter s"
    and data: "length data = unat n" "copies_from data copyfrom"
    and "secret_transfer copyto copyfrom DEV_SCATTER_S n s = (ret, n', out, s')"
  shows "refines s (Stored (take (unat n - unat n') data)) s'"
proof -
  define k where "k = min (SECRET_SIZE - secret_len s) (uint n)"
  obtain r bs where cf: "copyfrom (secret_len s) k = (r, bs)" by fastforce
  have "0 \<le> k" using assms(1) by (simp add: k_def secret_inv_def)
  moreover have "nat k \<le> length data"
    using nat_mono [of k "uint n"] unfolding data(1) k_def by simp
  ultimately have copy: "if r = OK then bs = take (nat k) data else length bs \<le> nat k"
    using data(2) cf unfolding copies_from_def by blast
  then have "length bs \<le> nat k" "r = OK \<longrightarrow> length bs = nat k"
    using \<open>nat k \<le> length data\<close> by (auto split: if_splits)
  from scatter_cases [OF assms(1,2,5) cf this k_def] copy data(1) show ?thesis
    by (auto simp: refines_def abs_vault_def split: if_splits)
qed

lemma call_refines: "driver_call s e s' \<Longrightarrow> secret_inv s \<Longrightarrow> refines s e s'"
  by (induction rule: driver_call.induct)
    (simp_all add: open_refines close_refines ioctl_refines read_refines write_refines del: if_splits)

lemma run_refines:
  assumes "driver_run s0 tr s"
  shows "secret_inv s \<and> abs_vault s = fold vault_step tr empty_vault"
  using assms
proof (induction rule: driver_run.induct)
  case (run_start s)
  then show ?case
    by (simp add: reset_inv) (simp add: abs_vault_def empty_vault_def reset_secret_state_def content_def)
next
  case (run_call s0 tr s e s')
  then show ?case using call_refines [of s e s'] by (simp add: refines_def)
qed

section \<open>The properties\<close>

text \<open>C35: every run of the driver implements the vault: in every reachable state the offsets and the
  buffer are within bounds, and owner, content, read position, descriptor count and read flag are
  what the abstract vault computes from the history of calls, whatever the kernel's copies return.\<close>

theorem secret_refines_vault:
  assumes "driver_run s0 tr s"
  shows "secret_inv s \<and> abs_vault s = fold vault_step tr empty_vault"
  using run_refines [OF assms] .

definition fresh_secret :: secret_state where
  "fresh_secret = \<lparr>open_counter = 0, secret_owner = 0, has_owner = False,
     secret_buf = replicate 8192 0, secret_len = 0, read_offset = 0, read_fd_opened = False\<rparr>"

lemma run_fresh: "driver_run fresh_secret [] fresh_secret"
  using run_start [of fresh_secret] by (simp add: reset_secret_state_def fresh_secret_def)

text \<open>User 5 opens for writing and writes three bytes; then closes, opens for reading and reads two of them.\<close>

definition copy_out :: "byte list \<Rightarrow> int \<Rightarrow> int \<Rightarrow> int \<times> byte list" where
  "copy_out data off k = (OK, take (nat k) data)"

lemma copies_copy_out: "copies_from data (copy_out data)"
  by (auto simp: copies_from_def copy_out_def)

definition written_secret :: secret_state where
  "written_secret = fresh_secret\<lparr>has_owner := True, secret_owner := 5, open_counter := 1,
     secret_buf := [1, 2, 3] @ replicate 8189 0, secret_len := 3\<rparr>"

lemma overwrite_fresh: "overwrite 0 [1, 2, 3] (replicate 8192 (0 :: byte)) = [1, 2, 3] @ replicate 8189 0"
  by (simp add: overwrite_def)

lemma run_written: "driver_run fresh_secret [Opened 5 False, Stored [1, 2, 3]] written_secret"
proof -
  define s1 where "s1 = fresh_secret\<lparr>has_owner := True, secret_owner := 5, open_counter := 1\<rparr>"
  have "secret_open (\<lambda>_. (0, 5)) W_BIT 0 fresh_secret = (OK, s1)"
    by (simp add: secret_open_def s1_def fresh_secret_def R_BIT_def W_BIT_def Let_def)
  from call_open [OF this] have r1: "driver_run fresh_secret [Opened 5 False] s1"
    using run_call [OF run_fresh] by (fastforce simp: W_BIT_def R_BIT_def)
  have "min_unsigned 8192 3 = 3" by (simp add: min_unsigned_eq)
  then have w: "secret_transfer (\<lambda>_ _. OK) (copy_out [1, 2, 3]) DEV_SCATTER_S 3 s1 = (OK, 0, [], written_secret)"
    by (simp add: secret_transfer_def s1_def written_secret_def fresh_secret_def copy_out_def overwrite_fresh)
  have "driver_call s1 (Stored [1, 2, 3]) written_secret"
    using call_write [OF _ _ copies_copy_out w] by (simp add: s1_def)
  then show ?thesis using run_call [OF r1] by simp
qed

lemma run_open_write:
  "\<exists>s. driver_run fresh_secret [Opened 5 False, Stored [1, 2, 3]] s \<and> secret_len s = 3 \<and>
     open_counter s = 1 \<and> has_owner s \<and> secret_owner s = 5"
  using run_written by (intro exI [of _ written_secret]) (simp add: written_secret_def)

lemma run_read:
  "\<exists>s. driver_run fresh_secret [Opened 5 False, Stored [1, 2, 3], Closed, Opened 5 True, Delivered [1, 2]] s"
proof -
  let ?c = "written_secret\<lparr>open_counter := 0\<rparr>"
  let ?r = "written_secret\<lparr>read_fd_opened := True\<rparr>"
  have "secret_close written_secret = (OK, ?c)"
    by (simp add: secret_close_def written_secret_def fresh_secret_def Let_def)
  from call_close [OF _ this] have "driver_call written_secret Closed ?c" by (simp add: written_secret_def)
  from run_call [OF run_written this]
  have r3: "driver_run fresh_secret [Opened 5 False, Stored [1, 2, 3], Closed] ?c" by simp
  have "secret_open (\<lambda>_. (0, 5)) R_BIT 0 ?c = (OK, ?r)"
    by (simp add: secret_open_def written_secret_def fresh_secret_def R_BIT_def W_BIT_def Let_def)
  from call_open [OF this] have "driver_call ?c (Opened 5 True) ?r" by (simp add: R_BIT_def)
  from run_call [OF r3 this]
  have r4: "driver_run fresh_secret [Opened 5 False, Stored [1, 2, 3], Closed, Opened 5 True] ?r" by simp
  have "min_unsigned 3 2 = 2" by (simp add: min_unsigned_eq)
  then have "secret_transfer (\<lambda>_ _. OK) (copy_out []) DEV_GATHER_S 2 ?r = (OK, 0, [1, 2], ?r\<lparr>read_offset := 2\<rparr>)"
    by (simp add: secret_transfer_def written_secret_def fresh_secret_def Let_def eval_nat_numeral)
  from call_read [OF _ this] have "driver_call ?r (Delivered [1, 2]) (?r\<lparr>read_offset := 2\<rparr>)"
    by (simp add: written_secret_def)
  from run_call [OF r4 this] show ?thesis by (intro exI) simp
qed

theorem secret_refines_vault_witness:
  "\<exists>s. secret_inv s \<and> content s = [1, 2, 3]"
proof -
  obtain s where s: "driver_run fresh_secret [Opened 5 False, Stored [1, 2, 3]] s"
    using run_open_write by blast
  from secret_refines_vault [OF s] show ?thesis
    by (auto simp: abs_vault_def empty_vault_def)
qed

text \<open>The bytes delivered since the last reset, along the vault's history.\<close>

fun delivered_step :: "event \<Rightarrow> vault \<times> byte list \<Rightarrow> vault \<times> byte list" where
  "delivered_step (Delivered bs) (v, d) = (vault_step (Delivered bs) v, d @ bs)"
| "delivered_step Closed (v, d) =
     (vault_step Closed v, if v_opens v \<le> 1 \<and> v_reading v then [] else d)"
| "delivered_step e (v, d) = (vault_step e v, d)"

lemma fst_delivered_step: "fst (delivered_step e (v, d)) = vault_step e v"
  by (cases e) auto

lemma call_delivers:
  assumes "driver_call s (Delivered out) s'" and "secret_inv s"
  shows "\<exists>k. out = take k (drop (nat (read_offset s)) (content s))"
  using assms
proof (cases rule: driver_call.cases)
  case (call_read copyto copyfrom n ret n')
  from gather_cases [OF assms(2) call_read(2)] show ?thesis by (metis take0)
qed (auto split: if_splits)

lemma delivered_prefix:
  assumes "driver_run s0 tr s"
  shows "fold delivered_step tr (empty_vault, []) = (abs_vault s, take (nat (read_offset s)) (content s))"
  using assms
proof (induction rule: driver_run.induct)
  case (run_start s)
  then show ?case
    by (simp add: abs_vault_def empty_vault_def reset_secret_state_def content_def)
next
  case (run_call s0 tr s e s')
  have inv: "secret_inv s" using run_refines [OF run_call.hyps(1)] by simp
  have ref: "secret_inv s'" "abs_vault s' = vault_step e (abs_vault s)"
    using call_refines [OF run_call.hyps(2) inv] by (simp_all add: refines_def)
  have len: "nat (read_offset s) \<le> length (content s)"
    using inv length_content [OF inv] by (auto simp: secret_inv_def)
  let ?d = "take (nat (read_offset s)) (content s)"
  have "snd (delivered_step e (abs_vault s, ?d)) = take (nat (read_offset s')) (content s')"
  proof (cases e)
    case (Delivered bs)
    then obtain k where k: "bs = take k (drop (nat (read_offset s)) (content s))"
      using call_delivers [OF _ inv] run_call.hyps(2) by blast
    have "nat (read_offset s') = nat (read_offset s) + length bs" "content s' = content s"
      using ref(2) Delivered by (simp_all add: abs_vault_def)
    moreover have "take (length bs) (drop (nat (read_offset s)) (content s)) = bs"
      unfolding k by (simp add: min_def)
    ultimately show ?thesis using Delivered by (simp add: take_add)
  next
    case (Stored bs)
    then have "nat (read_offset s') = nat (read_offset s)" "content s' = content s @ bs"
      using ref(2) by (simp_all add: abs_vault_def)
    then show ?thesis using Stored len by simp
  qed (use ref(2) in \<open>auto simp: abs_vault_def empty_vault_def split: if_splits\<close>)
  then have "delivered_step e (abs_vault s, ?d) = (abs_vault s', take (nat (read_offset s')) (content s'))"
    using ref(2) fst_delivered_step [of e "abs_vault s" ?d] by (simp add: prod_eq_iff)
  then show ?case using run_call.IH by simp
qed

text \<open>C36: the reader's stream is the writer's stream: in every run, the bytes delivered by reads since
  the last reset are, in order, the first bytes of the messages that writers passed to the driver since that
  reset, as far as it told them that it took them, and there are as many as the read position says; nothing is
  altered, delivered twice, skipped, or left over from an earlier secret.\<close>

theorem secret_stream:
  assumes "driver_run s0 tr s"
  shows "case fold delivered_step tr (empty_vault, []) of (v, d) \<Rightarrow>
    prefix d (v_written v) \<and> length d = v_read v \<and> v_read v = nat (read_offset s)"
proof -
  have inv: "secret_inv s" using run_refines [OF assms] by simp
  then have "nat (read_offset s) \<le> length (content s)"
    using length_content [OF inv] by (auto simp: secret_inv_def)
  then show ?thesis using delivered_prefix [OF assms] by (simp add: abs_vault_def take_is_prefix)
qed

theorem secret_stream_witness:
  "case fold delivered_step [Opened 5 False, Stored [1, 2, 3], Closed, Opened 5 True, Delivered [1, 2]] (empty_vault, []) of
    (v, d) \<Rightarrow> d = [1, 2] \<and> v_written v = [1, 2, 3] \<and> prefix d (v_written v)"
proof -
  obtain s where "driver_run fresh_secret [Opened 5 False, Stored [1, 2, 3], Closed, Opened 5 True, Delivered [1, 2]] s"
    using run_read by blast
  from secret_stream [OF this] show ?thesis by (simp add: empty_vault_def)
qed

text \<open>C37: only the owner reads: after any run, an open for reading that succeeds makes or finds the
  caller owner of the vault; when the vault of the history has another owner it is refused and the
  state does not change, and an open for writing is refused whenever there is an owner.\<close>

theorem only_owner_reads:
  assumes "driver_run s0 tr s" and "secret_open cred mode ep s = (ret, s')"
  shows "(ret = OK \<longrightarrow> v_owner (abs_vault s') = Some (snd (cred ep))) \<and>
    (\<forall>u. v_owner (fold vault_step tr empty_vault) = Some u \<and>
       (u \<noteq> snd (cred ep) \<or> mode AND W_BIT \<noteq> 0) \<longrightarrow> ret \<noteq> OK) \<and>
    (ret \<noteq> OK \<longrightarrow> s' = s)"
proof -
  have "v_owner (fold vault_step tr empty_vault) = (if has_owner s then Some (secret_owner s) else None)"
    using run_refines [OF assms(1)] by (metis abs_vault_def vault.select_convs(1))
  with assms(2) show ?thesis
    by (auto simp: secret_open_def abs_vault_def reply_defs Let_def split: if_splits prod.splits)
qed

theorem only_owner_reads_witness:
  "\<exists>s. v_owner (fold vault_step [Opened 5 False, Stored [1, 2, 3]] empty_vault) = Some 5 \<and>
     fst (secret_open (\<lambda>_. (0, 6)) R_BIT 0 s) \<noteq> OK \<and> content s = [1, 2, 3]"
proof -
  obtain s where s: "driver_run fresh_secret [Opened 5 False, Stored [1, 2, 3]] s"
    using run_open_write by blast
  have "v_owner (fold vault_step [Opened 5 False, Stored [1, 2, 3]] empty_vault) = Some 5"
    by (simp add: empty_vault_def vault_owner_after_def)
  moreover have "content s = [1, 2, 3]"
    using run_refines [OF s] by (auto simp: abs_vault_def empty_vault_def)
  ultimately show ?thesis
    using only_owner_reads [OF s, of "\<lambda>_. (0, 6)" R_BIT 0 "fst (secret_open (\<lambda>_. (0, 6)) R_BIT 0 s)"
        "snd (secret_open (\<lambda>_. (0, 6)) R_BIT 0 s)"] by (intro exI [of _ s]) simp
qed

text \<open>
  A kernel that watches the requests of a transfer: it passes on a copy to the caller of stored bytes and a copy
  from the caller into the buffer, both of at most \<open>iov_size\<close> bytes, and answers any other request with \<open>e\<close>.
\<close>

definition checked_to :: "int \<Rightarrow> secret_state \<Rightarrow> u32 \<Rightarrow> (int \<Rightarrow> int \<Rightarrow> int) \<Rightarrow> int \<Rightarrow> int \<Rightarrow> int" where
  "checked_to e s n copyto off k =
    (if 0 < k \<and> 0 \<le> off \<and> off + k \<le> secret_len s \<and> k \<le> uint n then copyto off k else e)"

definition checked_from :: "int \<Rightarrow> secret_state \<Rightarrow> u32 \<Rightarrow> (int \<Rightarrow> int \<Rightarrow> int \<times> byte list) \<Rightarrow> int \<Rightarrow> int \<Rightarrow> int \<times> byte list" where
  "checked_from e s n copyfrom off k =
    (if 0 < k \<and> 0 \<le> off \<and> off + k \<le> int (length (secret_buf s)) \<and> k \<le> uint n then copyfrom off k else (e, []))"

text \<open>C40: the transfers stay inside the 8192-byte buffer: in every reachable state and for every opcode,
  request size and behaviour of the kernel, \<open>secret_transfer\<close> asks only for copies that the watching kernel
  passes on, so it comes to the same result with it: what it copies out lies within the stored bytes, what it
  copies in lies within the buffer, and neither exceeds \<open>iov_size\<close>. A read counts in \<open>iov_size\<close> exactly the bytes
  it copied out.\<close>

theorem transfer_in_bounds:
  assumes "driver_run s0 tr s"
  shows "secret_transfer (checked_to e s n copyto) (checked_from e s n copyfrom) opc n s =
      secret_transfer copyto copyfrom opc n s \<and>
    (case secret_transfer copyto copyfrom DEV_GATHER_S n s of (ret, n', out, s') \<Rightarrow>
      unat n' + length out = unat n \<and> nat (read_offset s) + length out \<le> nat (secret_len s))"
proof
  have inv: "secret_inv s" using run_refines [OF assms] by simp
  define kr kw where "kr = min_unsigned (secret_len s - read_offset s) n" and "kw = min_unsigned (8192 - secret_len s) n"
  have mu: "kr = min (secret_len s - read_offset s) (uint n)" "kw = min (8192 - secret_len s) (uint n)"
    unfolding kr_def kw_def using inv by (intro min_unsigned_eq; auto simp: secret_inv_def)+
  have r: "0 \<le> read_offset s" "read_offset s + kr \<le> secret_len s" "kr \<le> uint n" using mu inv by (auto simp: secret_inv_def)
  have w: "0 \<le> secret_len s" "secret_len s + kw \<le> int (length (secret_buf s))" "kw \<le> uint n"
    using mu inv by (auto simp: secret_inv_def)
  have pos: "0 < kw" if "n \<noteq> 0" "secret_len s < SECRET_SIZE"
  proof -
    have "uint n \<noteq> 0" using that(1) by (simp only: uint_0_iff) simp
    then have "0 < uint n" using uint_ge_0 [of n] by linarith
    then show ?thesis using that(2) mu(2) by simp
  qed
  have to: "checked_to e s n copyto (read_offset s) kr = copyto (read_offset s) kr" if "0 < kr"
    using r that by (simp add: checked_to_def)
  have from': "checked_from e s n copyfrom (secret_len s) kw = copyfrom (secret_len s) kw"
    if "n \<noteq> 0" "secret_len s < SECRET_SIZE"
    using w pos [OF that] by (simp add: checked_from_def)
  show "secret_transfer (checked_to e s n copyto) (checked_from e s n copyfrom) opc n s =
      secret_transfer copyto copyfrom opc n s"
    unfolding secret_transfer_def SECRET_SIZE_eq kr_def [symmetric] kw_def [symmetric]
    by (cases opc) (simp_all add: Let_def to from' not_le flip: kw_def)
  obtain ret n' out s' where g: "secret_transfer copyto copyfrom DEV_GATHER_S n s = (ret, n', out, s')"
    by (metis prod_cases4)
  have le: "nat (read_offset s) \<le> nat (secret_len s)" using inv by (simp add: secret_inv_def nat_mono)
  have "unat n' + length out = unat n \<and> nat (read_offset s) + length out \<le> nat (secret_len s)"
    using gather_cases [OF inv g]
  proof (elim disjE conjE)
    assume "out = []" "n' = n"
    then show ?thesis using le by simp
  next
    assume out: "out = take (unat n) (drop (nat (read_offset s)) (content s))" and "unat n' = unat n - length out"
    moreover have "length out \<le> unat n" "length out \<le> nat (secret_len s) - nat (read_offset s)"
      unfolding out by (simp_all add: length_content [OF inv])
    ultimately show ?thesis using le by linarith
  qed
  with g show "case secret_transfer copyto copyfrom DEV_GATHER_S n s of (ret, n', out, s') \<Rightarrow>
      unat n' + length out = unat n \<and> nat (read_offset s) + length out \<le> nat (secret_len s)" by simp
qed

theorem transfer_in_bounds_witness:
  "\<exists>s. secret_len s = 3 \<and> (\<forall>opc. secret_transfer (checked_to EACCES s 10000 (\<lambda>_ _. OK)) (checked_from EACCES s 10000 (copy_out [7]))
      opc 10000 s = secret_transfer (\<lambda>_ _. OK) (copy_out [7]) opc 10000 s)"
proof -
  obtain s where s: "driver_run fresh_secret [Opened 5 False, Stored [1, 2, 3]] s" "secret_len s = 3"
    using run_open_write by blast
  from transfer_in_bounds [OF s(1)] s(2) show ?thesis by blast
qed

text \<open>Write, then read: when everything stored so far has been read, writing bytes that fit and
  reading at least as many back delivers exactly those bytes; writing to a full buffer gives
  \<open>ENOSPC\<close> and changes nothing.\<close>

theorem write_then_read:
  assumes "secret_inv s" and "0 < open_counter s" and "read_offset s = secret_len s"
    and "bs \<noteq> []" and "int (length bs) \<le> SECRET_SIZE - secret_len s" and "length bs \<le> unat n"
    and copy: "copyfrom (secret_len s) (int (length bs)) = (OK, bs)" and "copyto (read_offset s) (int (length bs)) = OK"
  shows "\<exists>s1 n' s2. secret_transfer copyto copyfrom DEV_SCATTER_S (of_nat (length bs)) s = (OK, 0, [], s1) \<and>
    secret_transfer copyto copyfrom DEV_GATHER_S n s1 = (OK, n', bs, s2) \<and>
    unat n' = unat n - length bs \<and> read_offset s2 = secret_len s2"
proof -
  let ?k = "int (length bs)"
  have small: "length bs \<le> 8192" using assms(1,5) by (simp add: secret_inv_def)
  then have w: "uint (of_nat (length bs) :: u32) = ?k" "(of_nat (length bs) :: u32) \<noteq> 0"
    using assms(4) by (simp_all add: unsigned_of_nat take_bit_nat_eq_self word_eq_0_iff_unat flip: of_nat_take_bit)
  have wn: "unat (of_nat (length bs) :: u32) = length bs" using w(1) by (metis nat_int unat_eq_nat_uint)
  obtain r m out s1 where t1: "secret_transfer copyto copyfrom DEV_SCATTER_S (of_nat (length bs)) s = (r, m, out, s1)"
    by (metis prod_cases4)
  have k: "?k = min (SECRET_SIZE - secret_len s) (uint (of_nat (length bs) :: u32))"
    using w(1) assms(5) by simp
  have not_full: "secret_len s \<noteq> SECRET_SIZE" using assms(4,5) by auto
  have c1: "out = []" "secret_inv s1" "read_offset s1 = read_offset s" "r = OK" "content s1 = content s @ bs" "unat m = 0"
    using scatter_cases [OF assms(1,2) t1 copy _ _ k] w wn not_full by auto
  have "m = 0" using c1(6) by (simp add: unat_eq_0)
  obtain r2 n' out2 s2 where t2: "secret_transfer copyto copyfrom DEV_GATHER_S n s1 = (r2, n', out2, s2)"
    by (metis prod_cases4)
  have drop: "drop (nat (read_offset s1)) (content s1) = bs"
    using c1(3,5) assms(3) length_content [OF assms(1)] by simp
  have k2: "min_unsigned (secret_len s1 - read_offset s1) n = ?k"
  proof -
    have "nat (secret_len s1) = nat (secret_len s) + length bs"
      using length_content [OF c1(2)] length_content [OF assms(1)] c1(5) by simp
    then have "secret_len s1 - read_offset s1 = ?k"
      using c1(2,3) assms(1,3) assms(4) by (auto simp: secret_inv_def)
    moreover have "?k \<le> uint n" using assms(6) unfolding uint_nat by linarith
    ultimately show ?thesis using small by (simp add: min_unsigned_eq)
  qed
  have o2: "take (nat ?k) (drop (nat (read_offset s1)) (secret_buf s1)) = bs"
  proof -
    have "nat (secret_len s1) - nat (read_offset s1) = length bs"
      using drop length_content [OF c1(2)] by (metis length_drop)
    then show ?thesis using drop by (simp add: content_def drop_take)
  qed
  have res: "r2 = OK" "out2 = bs"
    using t2 k2 o2 assms(4,8) c1(3) by (auto simp: secret_transfer_def Let_def split: if_splits)
  have "unat n' = unat n - length bs" "s2 = s1\<lparr>read_offset := read_offset s1 + ?k\<rparr>"
    using gather_cases [OF c1(2) t2] res assms(4) by auto
  moreover have "nat (secret_len s1) - nat (read_offset s1) = length bs"
    using drop length_content [OF c1(2)] by (metis length_drop)
  ultimately show ?thesis using t1 t2 res c1 \<open>m = 0\<close> by (auto simp: secret_inv_def)
qed

theorem write_then_read_witness:
  "\<exists>s s1 n' s2. secret_transfer (\<lambda>_ _. OK) (\<lambda>_ _. (OK, [7, 8])) DEV_SCATTER_S 2 s = (OK, 0, [], s1) \<and>
    secret_transfer (\<lambda>_ _. OK) (\<lambda>_ _. (OK, [7, 8])) DEV_GATHER_S 100 s1 = (OK, n', [7, 8], s2)"
proof -
  let ?s = "fresh_secret\<lparr>has_owner := True, open_counter := 1\<rparr>"
  have "secret_inv ?s" by (simp add: secret_inv_def fresh_secret_def)
  from write_then_read [OF this, of "[7, 8]" 100 "\<lambda>_ _. (OK, [7, 8])" "\<lambda>_ _. OK"] show ?thesis
    by (fastforce simp: fresh_secret_def)
qed

text \<open>A grant moves the right to read: after SSGRANT succeeded in any reachable state with an open
  descriptor, an open for reading by a process with valid credentials succeeds exactly for the
  grantee and is refused with \<open>EACCES\<close> for every other user, the former owner included.\<close>

theorem grant_transfers:
  assumes "driver_run s0 tr s" and "0 < open_counter s"
    and "secret_ioctl SSGRANT (OK, g) SSGRANT s = (ret, s')"
    and "mode AND R_BIT \<noteq> 0" and "mode AND W_BIT = 0" and "0 \<le> fst (cred ep)"
  shows "ret = OK \<and> fst (secret_open cred mode ep s') = (if snd (cred ep) = g then OK else EACCES) \<and>
    content s' = content s"
proof -
  have "has_owner s" using run_refines [OF assms(1)] assms(2) by (auto simp: secret_inv_def)
  with assms(3-6) show ?thesis
    by (auto simp: secret_ioctl_def secret_open_def content_def reply_defs Let_def split: prod.splits)
qed

theorem grant_transfers_witness:
  "\<exists>s. fst (secret_open (\<lambda>_. (0, 5)) R_BIT 0 (snd (secret_ioctl 9 (OK, 6) 9 s))) = EACCES \<and> content s = [1, 2, 3]"
proof -
  obtain s where s: "driver_run fresh_secret [Opened 5 False, Stored [1, 2, 3]] s" "open_counter s = 1"
    using run_open_write by blast
  have "content s = [1, 2, 3]" using run_refines [OF s(1)] by (auto simp: abs_vault_def empty_vault_def)
  with grant_transfers [OF s(1), of 9 6 "fst (secret_ioctl 9 (OK, 6) 9 s)" "snd (secret_ioctl 9 (OK, 6) 9 s)"
      R_BIT "\<lambda>_. (0, 5)" 0] s(2)
  show ?thesis by (intro exI [of _ s]) (simp add: R_BIT_def W_BIT_def)
qed

section \<open>Live update\<close>

text \<open>
  What ds.h documents of the data store: a successful publish makes the key retrievable, a delete of
  a retrievable key succeeds, and neither affects another key.
\<close>

definition other_keys_same :: "'ds ds_service \<Rightarrow> string \<Rightarrow> 'ds \<Rightarrow> 'ds \<Rightarrow> bool" where
  "other_keys_same D key d d' \<longleftrightarrow> (\<forall>k. k \<noteq> key \<longrightarrow>
     ds_retrieve_u32 D k d' = ds_retrieve_u32 D k d \<and>
     (\<forall>n. ds_retrieve_mem D k n d' = ds_retrieve_mem D k n d))"

definition ds_laws :: "'ds ds_service \<Rightarrow> bool" where
  "ds_laws D \<longleftrightarrow>
     (\<forall>k v d d'. ds_publish_u32 D k v d = (OK, d') \<longrightarrow>
        ds_retrieve_u32 D k d' = (OK, v) \<and> other_keys_same D k d d') \<and>
     (\<forall>k bs d d'. ds_publish_mem D k bs d = (OK, d') \<longrightarrow>
        ds_retrieve_mem D k (length bs) d' = (OK, bs) \<and> other_keys_same D k d d') \<and>
     (\<forall>k v d. ds_retrieve_u32 D k d = (OK, v) \<longrightarrow>
        (\<exists>d'. ds_delete_u32 D k d = (OK, d') \<and> other_keys_same D k d d')) \<and>
     (\<forall>k n bs d. ds_retrieve_mem D k n d = (OK, bs) \<longrightarrow>
        (\<exists>d'. ds_delete_mem D k d = (OK, d') \<and> other_keys_same D k d d'))"

lemma if_ok_OK: "if_ok r k = (OK, d') \<longleftrightarrow> (\<exists>d. r = (OK, d) \<and> k d = (OK, d'))"
  by (auto simp: if_ok_def split: prod.splits if_splits)

lemma publish_u32D:
  "ds_laws D \<Longrightarrow> ds_publish_u32 D k v d = (OK, d') \<Longrightarrow>
    ds_retrieve_u32 D k d' = (OK, v) \<and> other_keys_same D k d d'"
  by (simp add: ds_laws_def)

lemma publish_memD:
  "ds_laws D \<Longrightarrow> ds_publish_mem D k bs d = (OK, d') \<Longrightarrow>
    ds_retrieve_mem D k (length bs) d' = (OK, bs) \<and> other_keys_same D k d d'"
  by (simp add: ds_laws_def)

lemma save_stores:
  assumes D: "ds_laws D" and save: "sef_cb_lu_state_save D s d = (OK, d')"
  shows "ds_retrieve_u32 D ''open_counter'' d' = (OK, word_of_int (open_counter s)) \<and>
    ds_retrieve_mem D ''secret_buf'' (length (secret_buf s)) d' = (OK, secret_buf s) \<and>
    ds_retrieve_u32 D ''secret_len'' d' = (OK, word_of_int (secret_len s)) \<and>
    ds_retrieve_u32 D ''read_offset'' d' = (OK, word_of_int (read_offset s)) \<and>
    ds_retrieve_u32 D ''secret_owner'' d' = (OK, word_of_int (secret_owner s)) \<and>
    ds_retrieve_u32 D ''has_owner'' d' = (OK, u32_of_bool (has_owner s)) \<and>
    ds_retrieve_u32 D ''read_fd_opened'' d' = (OK, u32_of_bool (read_fd_opened s))"
proof -
  obtain d1 d2 d3 d4 d5 d6 where
    p1: "ds_publish_u32 D ''open_counter'' (word_of_int (open_counter s)) d = (OK, d1)" and
    p2: "ds_publish_mem D ''secret_buf'' (secret_buf s) d1 = (OK, d2)" and
    p3: "ds_publish_u32 D ''secret_len'' (word_of_int (secret_len s)) d2 = (OK, d3)" and
    p4: "ds_publish_u32 D ''read_offset'' (word_of_int (read_offset s)) d3 = (OK, d4)" and
    p5: "ds_publish_u32 D ''secret_owner'' (word_of_int (secret_owner s)) d4 = (OK, d5)" and
    p6: "ds_publish_u32 D ''has_owner'' (u32_of_bool (has_owner s)) d5 = (OK, d6)" and
    p7: "ds_publish_u32 D ''read_fd_opened'' (u32_of_bool (read_fd_opened s)) d6 = (OK, d')"
    using save unfolding sef_cb_lu_state_save_def if_ok_OK by blast
  note f = publish_u32D [OF D p1, unfolded other_keys_same_def] publish_memD [OF D p2, unfolded other_keys_same_def]
    publish_u32D [OF D p3, unfolded other_keys_same_def] publish_u32D [OF D p4, unfolded other_keys_same_def]
    publish_u32D [OF D p5, unfolded other_keys_same_def] publish_u32D [OF D p6, unfolded other_keys_same_def]
    publish_u32D [OF D p7, unfolded other_keys_same_def]
  show ?thesis by (intro conjI) (simp_all add: f)
qed

text \<open>Restoring one field, with what the rest may rely on.\<close>

lemma restore_u32_ok:
  assumes "ds_laws D" and "fst (ds_retrieve_u32 D key d) = OK"
    and "\<And>d'. other_keys_same D key d d' \<Longrightarrow>
      \<exists>d''. k (f (snd (ds_retrieve_u32 D key d)) s) d' = (OK, r, d'')"
  shows "\<exists>d''. restore_u32 D key f k s d = (OK, r, d'')"
proof -
  obtain v where v: "ds_retrieve_u32 D key d = (OK, v)" using assms(2) by (metis prod.collapse)
  then obtain d' where "ds_delete_u32 D key d = (OK, d')" "other_keys_same D key d d'"
    using assms(1) unfolding ds_laws_def by blast
  with v assms(3) show ?thesis by (simp add: restore_u32_def)
qed

lemma restore_mem_ok:
  assumes "ds_laws D" and "ds_retrieve_mem D key (length (secret_buf s)) d = (OK, bs)"
    and "length bs = length (secret_buf s)"
    and "\<And>d'. other_keys_same D key d d' \<Longrightarrow> \<exists>d''. k (s\<lparr>secret_buf := bs\<rparr>) d' = (OK, r, d'')"
  shows "\<exists>d''. restore_mem D key k s d = (OK, r, d'')"
proof -
  obtain d' where "ds_delete_mem D key d = (OK, d')" "other_keys_same D key d d'"
    using assms(1,2) unfolding ds_laws_def by blast
  with assms(2-4) show ?thesis by (simp add: restore_mem_def overwrite_def)
qed

definition c_int :: "int \<Rightarrow> bool" where
  "c_int x \<longleftrightarrow> - (2 ^ 31) \<le> x \<and> x < 2 ^ 31"

lemma sint_c_int: "c_int x \<Longrightarrow> sint (word_of_int x :: u32) = x"
  by (simp add: c_int_def signed_of_int signed_take_bit_int_eq_self)

lemma u32_of_bool_neq [simp]: "u32_of_bool b \<noteq> 0 \<longleftrightarrow> b"
  by (simp add: u32_of_bool_def)

text \<open>C38: a live update loses nothing: if the old driver's save succeeded, the new driver's restore
  (through \<open>sef_cb_init\<close>) succeeds and its state is exactly the saved one, the owner, the secret
  bytes, both offsets, the descriptor count and both flags, and the driver is not announced again.\<close>

theorem live_update_round_trip:
  assumes D: "ds_laws D" and save: "sef_cb_lu_state_save D s d = (OK, d')"
    and len: "length (secret_buf t) = length (secret_buf s)"
    and range: "c_int (open_counter s)" "c_int (secret_len s)" "c_int (read_offset s)" "c_int (secret_owner s)"
  shows "\<exists>d''. sef_cb_init D SEF_INIT_LU t d' = (OK, False, s, d'')"
proof -
  note st = save_stores [OF D save]
  have "\<exists>d''. lu_state_restore D t d' = (OK, s, d'')"
    unfolding lu_state_restore_def
    by (intro restore_u32_ok [OF D] restore_mem_ok [OF D, where bs = "secret_buf s"])
      (simp_all add: st other_keys_same_def len sint_c_int range)
  then show ?thesis by (auto simp: sef_cb_init_def)
qed

text \<open>A data store for the witness: a finite map of published values.\<close>

definition map_ds :: "(string \<Rightarrow> (u32 + byte list) option) ds_service" where
  "map_ds = \<lparr>
     ds_publish_u32 = (\<lambda>k v d. (OK, d(k := Some (Inl v)))),
     ds_publish_mem = (\<lambda>k bs d. (OK, d(k := Some (Inr bs)))),
     ds_retrieve_u32 = (\<lambda>k d. case d k of Some (Inl v) \<Rightarrow> (OK, v) | _ \<Rightarrow> (EINVAL, 0)),
     ds_retrieve_mem = (\<lambda>k n d. case d k of Some (Inr bs) \<Rightarrow> (OK, take n bs) | _ \<Rightarrow> (EINVAL, [])),
     ds_delete_u32 = (\<lambda>k d. case d k of Some (Inl v) \<Rightarrow> (OK, d(k := None)) | _ \<Rightarrow> (EINVAL, d)),
     ds_delete_mem = (\<lambda>k d. case d k of Some (Inr bs) \<Rightarrow> (OK, d(k := None)) | _ \<Rightarrow> (EINVAL, d))\<rparr>"

lemma map_ds_laws: "ds_laws map_ds"
  unfolding ds_laws_def
  by (intro conjI allI impI) (auto simp: map_ds_def other_keys_same_def reply_defs split: option.splits sum.splits)

theorem live_update_round_trip_witness:
  "\<exists>d' d''. sef_cb_lu_state_save map_ds (fresh_secret\<lparr>has_owner := True, secret_owner := 42, open_counter := 2\<rparr>)
      (\<lambda>_. None) = (OK, d') \<and>
    sef_cb_init map_ds SEF_INIT_LU fresh_secret d' =
      (OK, False, fresh_secret\<lparr>has_owner := True, secret_owner := 42, open_counter := 2\<rparr>, d'')"
proof -
  let ?s = "fresh_secret\<lparr>has_owner := True, secret_owner := 42, open_counter := 2\<rparr>"
  have "\<exists>d'. sef_cb_lu_state_save map_ds ?s (\<lambda>_. None) = (OK, d')"
    by (simp add: sef_cb_lu_state_save_def map_ds_def if_ok_def)
  then obtain d' where d': "sef_cb_lu_state_save map_ds ?s (\<lambda>_. None) = (OK, d')" by blast
  have "\<exists>d''. sef_cb_init map_ds SEF_INIT_LU fresh_secret d' = (OK, False, ?s, d'')"
    by (rule live_update_round_trip [OF map_ds_laws d']) (simp_all add: fresh_secret_def c_int_def)
  with d' show ?thesis by blast
qed

end
