(* ===== verification/Grant_Props.thy ===== *)
theory Grant_Props
  imports Grant_Model Secret_Props
begin

text \<open>
  What grant_secret.c and the driver do together: the message ends up in the device, and the user named on the
  command line, and nobody else, can read it once.
\<close>

section \<open>The calls on a device in a known state\<close>

lemma msg_length: "length msg_bytes = 13"
  by (simp add: msg_bytes_def msg_def nl_def)

lemma open_empty:
  assumes "\<not> has_owner s" and "0 \<le> free_fd M" and "0 \<le> fst (cred M (endpt M))"
  shows "sys_open M W_BIT s = (free_fd M, s\<lparr>has_owner := True, secret_owner := snd (cred M (endpt M)),
    open_counter := open_counter s + 1\<rparr>)"
  using assms
  by (cases "cred M (endpt M)") (simp add: sys_open_def secret_open_def Let_def R_BIT_def W_BIT_def)

lemma write_ok:
  assumes inv: "secret_inv s" and opened: "0 < open_counter s" and empty: "secret_len s = 0" and copy: "write_copy M = OK"
  shows "\<exists>s'. sys_write M msg_bytes s = (13, s') \<and> secret_inv s' \<and> content s' = msg_bytes \<and>
    secret_owner s' = secret_owner s \<and> has_owner s' = has_owner s \<and> open_counter s' = open_counter s \<and>
    read_offset s' = read_offset s \<and> read_fd_opened s' = read_fd_opened s"
proof -
  let ?copy = "\<lambda>_ k. (write_copy M, if write_copy M = OK then take (nat k) msg_bytes else [])"
  obtain r n' out s' where t: "secret_transfer (\<lambda>_ _. OK) ?copy DEV_SCATTER_S 13 s = (r, n', out, s')" by (metis prod_cases4)
  have nil: "content s = []" using empty by (simp add: content_def)
  have k: "13 = min (SECRET_SIZE - secret_len s) (uint (13 :: u32))" using empty by simp
  have "secret_inv s' \<and> secret_owner s' = secret_owner s \<and> has_owner s' = has_owner s \<and>
      open_counter s' = open_counter s \<and> read_offset s' = read_offset s \<and> read_fd_opened s' = read_fd_opened s \<and>
      r = OK \<and> content s' = msg_bytes \<and> unat n' = 0"
    using scatter_cases [OF inv opened t refl _ _ k] empty copy nil by (simp add: msg_length)
  then show ?thesis using t by (simp add: sys_write_def msg_length unat_eq_0)
qed

lemma read_all:
  assumes inv: "secret_inv s" and fresh: "read_offset s = 0" and held: "content s = msg_bytes" and n: "13 \<le> unat n"
  shows "secret_transfer (\<lambda>_ _. OK) copyfrom DEV_GATHER_S n s = (OK, n - 13, msg_bytes, s\<lparr>read_offset := 13\<rparr>)"
proof -
  have len: "secret_len s = 13"
    using length_content [OF inv] held inv by (simp add: msg_length secret_inv_def)
  have "13 \<le> uint n" using n unfolding uint_nat by linarith
  then have "min_unsigned 13 n = 13" by (simp add: min_unsigned_eq)
  then show ?thesis using held fresh len by (simp add: secret_transfer_def content_def Let_def)
qed

section \<open>The program and its reader\<close>

lemma grant_secret_ok:
  assumes inv: "secret_inv s" and empty: "\<not> has_owner s"
    and M: "0 \<le> free_fd M" "0 \<le> fst (cred M (endpt M))" "write_copy M = OK" "ioctl_copy M = OK"
    and g: "uid_t_of M (atoi arg) = g" "g \<noteq> 0"
  shows "\<exists>out s'. grant_secret M [prog, arg] s = (0, out, s') \<and> secret_inv s' \<and> content s' = msg_bytes \<and>
    has_owner s' \<and> secret_owner s' = g \<and> open_counter s' = 0 \<and> read_offset s' = 0 \<and> \<not> read_fd_opened s'"
proof -
  let ?s1 = "s\<lparr>has_owner := True, secret_owner := snd (cred M (endpt M)), open_counter := open_counter s + 1\<rparr>"
  have start: "open_counter s = 0" "secret_len s = 0" "read_offset s = 0" "\<not> read_fd_opened s"
    using inv empty by (auto simp: secret_inv_def)
  have inv1: "secret_inv ?s1" "0 < open_counter ?s1" "secret_len ?s1 = 0" using inv start by (simp_all add: secret_inv_def)
  obtain s2 where w: "sys_write M msg_bytes ?s1 = (13, s2)" "secret_inv s2" "content s2 = msg_bytes"
    "has_owner s2" "open_counter s2 = 1" "read_offset s2 = 0" "\<not> read_fd_opened s2"
    using write_ok [OF inv1 M(3)] start by auto
  let ?s3 = "s2\<lparr>secret_owner := g, open_counter := 0\<rparr>"
  have "sys_ioctl M (SSGRANT M) g s2 = (0, s2\<lparr>secret_owner := g\<rparr>)"
    using M(4) by (simp add: sys_ioctl_def secret_ioctl_def)
  moreover have "sys_close (s2\<lparr>secret_owner := g\<rparr>) = (0, ?s3)"
    using w(5,7) by (simp add: sys_close_def secret_close_def Let_def)
  ultimately have "\<exists>out. grant_secret M [prog, arg] s = (0, out, ?s3)"
    using open_empty [OF empty M(1,2)] w(1) g M(1) by (simp add: grant_secret_def Let_def)
  moreover have "secret_inv ?s3" "content ?s3 = msg_bytes" using w by (auto simp: secret_inv_def content_def)
  ultimately show ?thesis using w by auto
qed

text \<open>C39: A user without special rights runs grant_secret with the number of another user on an empty device and every call
  succeeds: the program returns 0, afterwards the device can be opened for reading by exactly that other user,
  who reads the message, and when he closes the device it is empty again.\<close>

theorem grant_delivers:
  assumes inv: "secret_inv s" and empty: "\<not> has_owner s"
    and M: "0 \<le> free_fd M" "0 \<le> fst (cred M (endpt M))" "write_copy M = OK" "ioctl_copy M = OK"
    and g: "uid_t_of M (atoi arg) = g" "g \<noteq> 0"
    and reader: "0 \<le> fst (rcred rep)" and n: "13 \<le> unat n"
  shows "\<exists>out s'. grant_secret M [prog, arg] s = (0, out, s') \<and>
    (if snd (rcred rep) = g
     then \<exists>s1 s2. secret_open rcred R_BIT rep s' = (OK, s1) \<and>
       secret_transfer (\<lambda>_ _. OK) copyfrom DEV_GATHER_S n s1 = (OK, n - 13, msg_bytes, s2) \<and>
       secret_close s2 = (OK, reset_secret_state s2)
     else secret_open rcred R_BIT rep s' = (EACCES, s'))"
proof -
  obtain out s' where run: "grant_secret M [prog, arg] s = (0, out, s')" and s': "secret_inv s'" "content s' = msg_bytes"
    "has_owner s'" "secret_owner s' = g" "open_counter s' = 0" "read_offset s' = 0" "\<not> read_fd_opened s'"
    using grant_secret_ok [OF inv empty M g] by blast
  let ?s1 = "s'\<lparr>open_counter := 1, read_fd_opened := True\<rparr>"
  have opens: "secret_open rcred R_BIT rep s' = (if snd (rcred rep) = g then (OK, ?s1) else (EACCES, s'))"
    using reader s' by (cases "rcred rep") (simp add: secret_open_def Let_def R_BIT_def W_BIT_def)
  have "secret_inv ?s1" "content ?s1 = msg_bytes" using s' by (auto simp: secret_inv_def content_def)
  from read_all [OF this(1) _ this(2) n] have
    "secret_transfer (\<lambda>_ _. OK) copyfrom DEV_GATHER_S n ?s1 = (OK, n - 13, msg_bytes, ?s1\<lparr>read_offset := 13\<rparr>)"
    using s' by simp
  moreover have "secret_close (?s1\<lparr>read_offset := 13\<rparr>) = (OK, reset_secret_state (?s1\<lparr>read_offset := 13\<rparr>))"
    by (simp add: secret_close_def reset_secret_state_def Let_def)
  ultimately show ?thesis using run opens by auto
qed

definition minix0 :: minix where
  "minix0 = \<lparr>cred = \<lambda>_. (0, 5), endpt = 1, free_fd = 3, write_copy = OK, ioctl_copy = OK, uid_t_of = \<lambda>n. n, SSGRANT = 9\<rparr>"

lemma atoi_13: "atoi ''13'' = 13"
  by code_simp

theorem grant_delivers_witness:
  "\<exists>out s' s1 s2. grant_secret minix0 [''grant_secret'', ''13''] fresh_secret = (0, out, s') \<and>
    secret_open (\<lambda>_. (0, 13)) R_BIT 2 s' = (OK, s1) \<and>
    secret_transfer (\<lambda>_ _. OK) (\<lambda>_ _. (OK, [])) DEV_GATHER_S 100 s1 = (OK, 87, msg_bytes, s2)"
proof -
  have "secret_inv fresh_secret" "\<not> has_owner fresh_secret" by (simp_all add: secret_inv_def fresh_secret_def)
  from grant_delivers [OF this, of minix0 "''13''" 13 "\<lambda>_. (0, 13)" 2 100 "''grant_secret''" "\<lambda>_ _. (OK, [])"]
  show ?thesis by (auto simp: minix0_def atoi_13)
qed

text \<open>On a device that holds a secret the program gives up and changes nothing.\<close>

lemma grant_secret_refused:
  assumes "has_owner s" and "0 \<le> fst (cred M (endpt M))"
  shows "\<exists>out. grant_secret M argv s = (1, out, s)"
  using assms
  by (cases "cred M (endpt M)")
    (simp add: grant_secret_def sys_open_def secret_open_def Let_def R_BIT_def W_BIT_def reply_defs)

end
