(* ===== verification/Lwp_Model.thy ===== *)
theory Lwp_Model
  imports Prelude
begin

text \<open>
  The lightweight process library of Asgn2: lwp.c, the round-robin scheduler of scheduler.c and the
  declarations of lwp.h. Thread structures live in a store of allocated addresses; following NULL
  or a freed pointer is \<open>None\<close>, and so is a list walk that does not end. What the C library and the
  kernel decide (addresses from malloc and mmap, limits, whether munmap fails) is an argument, and
  so is the function table of any scheduler other than \<open>RoundRobin\<close>. \<open>LWP_DEBUG\<close> is off, so debug
  prints have no effect, but the fields their arguments read are still read.
\<close>

unbundle bit_operations_syntax

section \<open>Data\<close>

text \<open>The register file of lwp.h; the floating point area is its 512 bytes.\<close>

record rfile =
  rax :: "64 word"
  rbx :: "64 word"
  rcx :: "64 word"
  rdx :: "64 word"
  rsi :: "64 word"
  rdi :: "64 word"
  rbp :: "64 word"
  rsp :: "64 word"
  r8 :: "64 word"
  r9 :: "64 word"
  r10 :: "64 word"
  r11 :: "64 word"
  r12 :: "64 word"
  r13 :: "64 word"
  r14 :: "64 word"
  r15 :: "64 word"
  fxsave :: "byte list"

definition FPU_INIT :: "byte list" where
  "FPU_INIT = [0x7f, 0x03] @ replicate 22 0 @ [0x80, 0x1f, 0, 0, 0xff, 0xff] @ replicate 146 0
     @ replicate 16 0x25 @ replicate 24 0 @ [0xff, 0, 0, 0, 0, 0xff] @ replicate 290 0"

text \<open>\<open>struct threadinfo_st\<close>; the reserved pointers have the names lwp.c gives them.\<close>

record threadinfo =
  tid :: "64 word"
  stack :: addr
  stacksize :: size_t
  state :: rfile
  status :: u32
  live_next :: addr
  wait_next :: addr
  sched_prev :: addr
  sched_next :: addr
  exited :: addr

record zombie =
  zombie_thread :: addr
  z_next :: addr

datatype scheduler = NULL_scheduler | RoundRobin | Other_scheduler nat

text \<open>
  The static variables of both files, the allocated structures, the words on thread stacks, the
  machine's registers, and whatever state another scheduler keeps.
\<close>

record 'x lwp_state =
  threads :: "addr \<Rightarrow> threadinfo option"
  zombies :: "addr \<Rightarrow> zombie option"
  stack_words :: "addr \<Rightarrow> 64 word"
  cpu :: rfile
  current_scheduler :: scheduler
  curr_thread :: addr
  waiting_head :: addr
  waiting_tail :: addr
  live_head :: addr
  live_tail :: addr
  zombies_head :: addr
  zombies_tail :: addr
  curr_tid :: "64 word"
  scheduler_thread_count :: int
  sched_head :: addr
  sched_tail :: addr
  custom :: 'x

definition NO_THREAD :: "64 word" where "NO_THREAD = 0"
definition FIRST_TID :: "64 word" where "FIRST_TID = 1"

section \<open>Termination status (lwp.h)\<close>

definition TERMOFFSET :: nat where "TERMOFFSET = 8"
definition LWP_TERM :: u32 where "LWP_TERM = 1"
definition LWP_LIVE :: u32 where "LWP_LIVE = 0"

definition MKTERMSTAT :: "u32 \<Rightarrow> u32 \<Rightarrow> u32" where
  "MKTERMSTAT a b = push_bit TERMOFFSET a OR (b AND (push_bit TERMOFFSET 1 - 1))"

definition LWPTERMINATED :: "u32 \<Rightarrow> bool" where
  "LWPTERMINATED s \<longleftrightarrow> drop_bit TERMOFFSET s AND LWP_TERM = LWP_TERM"

definition LWPTERMSTAT :: "u32 \<Rightarrow> u32" where
  "LWPTERMSTAT s = s AND (push_bit TERMOFFSET 1 - 1)"

section \<open>Memory accesses\<close>

definition thr :: "addr \<Rightarrow> 'x lwp_state \<Rightarrow> threadinfo option" where
  "thr p s = (if p = NULL then None else threads s p)"

definition upd :: "addr \<Rightarrow> (threadinfo \<Rightarrow> threadinfo) \<Rightarrow> 'x lwp_state \<Rightarrow> 'x lwp_state option" where
  "upd p f s = (case thr p s of None \<Rightarrow> None
     | Some c \<Rightarrow> Some (s\<lparr>threads := (threads s)(p := Some (f c))\<rparr>))"

definition zom :: "addr \<Rightarrow> 'x lwp_state \<Rightarrow> zombie option" where
  "zom p s = (if p = NULL then None else zombies s p)"

definition zupd :: "addr \<Rightarrow> (zombie \<Rightarrow> zombie) \<Rightarrow> 'x lwp_state \<Rightarrow> 'x lwp_state option" where
  "zupd p f s = (case zom p s of None \<Rightarrow> None
     | Some z \<Rightarrow> Some (s\<lparr>zombies := (zombies s)(p := Some (f z))\<rparr>))"

section \<open>The round-robin scheduler (scheduler.c)\<close>

definition rr_init :: "'x lwp_state \<Rightarrow> 'x lwp_state" where
  "rr_init s = s\<lparr>scheduler_thread_count := 0, sched_head := NULL, sched_tail := NULL\<rparr>"

definition rr_shutdown :: "'x lwp_state \<Rightarrow> 'x lwp_state" where
  "rr_shutdown s = s\<lparr>scheduler_thread_count := 0, sched_head := NULL, sched_tail := NULL\<rparr>"

definition rr_admit :: "addr \<Rightarrow> 'x lwp_state \<Rightarrow> 'x lwp_state option" where
  "rr_admit new s =
    (if new = NULL then Some s
     else do {
       s \<leftarrow> (if sched_head s = NULL then do {
              s \<leftarrow> upd new (\<lambda>c. c\<lparr>sched_prev := NULL\<rparr>) s;
              s \<leftarrow> upd new (\<lambda>c. c\<lparr>sched_next := NULL\<rparr>) s;
              let s = s\<lparr>sched_head := new\<rparr>;
              Some (s\<lparr>sched_tail := new\<rparr>)
            }
            else do {
              s \<leftarrow> upd (sched_tail s) (\<lambda>c. c\<lparr>sched_next := new\<rparr>) s;
              s \<leftarrow> upd new (\<lambda>c. c\<lparr>sched_prev := sched_tail s\<rparr>) s;
              s \<leftarrow> upd new (\<lambda>c. c\<lparr>sched_next := NULL\<rparr>) s;
              Some (s\<lparr>sched_tail := new\<rparr>)
            });
       Some (s\<lparr>scheduler_thread_count := scheduler_thread_count s + 1\<rparr>)
     })"

partial_function (option) rr_search :: "addr \<Rightarrow> addr \<Rightarrow> 'x lwp_state \<Rightarrow> bool option" where
  "rr_search victim current_thread s =
    (if current_thread = NULL then Some False
     else if current_thread = victim then Some True
     else do {
       c \<leftarrow> thr current_thread s;
       rr_search victim (sched_next c) s
     })"

definition rr_remove :: "addr \<Rightarrow> 'x lwp_state \<Rightarrow> 'x lwp_state option" where
  "rr_remove victim s =
    (if victim = NULL then Some s
     else do {
       found \<leftarrow> rr_search victim (sched_head s) s;
       if \<not> found then Some s
       else do {
         v \<leftarrow> thr victim s;
         let prev_thread = sched_prev v;
         let next_thread = sched_next v;
         s \<leftarrow> (if victim = sched_head s \<and> victim = sched_tail s
              then Some (s\<lparr>sched_head := NULL, sched_tail := NULL\<rparr>)
              else if victim = sched_head s then do {
                s \<leftarrow> upd next_thread (\<lambda>c. c\<lparr>sched_prev := NULL\<rparr>) s;
                Some (s\<lparr>sched_head := next_thread\<rparr>)
              }
              else if victim = sched_tail s then do {
                s \<leftarrow> upd prev_thread (\<lambda>c. c\<lparr>sched_next := NULL\<rparr>) s;
                Some (s\<lparr>sched_tail := prev_thread\<rparr>)
              }
              else do {
                s \<leftarrow> upd prev_thread (\<lambda>c. c\<lparr>sched_next := next_thread\<rparr>) s;
                upd next_thread (\<lambda>c. c\<lparr>sched_prev := prev_thread\<rparr>) s
              });
         s \<leftarrow> upd victim (\<lambda>c. c\<lparr>sched_prev := NULL\<rparr>) s;
         s \<leftarrow> upd victim (\<lambda>c. c\<lparr>sched_next := NULL\<rparr>) s;
         Some (s\<lparr>scheduler_thread_count := scheduler_thread_count s - 1\<rparr>)
       }
     })"

definition rr_next :: "'x lwp_state \<Rightarrow> (addr \<times> 'x lwp_state) option" where
  "rr_next s =
    (if sched_head s = NULL then Some (NULL, s)
     else if sched_head s = sched_tail s then Some (sched_head s, s)
     else do {
       let old_head = sched_head s;
       h \<leftarrow> thr (sched_head s) s;
       let next_thread = sched_next h;
       s \<leftarrow> upd (sched_tail s) (\<lambda>c. c\<lparr>sched_next := sched_head s\<rparr>) s;
       s \<leftarrow> upd (sched_head s) (\<lambda>c. c\<lparr>sched_prev := sched_tail s\<rparr>) s;
       s \<leftarrow> upd (sched_head s) (\<lambda>c. c\<lparr>sched_next := NULL\<rparr>) s;
       s \<leftarrow> upd next_thread (\<lambda>c. c\<lparr>sched_prev := NULL\<rparr>) s;
       let s = s\<lparr>sched_tail := sched_head s\<rparr>;
       let s = s\<lparr>sched_head := next_thread\<rparr>;
       Some (old_head, s)
     })"

definition rr_qlen :: "'x lwp_state \<Rightarrow> int" where
  "rr_qlen s = scheduler_thread_count s"

text \<open>\<open>struct scheduler\<close>: a table of functions on the state.\<close>

record 's sched_ops =
  so_init :: "('s \<Rightarrow> 's option) option"
  so_shutdown :: "('s \<Rightarrow> 's option) option"
  so_admit :: "addr \<Rightarrow> 's \<Rightarrow> 's option"
  so_remove :: "addr \<Rightarrow> 's \<Rightarrow> 's option"
  so_next :: "'s \<Rightarrow> (addr \<times> 's) option"
  so_qlen :: "'s \<Rightarrow> int option"

definition rr_publish :: "'x lwp_state sched_ops" where
  "rr_publish = \<lparr>so_init = Some (\<lambda>s. Some (rr_init s)), so_shutdown = Some (\<lambda>s. Some (rr_shutdown s)),
     so_admit = rr_admit, so_remove = rr_remove, so_next = rr_next, so_qlen = (\<lambda>s. Some (rr_qlen s))\<rparr>"

definition sched_of ::
  "(nat \<Rightarrow> 'x lwp_state sched_ops) \<Rightarrow> scheduler \<Rightarrow> 'x lwp_state sched_ops option" where
  "sched_of tbl p = (case p of NULL_scheduler \<Rightarrow> None | RoundRobin \<Rightarrow> Some rr_publish
     | Other_scheduler n \<Rightarrow> Some (tbl n))"

section \<open>The library's queues\<close>

definition insert_live :: "addr \<Rightarrow> 'x lwp_state \<Rightarrow> 'x lwp_state option" where
  "insert_live new s =
    (if new = NULL then Some s
     else if live_head s = NULL then do {
       s \<leftarrow> upd new (\<lambda>c. c\<lparr>live_next := NULL\<rparr>) s;
       let s = s\<lparr>live_head := new\<rparr>;
       Some (s\<lparr>live_tail := new\<rparr>)
     }
     else do {
       s \<leftarrow> upd (live_tail s) (\<lambda>c. c\<lparr>live_next := new\<rparr>) s;
       s \<leftarrow> upd new (\<lambda>c. c\<lparr>live_next := NULL\<rparr>) s;
       Some (s\<lparr>live_tail := new\<rparr>)
     })"

text \<open>The searches return the predecessor and the node, or a NULL node when there is none.\<close>

partial_function (option) live_search ::
  "addr \<Rightarrow> addr \<Rightarrow> addr \<Rightarrow> 'x lwp_state \<Rightarrow> (addr \<times> addr) option" where
  "live_search victim prev_thread node s =
    (if node = NULL then Some (prev_thread, NULL)
     else if node = victim then Some (prev_thread, node)
     else do {
       c \<leftarrow> thr node s;
       live_search victim node (live_next c) s
     })"

definition remove_live :: "addr \<Rightarrow> 'x lwp_state \<Rightarrow> 'x lwp_state option" where
  "remove_live victim s =
    (if victim = NULL then Some s
     else do {
       (prev_thread, node) \<leftarrow> live_search victim NULL (live_head s) s;
       if node = NULL then Some s
       else do {
         c \<leftarrow> thr node s;
         let next_thread = live_next c;
         s \<leftarrow> (if node = live_head s \<and> node = live_tail s
              then Some (s\<lparr>live_head := NULL, live_tail := NULL\<rparr>)
              else if node = live_head s then Some (s\<lparr>live_head := next_thread\<rparr>)
              else if node = live_tail s then do {
                s \<leftarrow> upd prev_thread (\<lambda>c. c\<lparr>live_next := NULL\<rparr>) s;
                Some (s\<lparr>live_tail := prev_thread\<rparr>)
              }
              else upd prev_thread (\<lambda>c. c\<lparr>live_next := next_thread\<rparr>) s);
         upd node (\<lambda>c. c\<lparr>live_next := NULL\<rparr>) s
       }
     })"

definition insert_waiting :: "addr \<Rightarrow> 'x lwp_state \<Rightarrow> 'x lwp_state option" where
  "insert_waiting new s =
    (if new = NULL then Some s
     else if waiting_head s = NULL then do {
       s \<leftarrow> upd new (\<lambda>c. c\<lparr>wait_next := NULL\<rparr>) s;
       let s = s\<lparr>waiting_head := new\<rparr>;
       Some (s\<lparr>waiting_tail := new\<rparr>)
     }
     else do {
       s \<leftarrow> upd (waiting_tail s) (\<lambda>c. c\<lparr>wait_next := new\<rparr>) s;
       s \<leftarrow> upd new (\<lambda>c. c\<lparr>wait_next := NULL\<rparr>) s;
       Some (s\<lparr>waiting_tail := new\<rparr>)
     })"

partial_function (option) waiting_search ::
  "addr \<Rightarrow> addr \<Rightarrow> addr \<Rightarrow> 'x lwp_state \<Rightarrow> (addr \<times> addr) option" where
  "waiting_search victim prev_thread node s =
    (if node = NULL then Some (prev_thread, NULL)
     else if node = victim then Some (prev_thread, node)
     else do {
       c \<leftarrow> thr node s;
       waiting_search victim node (wait_next c) s
     })"

definition remove_waiting :: "addr \<Rightarrow> 'x lwp_state \<Rightarrow> 'x lwp_state option" where
  "remove_waiting victim s =
    (if victim = NULL then Some s
     else do {
       (prev_thread, node) \<leftarrow> waiting_search victim NULL (waiting_head s) s;
       if node = NULL then Some s
       else do {
         c \<leftarrow> thr node s;
         let next_thread = wait_next c;
         s \<leftarrow> (if node = waiting_head s \<and> node = waiting_tail s
              then Some (s\<lparr>waiting_head := NULL, waiting_tail := NULL\<rparr>)
              else if node = waiting_head s then Some (s\<lparr>waiting_head := next_thread\<rparr>)
              else if node = waiting_tail s then do {
                s \<leftarrow> upd prev_thread (\<lambda>c. c\<lparr>wait_next := NULL\<rparr>) s;
                Some (s\<lparr>waiting_tail := prev_thread\<rparr>)
              }
              else upd prev_thread (\<lambda>c. c\<lparr>wait_next := next_thread\<rparr>) s);
         upd node (\<lambda>c. c\<lparr>wait_next := NULL\<rparr>) s
       }
     })"

section \<open>Zombies\<close>

text \<open>
  What a call of the library returns besides the state: control stays with the caller, control has
  moved to another thread, which goes on at an address, or the process has exited.
\<close>

datatype control = Continue | Switch "64 word" | Exit int


text \<open>\<open>new_zombie\<close> is what malloc returned for the wrapper; its contents are overwritten at once.\<close>

definition insert_zombie :: "addr \<Rightarrow> addr \<Rightarrow> 'x lwp_state \<Rightarrow> (control \<times> 'x lwp_state) option" where
  "insert_zombie new new_zombie s =
    (if new = NULL then Some (Continue, s)
     else if new_zombie = NULL then do { _ \<leftarrow> thr new s; Some (Exit EXIT_FAILURE, s) }
     else do {
       let s = s\<lparr>zombies := (zombies s)(new_zombie := Some \<lparr>zombie_thread = new, z_next = NULL\<rparr>)\<rparr>;
       if zombies_head s = NULL
       then Some (Continue, s\<lparr>zombies_head := new_zombie, zombies_tail := new_zombie\<rparr>)
       else do {
         s \<leftarrow> zupd (zombies_tail s) (\<lambda>z. z\<lparr>z_next := new_zombie\<rparr>) s;
         s \<leftarrow> zupd new_zombie (\<lambda>z. z\<lparr>z_next := NULL\<rparr>) s;
         Some (Continue, s\<lparr>zombies_tail := new_zombie\<rparr>)
       }
     })"

partial_function (option) find_zombie_loop :: "addr \<Rightarrow> addr \<Rightarrow> 'x lwp_state \<Rightarrow> addr option" where
  "find_zombie_loop node curr_zombie s =
    (if curr_zombie = NULL then Some NULL
     else do {
       z \<leftarrow> zom curr_zombie s;
       if zombie_thread z = node then Some curr_zombie
       else find_zombie_loop node (z_next z) s
     })"

definition find_zombie :: "addr \<Rightarrow> 'x lwp_state \<Rightarrow> addr option" where
  "find_zombie node s = find_zombie_loop node (zombies_head s) s"

partial_function (option) zombie_search ::
  "addr \<Rightarrow> addr \<Rightarrow> addr \<Rightarrow> 'x lwp_state \<Rightarrow> (addr \<times> addr) option" where
  "zombie_search victim prev_zombie curr_zombie s =
    (if curr_zombie = NULL then Some (prev_zombie, NULL)
     else do {
       z \<leftarrow> zom curr_zombie s;
       if zombie_thread z = victim then Some (prev_zombie, curr_zombie)
       else zombie_search victim curr_zombie (z_next z) s
     })"

definition remove_zombie :: "addr \<Rightarrow> 'x lwp_state \<Rightarrow> 'x lwp_state option" where
  "remove_zombie victim s =
    (if victim = NULL then Some s
     else do {
       (prev_zombie, curr_zombie) \<leftarrow> zombie_search victim NULL (zombies_head s) s;
       if curr_zombie = NULL then Some s
       else do {
         z \<leftarrow> zom curr_zombie s;
         let next_zombie = z_next z;
         s \<leftarrow> (if curr_zombie = zombies_head s \<and> curr_zombie = zombies_tail s
              then Some (s\<lparr>zombies_head := NULL, zombies_tail := NULL\<rparr>)
              else if curr_zombie = zombies_head s then Some (s\<lparr>zombies_head := next_zombie\<rparr>)
              else if curr_zombie = zombies_tail s then do {
                s \<leftarrow> zupd prev_zombie (\<lambda>z. z\<lparr>z_next := NULL\<rparr>) s;
                Some (s\<lparr>zombies_tail := prev_zombie\<rparr>)
              }
              else zupd prev_zombie (\<lambda>z. z\<lparr>z_next := next_zombie\<rparr>) s);
         zupd curr_zombie (\<lambda>z. z\<lparr>z_next := NULL\<rparr>) s
       }
     })"

text \<open>
  \<open>munmap_fails base len\<close> is the kernel's answer. The result is the control, the tid, and the status
  stored through the caller's pointer when it is not NULL.
\<close>

definition reap_and_remove ::
  "(addr \<Rightarrow> size_t \<Rightarrow> bool) \<Rightarrow> addr \<Rightarrow> bool \<Rightarrow> 'x lwp_state \<Rightarrow>
    (control \<times> 64 word \<times> u32 option \<times> 'x lwp_state) option" where
  "reap_and_remove munmap_fails dead_thread want_status s =
    (if dead_thread = NULL then Some (Continue, NO_THREAD, None, s)
     else do {
       zombie_node \<leftarrow> find_zombie dead_thread s;
       if zombie_node = NULL then do {
         _ \<leftarrow> thr dead_thread s;
         Some (Continue, NO_THREAD, None, s)
       }
       else do {
         s \<leftarrow> remove_zombie dead_thread s;
         d \<leftarrow> thr dead_thread s;
         if stack d \<noteq> NULL \<and> munmap_fails (stack d) (stacksize d)
         then Some (Exit EXIT_FAILURE, NO_THREAD, None, s)
         else do {
           let st = (if want_status then Some (LWPTERMSTAT (status d)) else None);
           let s = s\<lparr>threads := (threads s)(dead_thread := None)\<rparr>;
           let s = s\<lparr>zombies := (zombies s)(zombie_node := None)\<rparr>;
           Some (Continue, tid d, st, s)
         }
       }
     })"

section \<open>Creating threads\<close>

definition assign_tid :: "'x lwp_state \<Rightarrow> 64 word \<times> 'x lwp_state" where
  "assign_tid s = (curr_tid s, s\<lparr>curr_tid := curr_tid s + 1\<rparr>)"

text \<open>A page size of zero would be a division by zero, which \<open>get_stack_size\<close> gives as \<open>None\<close>.\<close>

definition round_up_page_size :: "size_t \<Rightarrow> size_t \<Rightarrow> size_t" where
  "round_up_page_size sz page_size = ((sz + page_size - 1) div page_size) * page_size"

definition STACK_ALIGNMENT :: size_t where "STACK_ALIGNMENT = 16"

definition round_down_16 :: "size_t \<Rightarrow> size_t" where
  "round_down_16 sz = sz - (sz mod STACK_ALIGNMENT)"

definition DEFAULT_STACK_SIZE :: size_t where "DEFAULT_STACK_SIZE = 8 * 1024 * 1024"

definition RLIM_INFINITY :: "64 word" where "RLIM_INFINITY = - 1"

text \<open>
  What the C library and the kernel answer during one call of \<open>lwp_create\<close>: the address malloc
  returns and the garbage in it, \<open>getrlimit\<close>, \<open>sysconf\<close>, the address mmap returns, and where the
  linker put two functions.
\<close>

record lwp_env =
  malloc_result :: addr
  malloc_garbage :: threadinfo
  getrlimit_result :: "int \<times> 64 word"
  sysconf_page_size :: int
  mmap_result :: addr
  addr_lwp_exit :: "64 word"
  addr_lwp_wrap :: "64 word"

definition MAP_FAILED :: addr where "MAP_FAILED = - 1"

definition get_stack_size :: "lwp_env \<Rightarrow> size_t option" where
  "get_stack_size e =
    (let (r, rlim_cur) = getrlimit_result e;
         raw_stack_size = (if r = - 1 \<or> rlim_cur = RLIM_INFINITY then DEFAULT_STACK_SIZE else rlim_cur);
         raw_page_size = sysconf_page_size e
     in if raw_page_size < 0 then Some 0
        else if raw_page_size = 0 then None
        else Some (round_up_page_size raw_stack_size (word_of_int raw_page_size)))"

definition LWP_EXIT_RETURN_OFFSET :: int where "LWP_EXIT_RETURN_OFFSET = - 1"
definition WRAPPER_RETURN_OFFSET :: int where "WRAPPER_RETURN_OFFSET = - 2"
definition SAVED_BP_OFFSET :: int where "SAVED_BP_OFFSET = - 3"
definition FAKE_SAVED_BP :: "64 word" where "FAKE_SAVED_BP = 0"

text \<open>Pointer arithmetic on \<open>unsigned long *\<close> is in units of eight bytes.\<close>

definition word_ptr :: "addr \<Rightarrow> int \<Rightarrow> addr" where
  "word_ptr p n = p + word_of_int (8 * n)"

definition lwp_get_scheduler :: "'x lwp_state \<Rightarrow> scheduler" where
  "lwp_get_scheduler s = current_scheduler s"

text \<open>The prologue that several functions share: fall back to round robin.\<close>

definition default_scheduler :: "'x lwp_state \<Rightarrow> 'x lwp_state" where
  "default_scheduler s =
    (if lwp_get_scheduler s = NULL_scheduler then s\<lparr>current_scheduler := RoundRobin\<rparr> else s)"

definition lwp_create ::
  "(nat \<Rightarrow> 'x lwp_state sched_ops) \<Rightarrow> lwp_env \<Rightarrow> 64 word \<Rightarrow> 64 word \<Rightarrow> 'x lwp_state \<Rightarrow>
    (64 word \<times> 'x lwp_state) option" where
  "lwp_create tbl e function argument s =
    (let new_thread = malloc_result e in
     if new_thread = NULL then Some (NO_THREAD, s)
     else do {
       let s = s\<lparr>threads := (threads s)(new_thread := Some (malloc_garbage e))\<rparr>;
       let (new_tid, s) = assign_tid s;
       s \<leftarrow> upd new_thread (\<lambda>c. c\<lparr>tid := new_tid\<rparr>) s;
       stack_size \<leftarrow> get_stack_size e;
       if stack_size = 0
       then Some (NO_THREAD, s\<lparr>threads := (threads s)(new_thread := None)\<rparr>)
       else do {
         s \<leftarrow> upd new_thread (\<lambda>c. c\<lparr>stacksize := stack_size\<rparr>) s;
         let stack_base = mmap_result e;
         if stack_base = MAP_FAILED
         then Some (NO_THREAD, s\<lparr>threads := (threads s)(new_thread := None)\<rparr>)
         else do {
           s \<leftarrow> upd new_thread (\<lambda>c. c\<lparr>stack := stack_base\<rparr>) s;
           let stack_top = stack_base + stack_size;
           let aligned_stack_top = round_down_16 stack_top;
           let lwp_exit_return_pointer = word_ptr aligned_stack_top LWP_EXIT_RETURN_OFFSET;
           let wrapper_return_pointer = word_ptr aligned_stack_top WRAPPER_RETURN_OFFSET;
           let saved_bp_pointer = word_ptr aligned_stack_top SAVED_BP_OFFSET;
           let s = s\<lparr>stack_words := (stack_words s)(lwp_exit_return_pointer := addr_lwp_exit e)\<rparr>;
           let s = s\<lparr>stack_words := (stack_words s)(wrapper_return_pointer := addr_lwp_wrap e)\<rparr>;
           let s = s\<lparr>stack_words := (stack_words s)(saved_bp_pointer := FAKE_SAVED_BP)\<rparr>;
           s \<leftarrow> upd new_thread (\<lambda>c. c\<lparr>state := (state c)\<lparr>rdi := function, rsi := argument,
                 rsp := saved_bp_pointer, rbp := saved_bp_pointer, fxsave := FPU_INIT\<rparr>\<rparr>) s;
           s \<leftarrow> upd new_thread (\<lambda>c. c\<lparr>status := LWP_LIVE, live_next := NULL, wait_next := NULL,
                 sched_prev := NULL, sched_next := NULL, exited := NULL\<rparr>) s;
           s \<leftarrow> insert_live new_thread s;
           let s = default_scheduler s;
           ops \<leftarrow> sched_of tbl (current_scheduler s);
           s \<leftarrow> so_admit ops new_thread s;
           c \<leftarrow> thr new_thread s;
           Some (tid c, s)
         }
       }
     })"

section \<open>Switching between threads\<close>

text \<open>
  \<open>swap_rfiles\<close> of magic64.S. The registers \<open>cpu s\<close> are those at its entry: the stack pointer is at
  the return address that the call has pushed. The prologue pushes the base pointer and makes a frame;
  the registers go to the old thread's structure, if any, after which \<open>rax\<close> holds the address of the
  floating point area; those of the new thread, if any, are loaded. \<open>leave\<close> and \<open>ret\<close> then run
  with the stack pointer that has been loaded; the result is the address at which execution goes on.
\<close>

definition push_frame :: "'x lwp_state \<Rightarrow> 'x lwp_state" where
  "push_frame s = (let sp = rsp (cpu s) - 8 in
     s\<lparr>stack_words := (stack_words s)(sp := rbp (cpu s)), cpu := (cpu s)\<lparr>rsp := sp, rbp := sp\<rparr>\<rparr>)"

definition save_rfile :: "addr \<Rightarrow> 'x lwp_state \<Rightarrow> 'x lwp_state option" where
  "save_rfile old s =
    (if old = NULL then Some s
     else do {
       s \<leftarrow> upd old (\<lambda>c. c\<lparr>state := cpu s\<rparr>) s;
       Some (s\<lparr>cpu := (cpu s)\<lparr>rax := rdi (cpu s) + 128\<rparr>\<rparr>)
     })"

definition load_rfile :: "addr \<Rightarrow> 'x lwp_state \<Rightarrow> 'x lwp_state option" where
  "load_rfile new s =
    (if new = NULL then Some s
     else do {
       c \<leftarrow> thr new s;
       Some (s\<lparr>cpu := state c\<rparr>)
     })"

definition leave_ret :: "'x lwp_state \<Rightarrow> 64 word \<times> 'x lwp_state" where
  "leave_ret s = (let bp = rbp (cpu s) in
     (stack_words s (bp + 8), s\<lparr>cpu := (cpu s)\<lparr>rbp := stack_words s bp, rsp := bp + 16\<rparr>\<rparr>))"

definition swap_rfiles :: "addr \<Rightarrow> addr \<Rightarrow> 'x lwp_state \<Rightarrow> (64 word \<times> 'x lwp_state) option" where
  "swap_rfiles old new s = do {
     let s = push_frame s;
     s \<leftarrow> save_rfile old s;
     s \<leftarrow> load_rfile new s;
     Some (leave_ret s)
   }"

definition lwp_yield ::
  "(nat \<Rightarrow> 'x lwp_state sched_ops) \<Rightarrow> (addr \<Rightarrow> size_t \<Rightarrow> bool) \<Rightarrow> 'x lwp_state \<Rightarrow>
    (control \<times> 'x lwp_state) option" where
  "lwp_yield tbl munmap_fails s = do {
     let s = default_scheduler s;
     ops \<leftarrow> sched_of tbl (current_scheduler s);
     (next_thread, s) \<leftarrow> so_next ops s;
     let cur = curr_thread s;
     if cur = NULL \<and> next_thread = NULL then Some (Continue, s)
     else if cur \<noteq> NULL \<and> next_thread = NULL then do {
       c \<leftarrow> thr cur s;
       if \<not> LWPTERMINATED (status c) then Some (Continue, s)
       else do {
         let exit_status = LWPTERMSTAT (status c);
         if stack c = NULL then do {
           (k, _, _, s) \<leftarrow> reap_and_remove munmap_fails cur False s;
           Some (case k of Exit n \<Rightarrow> (Exit n, s)
                 | _ \<Rightarrow> (Exit (uint exit_status), s\<lparr>curr_thread := NULL\<rparr>))
         }
         else Some (Exit (uint exit_status), s)
       }
     }
     else if cur = NULL then do {
       let s = s\<lparr>curr_thread := next_thread\<rparr>;
       _ \<leftarrow> thr next_thread s;
       (pc, s) \<leftarrow> swap_rfiles NULL next_thread s;
       Some (Switch pc, s)
     }
     else if cur = next_thread then Some (Continue, s)
     else do {
       let prev_thread = cur;
       let s = s\<lparr>curr_thread := next_thread\<rparr>;
       _ \<leftarrow> thr prev_thread s;
       _ \<leftarrow> thr next_thread s;
       (pc, s) \<leftarrow> swap_rfiles prev_thread next_thread s;
       Some (Switch pc, s)
     }
   }"

definition lwp_start ::
  "(nat \<Rightarrow> 'x lwp_state sched_ops) \<Rightarrow> (addr \<Rightarrow> size_t \<Rightarrow> bool) \<Rightarrow> lwp_env \<Rightarrow> 'x lwp_state \<Rightarrow>
    (control \<times> 'x lwp_state) option" where
  "lwp_start tbl munmap_fails e s =
    (let new_thread = malloc_result e in
     if new_thread = NULL then Some (Exit EXIT_FAILURE, s)
     else do {
       let s = s\<lparr>threads := (threads s)(new_thread := Some (malloc_garbage e))\<rparr>;
       let (new_tid, s) = assign_tid s;
       s \<leftarrow> upd new_thread (\<lambda>c. c\<lparr>tid := new_tid, stack := NULL, stacksize := 0, status := LWP_LIVE,
             live_next := NULL, wait_next := NULL, sched_prev := NULL, sched_next := NULL,
             exited := NULL\<rparr>) s;
       s \<leftarrow> insert_live new_thread s;
       let s = default_scheduler s;
       ops \<leftarrow> sched_of tbl (current_scheduler s);
       s \<leftarrow> so_admit ops new_thread s;
       let s = s\<lparr>curr_thread := new_thread\<rparr>;
       lwp_yield tbl munmap_fails s
     })"

section \<open>Terminating and waiting\<close>

definition lwp_exit ::
  "(nat \<Rightarrow> 'x lwp_state sched_ops) \<Rightarrow> (addr \<Rightarrow> size_t \<Rightarrow> bool) \<Rightarrow> addr \<Rightarrow> u32 \<Rightarrow> 'x lwp_state \<Rightarrow>
    (control \<times> 'x lwp_state) option" where
  "lwp_exit tbl munmap_fails new_zombie exit_code s =
    (if curr_thread s = NULL then Some (Continue, s)
     else do {
       s \<leftarrow> upd (curr_thread s) (\<lambda>c. c\<lparr>status := MKTERMSTAT LWP_TERM exit_code\<rparr>) s;
       (k, s) \<leftarrow> insert_zombie (curr_thread s) new_zombie s;
       if k \<noteq> Continue then Some (k, s)
       else do {
         let s = default_scheduler s;
         ops \<leftarrow> sched_of tbl (current_scheduler s);
         s \<leftarrow> so_remove ops (curr_thread s) s;
         s \<leftarrow> remove_live (curr_thread s) s;
         let thread_to_wake = waiting_head s;
         s \<leftarrow> (if thread_to_wake \<noteq> NULL then do {
                s \<leftarrow> upd thread_to_wake (\<lambda>c. c\<lparr>exited := curr_thread s\<rparr>) s;
                s \<leftarrow> so_admit ops thread_to_wake s;
                remove_waiting thread_to_wake s
              }
              else Some s);
         _ \<leftarrow> thr (curr_thread s) s;
         lwp_yield tbl munmap_fails s
       }
     })"

text \<open>
  What a new thread runs. \<open>run fun arg s\<close> is the user's function, with whatever other threads do until
  it returns its value; \<open>None\<close> when it does not return.
\<close>

definition lwp_wrap ::
  "(nat \<Rightarrow> 'x lwp_state sched_ops) \<Rightarrow> (addr \<Rightarrow> size_t \<Rightarrow> bool) \<Rightarrow> addr \<Rightarrow>
    (64 word \<Rightarrow> 64 word \<Rightarrow> 'x lwp_state \<Rightarrow> (u32 \<times> 'x lwp_state) option) \<Rightarrow>
    64 word \<Rightarrow> 64 word \<Rightarrow> 'x lwp_state \<Rightarrow> (control \<times> 'x lwp_state) option" where
  "lwp_wrap tbl munmap_fails new_zombie run fun_ptr arg s = do {
     (rval, s) \<leftarrow> run fun_ptr arg s;
     lwp_exit tbl munmap_fails new_zombie rval s
   }"

text \<open>
  \<open>lwp_wait\<close> blocks in the middle: \<open>Wait_blocked\<close> means that control has moved to another thread, and
  the caller goes on with \<open>lwp_wait_resumed\<close> when it is switched to again.
\<close>

datatype wait_result = Wait_returns "64 word" "u32 option" | Wait_blocked "64 word" | Wait_exits int

definition wait_reap ::
  "(addr \<Rightarrow> size_t \<Rightarrow> bool) \<Rightarrow> addr \<Rightarrow> bool \<Rightarrow> 'x lwp_state \<Rightarrow> (wait_result \<times> 'x lwp_state) option" where
  "wait_reap munmap_fails thread_to_reap want_status s = do {
     (k, t, st, s) \<leftarrow> reap_and_remove munmap_fails thread_to_reap want_status s;
     Some (case k of Exit n \<Rightarrow> (Wait_exits n, s) | _ \<Rightarrow> (Wait_returns t st, s))
   }"

definition lwp_wait_resumed ::
  "(addr \<Rightarrow> size_t \<Rightarrow> bool) \<Rightarrow> bool \<Rightarrow> 'x lwp_state \<Rightarrow> (wait_result \<times> 'x lwp_state) option" where
  "lwp_wait_resumed munmap_fails want_status s = do {
     c \<leftarrow> thr (curr_thread s) s;
     if exited c \<noteq> NULL then do {
       let thread_to_reap = exited c;
       s \<leftarrow> upd (curr_thread s) (\<lambda>c. c\<lparr>exited := NULL\<rparr>) s;
       wait_reap munmap_fails thread_to_reap want_status s
     }
     else Some (Wait_returns NO_THREAD None, s)
   }"

definition lwp_wait ::
  "(nat \<Rightarrow> 'x lwp_state sched_ops) \<Rightarrow> (addr \<Rightarrow> size_t \<Rightarrow> bool) \<Rightarrow> bool \<Rightarrow> 'x lwp_state \<Rightarrow>
    (wait_result \<times> 'x lwp_state) option" where
  "lwp_wait tbl munmap_fails want_status s = do {
     let s = default_scheduler s;
     ops \<leftarrow> sched_of tbl (current_scheduler s);
     if curr_thread s = NULL then Some (Wait_returns NO_THREAD None, s)
     else do {
       c \<leftarrow> thr (curr_thread s) s;
       if exited c \<noteq> NULL then do {
         let thread_to_reap = exited c;
         s \<leftarrow> upd (curr_thread s) (\<lambda>c. c\<lparr>exited := NULL\<rparr>) s;
         wait_reap munmap_fails thread_to_reap want_status s
       }
       else if zombies_head s \<noteq> NULL then do {
         z \<leftarrow> zom (zombies_head s) s;
         wait_reap munmap_fails (zombie_thread z) want_status s
       }
       else do {
         n \<leftarrow> so_qlen ops s;
         if n \<le> 1 then Some (Wait_returns NO_THREAD None, s)
         else do {
           s \<leftarrow> so_remove ops (curr_thread s) s;
           s \<leftarrow> insert_waiting (curr_thread s) s;
           (k, s) \<leftarrow> lwp_yield tbl munmap_fails s;
           case k of
             Continue \<Rightarrow> lwp_wait_resumed munmap_fails want_status s
           | Switch pc \<Rightarrow> Some (Wait_blocked pc, s)
           | Exit n \<Rightarrow> Some (Wait_exits n, s)
         }
       }
     }
   }"

section \<open>Queries and scheduler changes\<close>

definition lwp_gettid :: "'x lwp_state \<Rightarrow> 64 word option" where
  "lwp_gettid s =
    (if curr_thread s = NULL then Some NO_THREAD
     else do { c \<leftarrow> thr (curr_thread s) s; Some (tid c) })"

partial_function (option) tid_live :: "64 word \<Rightarrow> addr \<Rightarrow> 'x lwp_state \<Rightarrow> addr option" where
  "tid_live t live_thread s =
    (if live_thread = NULL then Some NULL
     else do {
       c \<leftarrow> thr live_thread s;
       if tid c = t then Some live_thread else tid_live t (live_next c) s
     })"

partial_function (option) tid_waiting :: "64 word \<Rightarrow> addr \<Rightarrow> 'x lwp_state \<Rightarrow> addr option" where
  "tid_waiting t waiting_thread s =
    (if waiting_thread = NULL then Some NULL
     else do {
       c \<leftarrow> thr waiting_thread s;
       if tid c = t then Some waiting_thread else tid_waiting t (wait_next c) s
     })"

partial_function (option) tid_zombie :: "64 word \<Rightarrow> addr \<Rightarrow> 'x lwp_state \<Rightarrow> addr option" where
  "tid_zombie t curr_zombie s =
    (if curr_zombie = NULL then Some NULL
     else do {
       z \<leftarrow> zom curr_zombie s;
       c \<leftarrow> thr (zombie_thread z) s;
       if tid c = t then Some (zombie_thread z) else tid_zombie t (z_next z) s
     })"

definition tid2thread :: "64 word \<Rightarrow> 'x lwp_state \<Rightarrow> addr option" where
  "tid2thread t s = do {
     p \<leftarrow> tid_live t (live_head s) s;
     if p \<noteq> NULL then Some p
     else do {
       p \<leftarrow> tid_waiting t (waiting_head s) s;
       if p \<noteq> NULL then Some p
       else tid_zombie t (zombies_head s) s
     }
   }"

text \<open>The transfer loop of \<open>lwp_set_scheduler\<close>, \<open>n\<close> iterations from \<open>scheduler_thread\<close> on.\<close>

fun transfer_threads ::
  "'x lwp_state sched_ops \<Rightarrow> 'x lwp_state sched_ops \<Rightarrow> nat \<Rightarrow> addr \<Rightarrow> 'x lwp_state \<Rightarrow> 'x lwp_state option"
  where
  "transfer_threads old new 0 scheduler_thread s = Some s"
| "transfer_threads old new (Suc n) scheduler_thread s = do {
     s \<leftarrow> so_remove old scheduler_thread s;
     s \<leftarrow> so_admit new scheduler_thread s;
     (scheduler_thread, s) \<leftarrow> so_next old s;
     transfer_threads old new n scheduler_thread s
   }"

definition lwp_set_scheduler ::
  "(nat \<Rightarrow> 'x lwp_state sched_ops) \<Rightarrow> scheduler \<Rightarrow> 'x lwp_state \<Rightarrow> 'x lwp_state option" where
  "lwp_set_scheduler tbl fn s =
    (let new_scheduler = (if fn = NULL_scheduler then RoundRobin else fn) in
     if new_scheduler = current_scheduler s then Some s
     else do {
       new \<leftarrow> sched_of tbl new_scheduler;
       s \<leftarrow> (case so_init new of None \<Rightarrow> Some s | Some f \<Rightarrow> f s);
       s \<leftarrow> (if current_scheduler s = NULL_scheduler then Some s
            else do {
              old \<leftarrow> sched_of tbl (current_scheduler s);
              (scheduler_thread, s) \<leftarrow> so_next old s;
              len_of_queue \<leftarrow> so_qlen old s;
              s \<leftarrow> transfer_threads old new (nat len_of_queue) scheduler_thread s;
              case so_shutdown old of None \<Rightarrow> Some s | Some f \<Rightarrow> f s
            });
       Some (s\<lparr>current_scheduler := new_scheduler\<rparr>)
     })"

end
