(* ===== verification/Lwp_Queues.thy ===== *)
theory Lwp_Queues
  imports Lwp_Model
begin

text \<open>
  The linked lists of Asgn2 as lists: a chain of thread structures through one of their pointer
  fields, what an insertion and a removal do to it, and a frame that says which fields and static
  variables an operation may change.
\<close>

section \<open>Chains through a pointer field\<close>

type_synonym heap = "addr \<Rightarrow> threadinfo option"

definition first_of :: "addr list \<Rightarrow> addr" where
  "first_of xs = (if xs = [] then NULL else hd xs)"

definition last_of :: "addr list \<Rightarrow> addr" where
  "last_of xs = (if xs = [] then NULL else last xs)"

lemma ends_simps [simp]:
  "first_of [] = NULL" "first_of (x # xs) = x" "last_of [] = NULL" "last_of (xs @ [x]) = x"
  "xs \<noteq> [] \<Longrightarrow> first_of (xs @ ys) = first_of xs" "ys \<noteq> [] \<Longrightarrow> last_of (xs @ ys) = last_of ys"
  "last_of [x] = x" "last_of (x # y # xs) = last_of (y # xs)"
  by (simp_all add: first_of_def last_of_def)

lemma first_of_rev [simp]: "first_of (rev xs) = last_of xs"
  by (simp add: first_of_def last_of_def hd_rev)

lemma first_of_mem: "first_of xs \<noteq> NULL \<Longrightarrow> first_of xs \<in> set xs"
  by (auto simp: first_of_def split: if_splits)

fun linked :: "(threadinfo \<Rightarrow> addr) \<Rightarrow> heap \<Rightarrow> addr list \<Rightarrow> addr \<Rightarrow> bool" where
  "linked f h [] n \<longleftrightarrow> True"
| "linked f h (x # xs) n \<longleftrightarrow>
     map_option f (h x) = Some (if xs = [] then n else hd xs) \<and> linked f h xs n"

lemma linked_append:
  "linked f h (xs @ ys) n \<longleftrightarrow> linked f h xs (if ys = [] then n else hd ys) \<and> linked f h ys n"
  by (induction xs) (auto simp: hd_append)

lemma linked_same:
  assumes "\<And>x. x \<in> set xs \<Longrightarrow> map_option f (h' x) = map_option f (h x)"
  shows "linked f h' xs n = linked f h xs n"
  using assms by (induction xs) (simp_all del: map_option_eq_Some)

lemma linked_other [simp]: "x \<notin> set xs \<Longrightarrow> linked f (h(x := v)) xs n = linked f h xs n"
  by (rule linked_same) auto

lemma linked_alloc: "linked f h xs n \<Longrightarrow> x \<in> set xs \<Longrightarrow> \<exists>c. h x = Some c"
  by (induction xs) auto

lemma linked_next:
  "linked f h (xs @ x # ys) n \<Longrightarrow> \<exists>c. h x = Some c \<and> f c = (if ys = [] then n else hd ys)"
  by (simp add: linked_append)

section \<open>Frames\<close>

text \<open>
  \<open>frame er ser s s'\<close>: thread structures agree up to the fields that \<open>er\<close> erases, and the rest of the
  state up to the static variables that \<open>ser\<close> erases.
\<close>

definition frame ::
  "(threadinfo \<Rightarrow> threadinfo) \<Rightarrow> ('x lwp_state \<Rightarrow> 'x lwp_state) \<Rightarrow> 'x lwp_state \<Rightarrow> 'x lwp_state \<Rightarrow> bool"
  where
  "frame er ser s s' \<longleftrightarrow> (\<forall>p. map_option er (threads s' p) = map_option er (threads s p)) \<and>
     ser (s'\<lparr>threads := threads s\<rparr>) = ser s"

lemma frame_refl [simp]: "frame er ser s s"
  by (simp add: frame_def)

lemma frame_field:
  assumes "frame er ser s s'" and "\<And>c. f (er c) = f c"
  shows "map_option f (threads s' p) = map_option f (threads s p)"
proof -
  have "map_option f (map_option er (threads s' p)) = map_option f (map_option er (threads s p))"
    using assms(1) by (simp add: frame_def)
  then show ?thesis by (simp add: option.map_comp comp_def assms(2))
qed

lemma frame_linked:
  assumes "frame er ser s s'" and "\<And>c. f (er c) = f c"
  shows "linked f (threads s') xs n = linked f (threads s) xs n"
  by (rule linked_same, rule frame_field [of er ser s s' f]) (use assms in auto)

lemma frame_alloc: "frame er ser s s' \<Longrightarrow> threads s' p = None \<longleftrightarrow> threads s p = None"
  unfolding frame_def by (metis option.map_disc_iff)

lemma threads_update_id: "threads s = h \<Longrightarrow> s\<lparr>threads := h\<rparr> = s"
  by (cases s) simp

lemma upd_eq: "p \<noteq> NULL \<Longrightarrow> threads s p = Some c \<Longrightarrow>
    upd p f s = Some (s\<lparr>threads := (threads s)(p := Some (f c))\<rparr>)"
  by (simp add: upd_def thr_def)

lemma thr_eq: "p \<noteq> NULL \<Longrightarrow> thr p s = threads s p"
  by (simp add: thr_def)

section \<open>Queues threaded through one field\<close>

text \<open>
  \<open>live\<close> and \<open>waiting\<close> of lwp.c are copies of one program text, with different fields and variables.
  The locale is that text over its accessors; the interpretations below are the two copies.
\<close>

locale thread_queue =
  fixes nxt :: "threadinfo \<Rightarrow> addr" and put :: "addr \<Rightarrow> threadinfo \<Rightarrow> threadinfo"
    and qhead qtail :: "'x lwp_state \<Rightarrow> addr"
    and set_head set_tail :: "addr \<Rightarrow> 'x lwp_state \<Rightarrow> 'x lwp_state"
    and search :: "addr \<Rightarrow> addr \<Rightarrow> addr \<Rightarrow> 'x lwp_state \<Rightarrow> (addr \<times> addr) option"
    and insert_q remove_q :: "addr \<Rightarrow> 'x lwp_state \<Rightarrow> 'x lwp_state option"
  assumes nxt_put: "nxt (put v c) = v" and put_put: "put v (put w c) = put v c"
    and head_tail: "qhead (set_head v s) = v" "qtail (set_head v s) = qtail s"
      "qtail (set_tail v s) = v" "qhead (set_tail v s) = qhead s"
      "threads (set_head v s) = threads s" "threads (set_tail v s) = threads s"
      "qhead (s\<lparr>threads := h\<rparr>) = qhead s" "qtail (s\<lparr>threads := h\<rparr>) = qtail s"
    and commute: "set_head v (s\<lparr>threads := h\<rparr>) = (set_head v s)\<lparr>threads := h\<rparr>"
      "set_tail v (s\<lparr>threads := h\<rparr>) = (set_tail v s)\<lparr>threads := h\<rparr>"
      "set_head v (set_tail w s) = set_tail w (set_head v s)"
      "set_head v (set_head w s) = set_head v s" "set_tail v (set_tail w s) = set_tail v s"
    and search_eq: "search victim prev cur s =
      (if cur = NULL then Some (prev, NULL) else if cur = victim then Some (prev, cur)
       else do { c \<leftarrow> thr cur s; search victim cur (nxt c) s })"
    and insert_eq: "insert_q new s =
      (if new = NULL then Some s
       else if qhead s = NULL then do {
         s \<leftarrow> upd new (put NULL) s;
         Some (set_tail new (set_head new s)) }
       else do {
         s \<leftarrow> upd (qtail s) (put new) s;
         s \<leftarrow> upd new (put NULL) s;
         Some (set_tail new s) })"
    and remove_eq: "remove_q victim s =
      (if victim = NULL then Some s
       else do {
         (prev, cur) \<leftarrow> search victim NULL (qhead s) s;
         if cur = NULL then Some s
         else do {
           c \<leftarrow> thr cur s;
           s \<leftarrow> (if cur = qhead s \<and> cur = qtail s then Some (set_tail NULL (set_head NULL s))
                else if cur = qhead s then Some (set_head (nxt c) s)
                else if cur = qtail s then do {
                  s \<leftarrow> upd prev (put NULL) s;
                  Some (set_tail prev s) }
                else upd prev (put (nxt c)) s);
           upd cur (put NULL) s
         } })"
begin

definition rep :: "'x lwp_state \<Rightarrow> addr list \<Rightarrow> bool" where
  "rep s xs \<longleftrightarrow> distinct xs \<and> NULL \<notin> set xs \<and> qhead s = first_of xs \<and> qtail s = last_of xs \<and>
     linked nxt (threads s) xs NULL"

abbreviation changes :: "'x lwp_state \<Rightarrow> 'x lwp_state \<Rightarrow> bool" where
  "changes \<equiv> frame (put NULL) (\<lambda>s. set_tail NULL (set_head NULL s))"

lemma insert_ok:
  assumes rep: "rep s xs" and new: "threads s x = Some c" "x \<noteq> NULL" "x \<notin> set xs"
  shows "\<exists>s'. insert_q x s = Some s' \<and> rep s' (xs @ [x]) \<and> changes s s'"
proof (cases xs rule: rev_cases)
  case Nil
  let ?s = "set_tail x (set_head x (s\<lparr>threads := (threads s)(x := Some (put NULL c))\<rparr>))"
  have "insert_q x s = Some ?s"
    using rep new Nil by (simp add: insert_eq upd_eq rep_def)
  moreover have "rep ?s [x]" using new by (simp add: rep_def head_tail commute nxt_put)
  moreover have "changes s ?s" using new(1) by (simp add: frame_def head_tail commute put_put threads_update_id)
  ultimately show ?thesis using Nil by auto
next
  case (snoc ys l)
  have ne: "xs \<noteq> []" using snoc by simp
  then have "qhead s \<in> set xs" using rep hd_in_set [OF ne] by (simp add: rep_def first_of_def)
  then have l: "l \<noteq> NULL" "qtail s = l" "qhead s \<noteq> NULL" "l \<noteq> x" "l \<notin> set ys"
    using rep new snoc by (auto simp: rep_def)
  obtain d where d: "threads s l = Some d" using rep snoc by (auto simp: rep_def linked_append)
  let ?h = "(threads s)(l := Some (put x d), x := Some (put NULL c))"
  let ?s = "set_tail x (s\<lparr>threads := ?h\<rparr>)"
  have "insert_q x s = Some ?s"
    using l d new by (simp add: insert_eq upd_eq)
  moreover have "linked nxt (threads s) ys l" using rep snoc by (simp add: rep_def linked_append)
  then have "linked nxt ?h (ys @ [l, x]) NULL"
    using l new snoc by (simp add: linked_append nxt_put)
  then have "rep ?s (xs @ [x])"
    using rep new snoc l by (auto simp: rep_def head_tail first_of_def hd_append)
  moreover have "changes s ?s" using new(1) d l by (simp add: frame_def head_tail commute put_put threads_update_id)
  ultimately show ?thesis by blast
qed

lemma search_found:
  assumes "linked nxt (threads s) (ys @ x # zs) n" and "x \<notin> set ys" and "NULL \<notin> set ys" and "x \<noteq> NULL"
  shows "search x p (hd (ys @ [x])) s = Some (if ys = [] then p else last ys, x)"
  using assms
proof (induction ys arbitrary: p)
  case Nil
  then show ?case by (subst search_eq) simp
next
  case (Cons y ys)
  then obtain c where "threads s y = Some c" "nxt c = hd (ys @ [x])"
    by (cases ys) auto
  moreover have "search x y (hd (ys @ [x])) s = Some (if ys = [] then y else last ys, x)"
    using Cons by simp
  moreover have "y \<noteq> x" "y \<noteq> NULL" using Cons.prems by auto
  ultimately show ?case by (subst search_eq) (simp add: thr_eq)
qed

lemma search_missing:
  assumes "linked nxt (threads s) ys NULL" and "x \<notin> set ys" and "NULL \<notin> set ys"
  shows "\<exists>q. search x p (first_of ys) s = Some (q, NULL)"
  using assms
proof (induction ys arbitrary: p)
  case Nil
  then show ?case by (subst search_eq) simp
next
  case (Cons y ys)
  then obtain c where "threads s y = Some c" "nxt c = first_of ys"
    by (auto simp: first_of_def)
  moreover have "\<exists>q. search x y (first_of ys) s = Some (q, NULL)"
    using Cons by simp
  moreover have "y \<noteq> x" "y \<noteq> NULL" using Cons.prems by auto
  ultimately show ?case by (subst search_eq) (simp add: thr_eq)
qed

lemma remove_missing:
  assumes "rep s xs" and "x \<notin> set xs"
  shows "remove_q x s = Some s"
  using search_missing [of s xs x NULL] assms by (auto simp: remove_eq rep_def)

lemma remove_present:
  assumes rep: "rep s (ys @ x # zs)"
  shows "\<exists>s'. remove_q x s = Some s' \<and> rep s' (ys @ zs) \<and> changes s s'"
proof -
  have d: "distinct (ys @ x # zs)" "NULL \<notin> set (ys @ x # zs)" and link: "linked nxt (threads s) (ys @ x # zs) NULL"
    and ends: "qhead s = first_of (ys @ x # zs)" "qtail s = last_of (ys @ x # zs)"
    using rep by (simp_all add: rep_def)
  have head: "qhead s = hd (ys @ [x])" using ends(1) by (cases ys) simp_all
  have found: "search x NULL (qhead s) s = Some (if ys = [] then NULL else last ys, x)"
    unfolding head using search_found [OF link] d by auto
  obtain c where c: "threads s x = Some c" "nxt c = first_of zs"
    using linked_next [OF link] by (auto simp: first_of_def)
  have lz: "linked nxt (threads s) zs NULL" using link by (simp add: linked_append)
  consider (only) "ys = []" "zs = []" | (first) "ys = []" "zs \<noteq> []" | (after) us p where "ys = us @ [p]"
    by (cases ys rule: rev_cases) auto
  then show ?thesis
  proof cases
    case only
    let ?s = "set_tail NULL (set_head NULL s)\<lparr>threads := (threads s)(x := Some (put NULL c))\<rparr>"
    have "remove_q x s = Some ?s"
      using d only ends found c by (simp add: remove_eq thr_eq upd_eq head_tail)
    moreover have "rep ?s []" by (simp add: rep_def head_tail)
    moreover have "changes s ?s" using c(1) by (simp add: frame_def commute put_put head_tail threads_update_id)
    ultimately show ?thesis using only by auto
  next
    case first
    let ?s = "(set_head (first_of zs) s)\<lparr>threads := (threads s)(x := Some (put NULL c))\<rparr>"
    have "x \<noteq> last zs" using d first by auto
    then have "x \<noteq> qtail s" using ends(2) first by (simp add: last_of_def)
    then have "remove_q x s = Some ?s"
      using d first ends found c by (simp add: remove_eq thr_eq upd_eq head_tail)
    moreover have "rep ?s zs" using d first ends lz by (simp add: rep_def head_tail last_of_def)
    moreover have "changes s ?s" using c(1) by (simp add: frame_def commute put_put head_tail threads_update_id)
    ultimately show ?thesis using first by auto
  next
    case after
    have p: "p \<noteq> NULL" "p \<noteq> x" "p \<notin> set us" "p \<notin> set zs" using d after by auto
    obtain e where e: "threads s p = Some e" using link after by (auto simp: linked_append)
    have us: "linked nxt (threads s) us p" using link after by (simp add: linked_append)
    have not_head: "x \<noteq> qhead s" using ends(1) d after by (auto simp: first_of_def hd_append split: if_splits)
    let ?h = "(threads s)(p := Some (put (first_of zs) e), x := Some (put NULL c))"
    let ?s = "(if zs = [] then set_tail p s else s)\<lparr>threads := ?h\<rparr>"
    have tail: "x = qtail s \<longleftrightarrow> zs = []" using ends(2) d last_in_set [of zs]
      by (cases "zs = []") (auto simp: last_of_def)
    have "remove_q x s = Some ?s"
      using d after found c e p not_head tail
      by (cases "zs = []") (simp_all add: remove_eq thr_eq upd_eq head_tail commute)
    moreover have "linked nxt ?h (us @ [p] @ zs) NULL"
      using us lz d after p by (auto simp: linked_append nxt_put first_of_def)
    then have "rep ?s (ys @ zs)"
      using d after ends p by (cases "zs = []")
        (auto simp: rep_def head_tail first_of_def last_of_def hd_append)
    moreover have "changes s ?s" using c(1) e p by (auto simp: frame_def commute put_put head_tail threads_update_id)
    ultimately show ?thesis by blast
  qed
qed

lemma remove_ok:
  assumes "rep s xs"
  shows "\<exists>s'. remove_q x s = Some s' \<and> rep s' (remove1 x xs) \<and> changes s s'"
proof (cases "x \<in> set xs")
  case True
  then obtain ys zs where "xs = ys @ x # zs" "x \<notin> set ys" by (metis split_list_first)
  with remove_present [of s ys x zs] assms show ?thesis by (simp add: remove1_append)
next
  case False
  with remove_missing [OF assms] assms show ?thesis by (simp add: remove1_idem)
qed

end

interpretation live: thread_queue live_next "\<lambda>v c. c\<lparr>live_next := v\<rparr>" live_head live_tail
  "\<lambda>v s. s\<lparr>live_head := v\<rparr>" "\<lambda>v s. s\<lparr>live_tail := v\<rparr>" live_search insert_live remove_live
proof (unfold_locales, goal_cases)
  case (16 victim prev cur s)
  show ?case by (subst live_search.simps) simp
next
  case (17 new s)
  show ?case by (simp add: insert_live_def Let_def)
next
  case (18 victim s)
  show ?case by (simp add: remove_live_def Let_def cong: if_cong)
qed simp_all

interpretation waiting: thread_queue wait_next "\<lambda>v c. c\<lparr>wait_next := v\<rparr>" waiting_head waiting_tail
  "\<lambda>v s. s\<lparr>waiting_head := v\<rparr>" "\<lambda>v s. s\<lparr>waiting_tail := v\<rparr>" waiting_search insert_waiting
  remove_waiting
proof (unfold_locales, goal_cases)
  case (16 victim prev cur s)
  show ?case by (subst waiting_search.simps) simp
next
  case (17 new s)
  show ?case by (simp add: insert_waiting_def Let_def)
next
  case (18 victim s)
  show ?case by (simp add: remove_waiting_def Let_def cong: if_cong)
qed simp_all

section \<open>The zombie queue\<close>

text \<open>Its nodes are wrappers that malloc returned; a zombie is a pair of a wrapper and a thread.\<close>

fun zlinked :: "(addr \<Rightarrow> zombie option) \<Rightarrow> (addr \<times> addr) list \<Rightarrow> addr \<Rightarrow> bool" where
  "zlinked h [] n \<longleftrightarrow> True"
| "zlinked h ((p, t) # zs) n \<longleftrightarrow>
     h p = Some \<lparr>zombie_thread = t, z_next = (if zs = [] then n else fst (hd zs))\<rparr> \<and> zlinked h zs n"

definition zrep :: "'x lwp_state \<Rightarrow> (addr \<times> addr) list \<Rightarrow> bool" where
  "zrep s zs \<longleftrightarrow> distinct (map fst zs) \<and> NULL \<notin> fst ` set zs \<and>
     zombies_head s = first_of (map fst zs) \<and> zombies_tail s = last_of (map fst zs) \<and>
     zlinked (zombies s) zs NULL"

lemma zlinked_append:
  "zlinked h (xs @ ys) n \<longleftrightarrow> zlinked h xs (if ys = [] then n else fst (hd ys)) \<and> zlinked h ys n"
  by (induction xs) (auto simp: hd_append)

lemma zlinked_other [simp]: "p \<notin> fst ` set zs \<Longrightarrow> zlinked (h(p := v)) zs n = zlinked h zs n"
  by (induction zs) auto

lemma zom_eq: "p \<noteq> NULL \<Longrightarrow> zom p s = zombies s p"
  by (simp add: zom_def)

lemma zupd_eq: "p \<noteq> NULL \<Longrightarrow> zombies s p = Some z \<Longrightarrow>
    zupd p f s = Some (s\<lparr>zombies := (zombies s)(p := Some (f z))\<rparr>)"
  by (simp add: zupd_def zom_def)

text \<open>Only the zombie queue's own variables change.\<close>

definition zombie_step :: "'x lwp_state \<Rightarrow> 'x lwp_state \<Rightarrow> bool" where
  "zombie_step s s' \<longleftrightarrow> s' = s\<lparr>zombies := zombies s', zombies_head := zombies_head s', zombies_tail := zombies_tail s'\<rparr>"

lemma insert_zombie_ok:
  assumes rep: "zrep s zs" and t: "t \<noteq> NULL" and p: "p \<noteq> NULL" "p \<notin> fst ` set zs"
  shows "\<exists>s'. insert_zombie t p s = Some (Continue, s') \<and> zrep s' (zs @ [(p, t)]) \<and> zombie_step s s'"
proof (cases zs rule: rev_cases)
  case Nil
  then show ?thesis using assms by (auto simp: insert_zombie_def zrep_def zombie_step_def)
next
  case (snoc ys z)
  obtain q u where z: "z = (q, u)" by fastforce
  have q: "q \<noteq> NULL" "q \<noteq> p" "q \<notin> fst ` set ys" "zombies_tail s = q" "zombies s q = Some \<lparr>zombie_thread = u, z_next = NULL\<rparr>"
    using rep p snoc z by (auto simp: zrep_def zlinked_append)
  have "zombies_head s \<in> fst ` set zs" using rep snoc by (cases ys) (auto simp: zrep_def)
  then have head: "zombies_head s \<noteq> NULL" using rep by (metis zrep_def)
  let ?h = "(zombies s)(p := Some \<lparr>zombie_thread = t, z_next = NULL\<rparr>, q := Some \<lparr>zombie_thread = u, z_next = p\<rparr>)"
  let ?s = "s\<lparr>zombies := ?h, zombies_tail := p\<rparr>"
  have "zlinked (zombies s) ys q" using rep snoc z by (simp add: zrep_def zlinked_append)
  then have "zlinked ?h (ys @ [(q, u), (p, t)]) NULL"
    using q p snoc by (simp add: zlinked_append)
  then have "zrep ?s (zs @ [(p, t)])"
    using rep p snoc z by (auto simp: zrep_def first_of_def hd_append)
  moreover have "insert_zombie t p s = Some (Continue, ?s)"
    using t p q head by (simp add: insert_zombie_def zupd_eq fun_upd_twist Let_def)
  ultimately show ?thesis by (auto simp: zombie_step_def)
qed

lemma zombie_search_found:
  assumes "zlinked (zombies s) (ys @ (p, t) # zs) n" and "t \<notin> snd ` set ys"
    and "NULL \<notin> fst ` set (ys @ [(p, t)])"
  shows "zombie_search t q (fst (hd (ys @ [(p, t)]))) s = Some (if ys = [] then q else fst (last ys), p)"
    and "find_zombie_loop t (fst (hd (ys @ [(p, t)]))) s = Some p"
proof -
  show "zombie_search t q (fst (hd (ys @ [(p, t)]))) s = Some (if ys = [] then q else fst (last ys), p)"
    using assms
  proof (induction ys arbitrary: q)
    case Nil
    then show ?case by (subst zombie_search.simps) (simp add: zom_eq)
  next
    case (Cons y ys)
    obtain r u where y: "y = (r, u)" by fastforce
    then have "zombies s r = Some \<lparr>zombie_thread = u, z_next = fst (hd (ys @ [(p, t)]))\<rparr>" "r \<noteq> NULL" "u \<noteq> t"
      using Cons.prems by (auto simp: hd_append)
    then show ?case using Cons y by (subst zombie_search.simps) (simp add: zom_eq)
  qed
  show "find_zombie_loop t (fst (hd (ys @ [(p, t)]))) s = Some p"
    using assms
  proof (induction ys)
    case Nil
    then show ?case by (subst find_zombie_loop.simps) (simp add: zom_eq)
  next
    case (Cons y ys)
    obtain r u where y: "y = (r, u)" by fastforce
    then have "zombies s r = Some \<lparr>zombie_thread = u, z_next = fst (hd (ys @ [(p, t)]))\<rparr>" "r \<noteq> NULL" "u \<noteq> t"
      using Cons.prems by (auto simp: hd_append)
    then show ?case using Cons y by (subst find_zombie_loop.simps) (simp add: zom_eq)
  qed
qed

lemma find_zombie_missing:
  assumes "zlinked (zombies s) zs NULL" and "t \<notin> snd ` set zs" and "NULL \<notin> fst ` set zs"
  shows "find_zombie_loop t (first_of (map fst zs)) s = Some NULL"
  using assms
proof (induction zs)
  case Nil
  then show ?case by (subst find_zombie_loop.simps) simp
next
  case (Cons y ys)
  obtain r u where y: "y = (r, u)" by fastforce
  then have "zombies s r = Some \<lparr>zombie_thread = u, z_next = first_of (map fst ys)\<rparr>" "r \<noteq> NULL" "u \<noteq> t"
    using Cons.prems by (auto simp: first_of_def hd_map)
  then show ?case using Cons y by (subst find_zombie_loop.simps) (simp add: zom_eq)
qed

lemma remove_zombie_ok:
  assumes rep: "zrep s (ys @ (p, t) # zs)" and t: "t \<noteq> NULL" "t \<notin> snd ` set ys"
  shows "\<exists>s'. remove_zombie t s = Some s' \<and> find_zombie t s = Some p \<and> zrep s' (ys @ zs) \<and>
    zombie_step s s' \<and> zombies s' p \<noteq> None"
proof -
  have d: "distinct (map fst (ys @ (p, t) # zs))" "NULL \<notin> fst ` set (ys @ (p, t) # zs)"
    and link: "zlinked (zombies s) (ys @ (p, t) # zs) NULL"
    and ends: "zombies_head s = first_of (map fst (ys @ (p, t) # zs))"
      "zombies_tail s = last_of (map fst (ys @ (p, t) # zs))"
    using rep by (simp_all add: zrep_def)
  have head: "zombies_head s = fst (hd (ys @ [(p, t)]))" using ends(1) by (cases ys) simp_all
  have found: "zombie_search t NULL (zombies_head s) s = Some (if ys = [] then NULL else fst (last ys), p)"
    "find_zombie t s = Some p"
    unfolding head find_zombie_def using zombie_search_found [OF link t(2)] d
    by (simp_all add: image_Un)
  have p: "p \<noteq> NULL" "zombies s p = Some \<lparr>zombie_thread = t, z_next = first_of (map fst zs)\<rparr>"
    using link d by (auto simp: zlinked_append first_of_def hd_map)
  have tail: "p = zombies_tail s \<longleftrightarrow> zs = []"
    using ends(2) d last_in_set [of zs] by (cases "zs = []") (auto simp: last_of_def last_map)
  show ?thesis
  proof (cases ys rule: rev_cases)
    case Nil
    let ?s = "(if zs = [] then s\<lparr>zombies_head := NULL, zombies_tail := NULL\<rparr>
        else s\<lparr>zombies_head := first_of (map fst zs)\<rparr>)\<lparr>zombies :=
          (zombies s)(p := Some \<lparr>zombie_thread = t, z_next = NULL\<rparr>)\<rparr>"
    have "remove_zombie t s = Some ?s"
      using Nil ends(1) t p found tail by (simp add: remove_zombie_def zom_eq zupd_eq)
    moreover have "zrep ?s zs"
      using Nil d link ends(2) by (cases "zs = []") (auto simp: zrep_def last_of_def)
    moreover have "zombie_step s ?s" "zombies ?s p \<noteq> None" by (simp_all add: zombie_step_def)
    ultimately show ?thesis using found Nil by auto
  next
    case (snoc us z)
    obtain q u where z: "z = (q, u)" by fastforce
    have q: "q \<noteq> NULL" "q \<noteq> p" "q \<notin> fst ` set us" "q \<notin> fst ` set zs"
      "zombies s q = Some \<lparr>zombie_thread = u, z_next = p\<rparr>"
      using d link snoc z by (auto simp: zlinked_append)
    have "zombies_head s \<in> fst ` set ys" using head snoc by (cases us) auto
    then have not_head: "p \<noteq> zombies_head s" using d by auto
    let ?h = "(zombies s)(q := Some \<lparr>zombie_thread = u, z_next = first_of (map fst zs)\<rparr>,
        p := Some \<lparr>zombie_thread = t, z_next = NULL\<rparr>)"
    let ?s = "(if zs = [] then s\<lparr>zombies_tail := q\<rparr> else s)\<lparr>zombies := ?h\<rparr>"
    have "remove_zombie t s = Some ?s"
      using snoc z t p q found tail not_head by (simp add: remove_zombie_def zom_eq zupd_eq)
    moreover have "zlinked (zombies s) us q" "zlinked (zombies s) zs NULL"
      using link snoc z by (simp_all add: zlinked_append)
    then have "zlinked ?h (ys @ zs) NULL"
      using snoc z q d by (auto simp: zlinked_append first_of_def hd_map)
    then have "zrep ?s (ys @ zs)"
      using d ends snoc z by (cases "zs = []") (auto simp: zrep_def first_of_def last_of_def hd_append)
    moreover have "zombie_step s ?s" "zombies ?s p \<noteq> None" by (simp_all add: zombie_step_def)
    ultimately show ?thesis using found by blast
  qed
qed

end
