(* ===== verification/Lwp_Scheduler.thy ===== *)
theory Lwp_Scheduler
  imports Lwp_Queues
begin

text \<open>
  The round-robin scheduler of Asgn2/scheduler.c is a list of threads: admit appends, remove deletes,
  next rotates. The contract lwp.c needs from any scheduler is a locale, which round robin
  interprets; the library's lemmas are proved over the contract.
\<close>

section \<open>Doubly linked lists\<close>

lemma linked_unlink:
  assumes "linked f h (ys @ x # zs) n" and "distinct (ys @ x # zs)"
    and "\<And>q. q \<in> set ys \<union> set zs \<Longrightarrow> ys = [] \<or> q \<noteq> last ys \<Longrightarrow> map_option f (h' q) = map_option f (h q)"
    and "ys \<noteq> [] \<Longrightarrow> map_option f (h' (last ys)) = Some (if zs = [] then n else hd zs)"
  shows "linked f h' (ys @ zs) n"
proof -
  have zs: "linked f h' zs n"
  proof -
    have "linked f h zs n" using assms(1) by (simp add: linked_append)
    moreover have "map_option f (h' q) = map_option f (h q)" if "q \<in> set zs" for q
      using assms(2,3) that by (metis Un_iff disjoint_iff distinct_append last_in_set list.set_intros(2))
    ultimately show ?thesis by (metis linked_same)
  qed
  show ?thesis
  proof (cases ys rule: rev_cases)
    case Nil
    with zs show ?thesis by simp
  next
    case (snoc us p)
    have "linked f h us p" using assms(1) snoc by (simp add: linked_append)
    moreover have "map_option f (h' q) = map_option f (h q)" if "q \<in> set us" for q
      using assms(2,3) that snoc by auto
    ultimately have "linked f h' us p" by (metis linked_same)
    then show ?thesis using zs assms(4) snoc by (simp add: linked_append del: map_option_eq_Some)
  qed
qed

definition rr_pool :: "'x lwp_state \<Rightarrow> addr list \<Rightarrow> bool" where
  "rr_pool s xs \<longleftrightarrow> distinct xs \<and> NULL \<notin> set xs \<and> sched_head s = first_of xs \<and>
     sched_tail s = last_of xs \<and> scheduler_thread_count s = int (length xs) \<and>
     linked sched_next (threads s) xs NULL \<and> linked sched_prev (threads s) (rev xs) NULL"

text \<open>The fields and variables that belong to schedulers.\<close>

definition sched_erase :: "threadinfo \<Rightarrow> threadinfo" where
  "sched_erase c = c\<lparr>sched_prev := NULL, sched_next := NULL\<rparr>"

definition sched_statics :: "'x \<Rightarrow> 'x lwp_state \<Rightarrow> 'x lwp_state" where
  "sched_statics x s = s\<lparr>scheduler_thread_count := 0, sched_head := NULL, sched_tail := NULL, custom := x\<rparr>"

abbreviation sched_step :: "'x lwp_state \<Rightarrow> 'x lwp_state \<Rightarrow> bool" where
  "sched_step s s' \<equiv> frame sched_erase (sched_statics (custom s)) s s'"

text \<open>
  A step of a scheduler that writes the scheduler's fields of the threads in \<open>A\<close> and of no other thread, and
  none of the variables in \<open>rest\<close>.
\<close>

definition confined :: "('x lwp_state \<Rightarrow> 'r) \<Rightarrow> addr set \<Rightarrow> 'x lwp_state \<Rightarrow> 'x lwp_state \<Rightarrow> bool" where
  "confined rest A s s' \<longleftrightarrow> sched_step s s' \<and> rest s' = rest s \<and> (\<forall>p. p \<notin> A \<longrightarrow> threads s' p = threads s p)"

lemma confined_step: "confined rest A s s' \<Longrightarrow> sched_step s s'"
  by (simp add: confined_def)

lemma confined_mono: "confined rest A s s' \<Longrightarrow> A \<subseteq> B \<Longrightarrow> confined rest B s s'"
  unfolding confined_def by blast

lemma confined_rest: "confined rest A s s' \<Longrightarrow> rest s' = rest s"
  unfolding confined_def by blast

lemma confined_other: "confined rest A s s' \<Longrightarrow> p \<notin> A \<Longrightarrow> threads s' p = threads s p"
  unfolding confined_def by blast

lemma pool_ends:
  assumes "rr_pool s xs"
  shows "sched_head s = NULL \<longleftrightarrow> xs = []" and "sched_head s = sched_tail s \<longleftrightarrow> length xs \<le> 1"
proof -
  show "sched_head s = NULL \<longleftrightarrow> xs = []"
    using assms by (cases xs) (auto simp: rr_pool_def)
  show "sched_head s = sched_tail s \<longleftrightarrow> length xs \<le> 1"
  proof (cases xs)
    case Nil
    then show ?thesis using assms by (simp add: rr_pool_def)
  next
    case (Cons x ys)
    then show ?thesis using assms last_in_set [of ys] by (cases "ys = []") (auto simp: rr_pool_def last_of_def)
  qed
qed

lemma rr_admit_confined:
  assumes pool: "rr_pool s xs" and new: "threads s x = Some c" "x \<noteq> NULL" "x \<notin> set xs"
  shows "\<exists>s'. rr_admit x s = Some s' \<and> rr_pool s' (xs @ [x]) \<and> confined custom (insert x (set xs)) s s'"
proof (cases xs rule: rev_cases)
  case Nil
  let ?s = "s\<lparr>threads := (threads s)(x := Some (c\<lparr>sched_prev := NULL, sched_next := NULL\<rparr>)),
    sched_head := x, sched_tail := x, scheduler_thread_count := scheduler_thread_count s + 1\<rparr>"
  have "rr_admit x s = Some ?s"
    using pool new Nil by (simp add: rr_admit_def upd_eq rr_pool_def)
  moreover have "rr_pool ?s [x]" using pool new Nil by (simp add: rr_pool_def)
  moreover have "confined custom (insert x (set xs)) s ?s"
    using new(1) by (simp add: confined_def frame_def sched_erase_def sched_statics_def)
  ultimately show ?thesis using Nil by auto
next
  case (snoc ys l)
  have ne: "sched_head s \<noteq> NULL" using pool_ends(1) [OF pool] snoc by simp
  have l: "l \<noteq> NULL" "sched_tail s = l" "l \<noteq> x" "l \<notin> set ys"
    using pool new snoc by (auto simp: rr_pool_def)
  obtain d where d: "threads s l = Some d" "sched_prev d = last_of ys"
    using pool snoc by (cases ys rule: rev_cases) (auto simp: rr_pool_def)
  let ?h = "(threads s)(l := Some (d\<lparr>sched_next := x\<rparr>), x := Some (c\<lparr>sched_prev := l, sched_next := NULL\<rparr>))"
  let ?s = "s\<lparr>threads := ?h, sched_tail := x, scheduler_thread_count := scheduler_thread_count s + 1\<rparr>"
  have "rr_admit x s = Some ?s"
    using new ne l d by (simp add: rr_admit_def upd_eq)
  moreover have "linked sched_next (threads s) ys l" "linked sched_prev (threads s) (rev ys) NULL"
    using pool snoc by (simp_all add: rr_pool_def linked_append)
  then have "rr_pool ?s (xs @ [x])"
    using pool new snoc l d by (auto simp: rr_pool_def linked_append first_of_def hd_append last_of_def hd_rev)
  moreover have "confined custom (insert x (set xs)) s ?s"
    using new(1) d(1) snoc by (auto simp: confined_def frame_def sched_erase_def sched_statics_def)
  ultimately show ?thesis by blast
qed

lemma rr_admit_ok:
  assumes "rr_pool s xs" and "threads s x = Some c" and "x \<noteq> NULL" and "x \<notin> set xs"
  shows "\<exists>s'. rr_admit x s = Some s' \<and> rr_pool s' (xs @ [x]) \<and> sched_step s s'"
  using rr_admit_confined [OF assms] confined_step by blast

lemma rr_search_found:
  assumes "linked sched_next (threads s) (ys @ x # zs) n" and "NULL \<notin> set (ys @ [x])" and "x \<notin> set ys"
  shows "rr_search x (hd (ys @ [x])) s = Some True"
  using assms
proof (induction ys)
  case Nil
  then show ?case by (subst rr_search.simps) simp
next
  case (Cons y ys)
  then obtain c where "threads s y = Some c" "sched_next c = hd (ys @ [x])"
    by (cases ys) auto
  moreover have "rr_search x (hd (ys @ [x])) s = Some True" using Cons by simp
  ultimately show ?case using Cons.prems by (subst rr_search.simps) (simp add: thr_eq)
qed

lemma rr_search_missing:
  assumes "linked sched_next (threads s) ys NULL" and "NULL \<notin> set ys" and "x \<notin> set ys"
  shows "rr_search x (first_of ys) s = Some False"
  using assms
proof (induction ys)
  case Nil
  then show ?case by (subst rr_search.simps) simp
next
  case (Cons y ys)
  then obtain c where "threads s y = Some c" "sched_next c = first_of ys"
    by (auto simp: first_of_def)
  moreover have "rr_search x (first_of ys) s = Some False" using Cons by simp
  moreover have "y \<noteq> x" "y \<noteq> NULL" using Cons.prems by auto
  ultimately show ?case by (subst rr_search.simps) (simp add: thr_eq)
qed

lemma rr_remove_present:
  assumes pool: "rr_pool s (ys @ x # zs)"
  shows "\<exists>s'. rr_remove x s = Some s' \<and> rr_pool s' (ys @ zs) \<and> confined custom (set (ys @ x # zs)) s s'"
proof -
  have d: "distinct (ys @ x # zs)" "NULL \<notin> set (ys @ x # zs)"
    and nx: "linked sched_next (threads s) (ys @ x # zs) NULL"
    and pv: "linked sched_prev (threads s) (rev zs @ x # rev ys) NULL"
    and ends: "sched_head s = first_of (ys @ x # zs)" "sched_tail s = last_of (ys @ x # zs)"
    and count: "scheduler_thread_count s = int (length (ys @ x # zs))"
    using pool by (simp_all add: rr_pool_def)
  have head: "sched_head s = hd (ys @ [x])" using ends(1) by (cases ys) simp_all
  have found: "rr_search x (sched_head s) s = Some True"
    unfolding head using rr_search_found [OF nx] d by auto
  obtain v where v: "threads s x = Some v" "sched_next v = first_of zs" "sched_prev v = last_of ys"
    using linked_next [OF nx] linked_next [OF pv] by (auto simp: first_of_def last_of_def hd_rev)
  obtain dp where dp: "ys \<noteq> [] \<Longrightarrow> threads s (last ys) = Some dp"
    using linked_alloc [OF nx, of "last ys"] by (cases "ys = []") auto
  obtain dq where dq: "zs \<noteq> [] \<Longrightarrow> threads s (hd zs) = Some dq"
    using linked_alloc [OF nx, of "hd zs"] by (cases "zs = []") auto
  have p: "ys \<noteq> [] \<Longrightarrow> last ys \<noteq> NULL \<and> last ys \<noteq> x \<and> x \<noteq> last ys \<and> last ys \<notin> set zs"
    using d by (cases ys rule: rev_cases) auto
  have q: "zs \<noteq> [] \<Longrightarrow> hd zs \<noteq> NULL \<and> hd zs \<noteq> x \<and> x \<noteq> hd zs \<and> hd zs \<notin> set ys"
    using d by (cases zs) auto
  have is_head: "x = sched_head s \<longleftrightarrow> ys = []"
    using head d hd_in_set [of ys] by (cases "ys = []") auto
  have is_tail: "x = sched_tail s \<longleftrightarrow> zs = []"
    using ends(2) d last_in_set [of zs] by (cases "zs = []") (auto simp: last_of_def)
  define h1 where "h1 = (if ys = [] then threads s
    else (threads s)(last ys := Some (dp\<lparr>sched_next := first_of zs\<rparr>)))"
  define h2 where "h2 = (if zs = [] then h1
    else h1(hd zs := Some (dq\<lparr>sched_prev := last_of ys\<rparr>)))"
  define h3 where "h3 = h2(x := Some (v\<lparr>sched_prev := NULL, sched_next := NULL\<rparr>))"
  define s' where "s' = s\<lparr>threads := h3, sched_head := first_of (ys @ zs), sched_tail := last_of (ys @ zs),
    scheduler_thread_count := scheduler_thread_count s - 1\<rparr>"
  have "rr_remove x s = Some s'"
  proof (cases "ys = []"; cases "zs = []")
    assume "ys = []" "zs = []"
    then show ?thesis using found d v is_head is_tail
      by (simp add: rr_remove_def Let_def thr_eq upd_eq s'_def h1_def h2_def h3_def;
        (rule lwp_state.equality; simp)?)
  next
    assume "ys = []" "zs \<noteq> []"
    then show ?thesis using found d v is_head is_tail dq q ends
      by (simp add: rr_remove_def Let_def thr_eq upd_eq s'_def h1_def h2_def h3_def first_of_def last_of_def;
        (rule lwp_state.equality; simp)?)
  next
    assume "ys \<noteq> []" "zs = []"
    then show ?thesis using found d v is_head is_tail dp p ends
      by (simp add: rr_remove_def Let_def thr_eq upd_eq s'_def h1_def h2_def h3_def first_of_def last_of_def;
        (rule lwp_state.equality; simp)?)
  next
    assume ne: "ys \<noteq> []" "zs \<noteq> []"
    then have "last ys \<noteq> hd zs" "hd zs \<noteq> last ys" using p hd_in_set [of zs] by metis+
    then show ?thesis using ne found d v is_head is_tail dp p dq q ends
      by (simp add: rr_remove_def Let_def thr_eq upd_eq s'_def h1_def h2_def h3_def first_of_def last_of_def;
        (rule lwp_state.equality; simp)?)
  qed
  moreover have "rr_pool s' (ys @ zs)"
  proof -
    have apart: "ys \<noteq> [] \<Longrightarrow> zs \<noteq> [] \<Longrightarrow> last ys \<noteq> hd zs \<and> hd zs \<noteq> last ys"
      using p hd_in_set [of zs] by metis
    have pn: "map_option sched_next (h3 r) = (if ys \<noteq> [] \<and> r = last ys then Some (first_of zs)
        else map_option sched_next (threads s r))" if "r \<noteq> x" for r
      using that dp dq apart by (cases "ys = []"; cases "zs = []") (simp_all add: h3_def h2_def h1_def)
    have pp: "map_option sched_prev (h3 r) = (if zs \<noteq> [] \<and> r = hd zs then Some (last_of ys)
        else map_option sched_prev (threads s r))" if "r \<noteq> x" for r
      using that dp dq apart by (cases "ys = []"; cases "zs = []") (simp_all add: h3_def h2_def h1_def)
    have x: "x \<notin> set ys" "x \<notin> set zs" using d by auto
    have "linked sched_next h3 (ys @ zs) NULL"
    proof (rule linked_unlink [OF nx d(1)])
      show "map_option sched_next (h3 r) = map_option sched_next (threads s r)"
        if "r \<in> set ys \<union> set zs" "ys = [] \<or> r \<noteq> last ys" for r
      proof -
        have "r \<noteq> x" using that x by blast
        with pn [of r] that show ?thesis by auto
      qed
      show "map_option sched_next (h3 (last ys)) = Some (if zs = [] then NULL else hd zs)" if "ys \<noteq> []"
        using pn [of "last ys"] that p by (simp add: first_of_def)
    qed
    moreover have "linked sched_prev h3 (rev zs @ rev ys) NULL"
    proof (rule linked_unlink [OF pv])
      show "distinct (rev zs @ x # rev ys)" using d by auto
      show "map_option sched_prev (h3 r) = map_option sched_prev (threads s r)"
        if "r \<in> set (rev zs) \<union> set (rev ys)" "rev zs = [] \<or> r \<noteq> last (rev zs)" for r
      proof -
        have "r \<noteq> x" using that x by auto
        with pp [of r] that show ?thesis by (auto simp: last_rev)
      qed
      show "map_option sched_prev (h3 (last (rev zs))) = Some (if rev ys = [] then NULL else hd (rev ys))"
        if "rev zs \<noteq> []"
        using pp [of "hd zs"] that q by (simp add: last_rev last_of_def hd_rev del: map_option_eq_Some)
    qed
    ultimately show ?thesis using d count by (auto simp: rr_pool_def s'_def)
  qed
  moreover have "sched_step s s'"
    using v dp dq p q unfolding frame_def
    by (auto simp: s'_def h3_def h2_def h1_def sched_erase_def sched_statics_def)
  then have "confined custom (set (ys @ x # zs)) s s'"
    by (auto simp: confined_def s'_def h3_def h2_def h1_def)
  ultimately show ?thesis by blast
qed

lemma rr_remove_confined:
  assumes "rr_pool s xs"
  shows "\<exists>s'. rr_remove x s = Some s' \<and> rr_pool s' (remove1 x xs) \<and> confined custom (set xs) s s'"
proof (cases "x \<in> set xs")
  case True
  then obtain ys zs where "xs = ys @ x # zs" "x \<notin> set ys" by (metis split_list_first)
  with rr_remove_present [of s ys x zs] assms show ?thesis by (simp add: remove1_append)
next
  case False
  then have "rr_remove x s = Some s"
    using rr_search_missing [of s xs x] assms by (simp add: rr_remove_def rr_pool_def)
  with False assms show ?thesis by (simp add: remove1_idem confined_def)
qed

lemma rr_remove_ok:
  assumes "rr_pool s xs"
  shows "\<exists>s'. rr_remove x s = Some s' \<and> rr_pool s' (remove1 x xs) \<and> sched_step s s'"
  using rr_remove_confined [OF assms] confined_step by blast

lemma rr_next_confined:
  assumes pool: "rr_pool s xs"
  shows "\<exists>s'. rr_next s = Some (first_of xs, s') \<and> rr_pool s' (rotate1 xs) \<and> confined custom (set xs) s s'"
proof -
  consider (short) "length xs \<le> 1" | (long) x m rest where "xs = x # m # rest"
    by (cases xs; cases "tl xs") auto
  then show ?thesis
  proof cases
    case short
    then have "rr_next s = Some (first_of xs, s)" "rotate1 xs = xs"
      using pool_ends [OF pool] pool by (cases xs; simp add: rr_next_def rr_pool_def)+
    then show ?thesis using pool by (simp add: confined_def)
  next
    case long
    define t us where "t = last (m # rest)" and "us = butlast (m # rest)"
    have mr: "m # rest = us @ [t]" by (simp add: t_def us_def)
    have d: "distinct (x # us @ [t])" "NULL \<notin> set (x # us @ [t])"
      and nx: "linked sched_next (threads s) (x # us @ [t]) NULL"
      using pool long mr by (simp_all add: rr_pool_def)
    have pv: "linked sched_prev (threads s) (rev rest @ [m, x]) NULL"
      and ends: "sched_head s = x" "sched_tail s = t"
      and fresh: "x \<notin> set rest" "m \<notin> set rest"
      using pool long by (simp_all add: rr_pool_def t_def last_of_def)
    obtain cx where cx: "threads s x = Some cx" "sched_next cx = m"
      using pool long by (auto simp: rr_pool_def)
    obtain ct where ct: "threads s t = Some ct" using nx by (auto simp: linked_append)
    obtain cm where cm: "threads s m = Some cm" using pool long by (auto simp: rr_pool_def)
    have m: "m \<noteq> NULL" "m \<noteq> x" "x \<noteq> t" "x \<noteq> NULL" "t \<noteq> NULL" "t \<notin> set us" "x \<notin> set us"
      using d mr by (cases us; auto)+
    define h1 where "h1 = (threads s)(t := Some (ct\<lparr>sched_next := x\<rparr>),
      x := Some (cx\<lparr>sched_prev := t, sched_next := NULL\<rparr>))"
    obtain dm where dm: "h1 m = Some dm" "dm = (if m = t then ct\<lparr>sched_next := x\<rparr> else cm)"
      using cm ct m by (auto simp: h1_def)
    define s' where "s' = s\<lparr>threads := h1(m := Some (dm\<lparr>sched_prev := NULL\<rparr>)), sched_head := m, sched_tail := x\<rparr>"
    have "rr_next s = Some (x, s')"
      using ends cx ct m dm(1) by (simp add: rr_next_def thr_eq upd_eq s'_def h1_def Let_def)
    moreover have "rr_pool s' (m # rest @ [x])"
    proof -
      have u: "linked sched_next (threads s) us t" using nx by (simp add: linked_append)
      have "map_option sched_next (threads s' q) = map_option sched_next (threads s q)" if "q \<in> set us" for q
        using that m dm cm ct by (auto simp: s'_def h1_def)
      with u have "linked sched_next (threads s') us t" by (metis linked_same)
      moreover have "map_option sched_next (threads s' t) = Some x" "map_option sched_next (threads s' x) = Some NULL"
        using m dm ct by (auto simp: s'_def h1_def)
      ultimately have nx': "linked sched_next (threads s') (us @ [t, x]) NULL"
        by (simp add: linked_append del: map_option_eq_Some)
      have "linked sched_prev (threads s) (rev rest) m" using pv by (simp add: linked_append)
      moreover have "map_option sched_prev (threads s' q) = map_option sched_prev (threads s q)" if "q \<in> set rest" for q
        using that m dm cm ct fresh by (auto simp: s'_def h1_def)
      ultimately have "linked sched_prev (threads s') (rev rest) m" by (metis linked_same set_rev)
      moreover have "map_option sched_prev (threads s' m) = Some NULL" "map_option sched_prev (threads s' x) = Some t"
        using m by (auto simp: s'_def h1_def)
      moreover have "t = hd (rev rest @ [m])" unfolding t_def by (simp add: hd_append hd_rev)
      ultimately have "linked sched_prev (threads s') (x # rev rest @ [m]) NULL"
        by (simp add: linked_append hd_append del: map_option_eq_Some)
      moreover have eq: "us @ [t, x] = m # rest @ [x]" using mr by (metis append_Cons append_Nil append_assoc)
      ultimately show ?thesis
        using nx' [unfolded eq] pool long m by (simp add: rr_pool_def s'_def last_of_def)
    qed
    moreover have "sched_step s s'"
      using cx ct cm dm m unfolding frame_def
      by (auto simp: s'_def h1_def sched_erase_def sched_statics_def)
    then have "confined custom (set xs) s s'"
      using long unfolding t_def by (auto simp: confined_def s'_def h1_def t_def)
    ultimately show ?thesis using long by auto
  qed
qed

lemma rr_next_ok:
  assumes "rr_pool s xs"
  shows "\<exists>s'. rr_next s = Some (first_of xs, s') \<and> rr_pool s' (rotate1 xs) \<and> sched_step s s'"
  using rr_next_confined [OF assms] confined_step by blast

section \<open>The contract of a scheduler\<close>

text \<open>
  What lwp.h asks of a scheduler, for a relation \<open>pool\<close> between states and the threads in its pool:
  admit adds, remove removes, next picks a member without losing any (NULL when there is none), qlen
  counts; none of them touches anything but the two pointers and the variables set aside for
  schedulers, on which alone the pool depends.
\<close>

definition sched_fields :: "threadinfo \<Rightarrow> addr \<times> addr" where
  "sched_fields c = (sched_prev c, sched_next c)"

definition same_pool_view :: "addr list \<Rightarrow> 'x lwp_state \<Rightarrow> 'x lwp_state \<Rightarrow> bool" where
  "same_pool_view xs s s' \<longleftrightarrow>
     (\<forall>p \<in> set xs. map_option sched_fields (threads s' p) = map_option sched_fields (threads s p)) \<and>
     scheduler_thread_count s' = scheduler_thread_count s \<and> sched_head s' = sched_head s \<and>
     sched_tail s' = sched_tail s \<and> custom s' = custom s"

locale scheduler_contract =
  fixes ops :: "'x lwp_state sched_ops" and pool :: "'x lwp_state \<Rightarrow> addr list \<Rightarrow> bool"
  assumes admit_ok: "pool s xs \<Longrightarrow> threads s x = Some c \<Longrightarrow> x \<noteq> NULL \<Longrightarrow> x \<notin> set xs \<Longrightarrow>
      \<exists>s' ys. so_admit ops x s = Some s' \<and> pool s' ys \<and> set ys = insert x (set xs) \<and>
        length ys = Suc (length xs) \<and> sched_step s s'"
    and remove_ok: "pool s xs \<Longrightarrow> x \<in> set xs \<Longrightarrow>
      \<exists>s' ys. so_remove ops x s = Some s' \<and> pool s' ys \<and> set ys = set xs - {x} \<and> sched_step s s'"
    and next_ok: "pool s xs \<Longrightarrow> \<exists>x s' ys. so_next ops s = Some (x, s') \<and> pool s' ys \<and>
      set ys = set xs \<and> (if xs = [] then x = NULL else x \<in> set xs) \<and> sched_step s s'"
    and qlen_ok: "pool s xs \<Longrightarrow> so_qlen ops s = Some (int (length xs))"
    and pool_distinct: "pool s xs \<Longrightarrow> distinct xs \<and> NULL \<notin> set xs"
    and pool_stable: "pool s xs \<Longrightarrow> same_pool_view xs s s' \<Longrightarrow> pool s' xs"

lemma sched_fields_proj:
  "map_option sched_fields (h' p) = map_option sched_fields (h p) \<Longrightarrow>
    map_option sched_next (h' p) = map_option sched_next (h p) \<and>
    map_option sched_prev (h' p) = map_option sched_prev (h p)"
  by (cases "h' p"; cases "h p") (auto simp: sched_fields_def)

definition rr_vars :: "'x lwp_state \<Rightarrow> int \<times> addr \<times> addr" where
  "rr_vars s = (scheduler_thread_count s, sched_head s, sched_tail s)"

lemma rr_pool_own:
  assumes "rr_pool s xs" and "rr_vars s' = rr_vars s"
    and "\<And>p. p \<in> set xs \<Longrightarrow> map_option sched_fields (threads s' p) = map_option sched_fields (threads s p)"
  shows "rr_pool s' xs"
proof -
  have v: "map_option sched_next (threads s' p) = map_option sched_next (threads s p) \<and>
      map_option sched_prev (threads s' p) = map_option sched_prev (threads s p)" if "p \<in> set xs" for p
    by (rule sched_fields_proj) (rule assms(3) [OF that])
  have "linked sched_next (threads s') xs NULL = linked sched_next (threads s) xs NULL"
    using v by (intro linked_same) blast
  moreover have "linked sched_prev (threads s') (rev xs) NULL = linked sched_prev (threads s) (rev xs) NULL"
    using v by (intro linked_same) simp
  ultimately show ?thesis using assms(1,2) by (simp add: rr_pool_def rr_vars_def)
qed

interpretation rr: scheduler_contract rr_publish rr_pool
proof (unfold_locales, goal_cases)
  case (1 s xs x c)
  then show ?case using rr_admit_ok [of s xs x c] by (fastforce simp: rr_publish_def)
next
  case (2 s xs x)
  then have "distinct xs" by (simp add: rr_pool_def)
  with 2 show ?case using rr_remove_ok [of s xs x] by (fastforce simp: rr_publish_def)
next
  case (3 s xs)
  then show ?case using rr_next_ok [of s xs] by (cases xs) (fastforce simp: rr_publish_def)+
next
  case (6 s xs s')
  show ?case by (rule rr_pool_own [OF 6(1)]) (use 6(2) in \<open>simp_all add: same_pool_view_def rr_vars_def\<close>)
qed (simp_all add: rr_pool_def rr_publish_def rr_qlen_def)

text \<open>
  What it takes to hand threads over from one scheduler to another: each may use the two pointers set aside
  for schedulers, but only of its own threads, and variables of its own, and its pool depends on nothing
  else; threads are listed in the order of admission, as far as the scheduler keeps one; init, if there is one,
  makes the pool empty. \<open>own\<close> reads the scheduler's own variables, \<open>rest\<close> those of the other schedulers.
\<close>

locale separate_scheduler = scheduler_contract ops pool
  for ops :: "'x lwp_state sched_ops" and pool :: "'x lwp_state \<Rightarrow> addr list \<Rightarrow> bool" +
  fixes own :: "'x lwp_state \<Rightarrow> 'o" and rest :: "'x lwp_state \<Rightarrow> 'r"
  assumes admit_appends: "pool s xs \<Longrightarrow> threads s x = Some c \<Longrightarrow> x \<noteq> NULL \<Longrightarrow> x \<notin> set xs \<Longrightarrow>
      so_admit ops x s = Some s' \<Longrightarrow> pool s' (xs @ [x]) \<and> confined rest (insert x (set xs)) s s'"
    and remove_confined: "pool s xs \<Longrightarrow> x \<in> set xs \<Longrightarrow> so_remove ops x s = Some s' \<Longrightarrow> confined rest (set xs) s s'"
    and next_confined: "pool s xs \<Longrightarrow> so_next ops s = Some (x, s') \<Longrightarrow> confined rest (set xs) s s'"
    and init_ok: "so_init ops = Some f \<Longrightarrow> \<exists>s'. f s = Some s' \<and> pool s' [] \<and> confined rest {} s s'"
    and shutdown_ok: "so_shutdown ops = Some f \<Longrightarrow> pool s [] \<Longrightarrow> \<exists>s'. f s = Some s' \<and> confined rest {} s s'"
    and pool_own: "pool s xs \<Longrightarrow> own s' = own s \<Longrightarrow>
      (\<And>p. p \<in> set xs \<Longrightarrow> map_option sched_fields (threads s' p) = map_option sched_fields (threads s p)) \<Longrightarrow> pool s' xs"

interpretation rr_own: separate_scheduler rr_publish rr_pool rr_vars custom
proof (unfold_locales, goal_cases)
  case (1 s xs x c s')
  then show ?case using rr_admit_confined [of s xs x c] by (fastforce simp: rr_publish_def)
next
  case (2 s xs x s')
  then show ?case using rr_remove_confined [of s xs x] by (fastforce simp: rr_publish_def)
next
  case (3 s xs x s')
  then show ?case using rr_next_confined [of s xs] by (fastforce simp: rr_publish_def)
next
  case (4 f s)
  then show ?case
    by (auto simp: rr_publish_def rr_init_def rr_pool_def confined_def frame_def sched_statics_def)
next
  case (5 f s)
  then show ?case
    by (auto simp: rr_publish_def rr_shutdown_def confined_def frame_def sched_statics_def)
next
  case (6 s xs s')
  then show ?case by (rule rr_pool_own)
qed

end
