(* ===== verification/Lwp_Threads.thy ===== *)
theory Lwp_Threads
  imports Lwp_Scheduler
begin

text \<open>
  The calls of Asgn2/lwp.c over any scheduler that keeps the contract: how they move a thread
  between the pool of the scheduler and the library's live, waiting and zombie queues, and what they
  store in the thread structures.
\<close>

section \<open>All queues together\<close>

definition queues ::
  "('x lwp_state \<Rightarrow> addr list \<Rightarrow> bool) \<Rightarrow> 'x lwp_state \<Rightarrow> addr list \<Rightarrow> addr list \<Rightarrow> addr list \<Rightarrow>
    (addr \<times> addr) list \<Rightarrow> bool" where
  "queues pool s rs ls ws zs \<longleftrightarrow> pool s rs \<and> live.rep s ls \<and> waiting.rep s ws \<and> zrep s zs"

definition links :: "threadinfo \<Rightarrow> addr \<times> addr \<times> addr \<times> addr" where
  "links c = (live_next c, wait_next c, sched_prev c, sched_next c)"

definition erase_links :: "threadinfo \<Rightarrow> threadinfo" where
  "erase_links c = c\<lparr>live_next := NULL, wait_next := NULL, sched_prev := NULL, sched_next := NULL\<rparr>"

text \<open>A step of the queues: no thread field but the links changes, nor any other variable.\<close>

definition queue_statics :: "'x \<Rightarrow> 'x lwp_state \<Rightarrow> 'x lwp_state" where
  "queue_statics x s = s\<lparr>zombies := (\<lambda>_. None), waiting_head := NULL, waiting_tail := NULL,
     live_head := NULL, live_tail := NULL, zombies_head := NULL, zombies_tail := NULL,
     scheduler_thread_count := 0, sched_head := NULL, sched_tail := NULL, custom := x\<rparr>"

definition queue_step :: "'x lwp_state \<Rightarrow> 'x lwp_state \<Rightarrow> bool" where
  "queue_step s s' \<longleftrightarrow> frame erase_links (queue_statics (custom s)) s s'"

lemma queue_statics_threads: "queue_statics x (s\<lparr>threads := h\<rparr>) = (queue_statics x s)\<lparr>threads := h\<rparr>"
  by (simp add: queue_statics_def)

lemma queue_step_iff:
  "queue_step s s' \<longleftrightarrow> (\<forall>p. map_option erase_links (threads s' p) = map_option erase_links (threads s p)) \<and>
     stack_words s' = stack_words s \<and> cpu s' = cpu s \<and> current_scheduler s' = current_scheduler s \<and>
     curr_thread s' = curr_thread s \<and> curr_tid s' = curr_tid s"
  unfolding queue_step_def frame_def queue_statics_def by (cases s; cases s') auto

lemma queue_step_refl [simp, intro]: "queue_step s s"
  by (simp add: queue_step_iff)

lemma queue_step_trans [trans]: "queue_step s s' \<Longrightarrow> queue_step s' s'' \<Longrightarrow> queue_step s s''"
  by (simp add: queue_step_iff)

lemma queue_step_field:
  assumes "queue_step s s'" and "\<And>c. f (erase_links c) = f c"
  shows "map_option f (threads s' p) = map_option f (threads s p)"
  using frame_field [of erase_links _ s s' f] assms by (simp add: queue_step_def)

lemma queue_step_thread:
  assumes "queue_step s s'" and "threads s p = Some c"
  shows "\<exists>c'. threads s' p = Some c' \<and> erase_links c' = erase_links c"
  using assms by (metis (no_types, lifting) map_option_eq_Some option.simps(9) queue_step_iff)

lemma queue_step_alloc: "queue_step s s' \<Longrightarrow> threads s' p = None \<longleftrightarrow> threads s p = None"
  by (metis option.map_disc_iff queue_step_iff)

lemma frame_compose:
  assumes "frame er ser s s'" and "\<And>c. erase_links (er c) = erase_links c"
  shows "map_option erase_links (threads s' p) = map_option erase_links (threads s p)"
  using frame_field [OF assms(1), of erase_links] assms(2) by simp

lemma step_of_sched: "sched_step s s' \<Longrightarrow> queue_step s s'"
  unfolding queue_step_iff
  by (intro conjI allI, erule frame_compose)
    (auto simp: erase_links_def sched_erase_def frame_def sched_statics_def, (cases s; cases s'; simp)+)

lemma step_of_live: "live.changes s s' \<Longrightarrow> queue_step s s'"
  unfolding queue_step_iff
  by (intro conjI allI, erule frame_compose)
    (auto simp: erase_links_def frame_def, (cases s; cases s'; simp)+)

lemma step_of_waiting: "waiting.changes s s' \<Longrightarrow> queue_step s s'"
  unfolding queue_step_iff
  by (intro conjI allI, erule frame_compose)
    (auto simp: erase_links_def frame_def, (cases s; cases s'; simp)+)

lemma zombie_step_fields:
  assumes "zombie_step s s'"
  shows "threads s' = threads s" and "live_head s' = live_head s" and "live_tail s' = live_tail s"
    and "waiting_head s' = waiting_head s" and "waiting_tail s' = waiting_tail s"
    and "same_pool_view xs s s'" and "queue_step s s'"
  using assms unfolding zombie_step_def queue_step_iff same_pool_view_def by (cases s; cases s'; simp)+

section \<open>Each queue ignores the steps of the others\<close>

lemma sched_step_others:
  assumes "sched_step s s'"
  shows "live.rep s' ls = live.rep s ls" and "waiting.rep s' ws = waiting.rep s ws" and "zrep s' zs = zrep s zs"
proof -
  have "linked live_next (threads s') ls NULL = linked live_next (threads s) ls NULL"
    "linked wait_next (threads s') ws NULL = linked wait_next (threads s) ws NULL"
    by (rule frame_linked [OF assms], simp add: sched_erase_def)+
  moreover have "live_head s' = live_head s" "live_tail s' = live_tail s" "waiting_head s' = waiting_head s"
    "waiting_tail s' = waiting_tail s" "zombies_head s' = zombies_head s" "zombies_tail s' = zombies_tail s"
    "zombies s' = zombies s"
    using assms unfolding frame_def sched_statics_def by (cases s; cases s'; simp)+
  ultimately show "live.rep s' ls = live.rep s ls" and "waiting.rep s' ws = waiting.rep s ws"
    and "zrep s' zs = zrep s zs"
    by (simp_all add: live.rep_def waiting.rep_def zrep_def)
qed

lemma live_step_others:
  assumes "live.changes s s'"
  shows "waiting.rep s' ws = waiting.rep s ws" and "zrep s' zs = zrep s zs" and "same_pool_view xs s s'"
proof -
  have "linked wait_next (threads s') ws NULL = linked wait_next (threads s) ws NULL"
    by (rule frame_linked [OF assms]) simp
  moreover have "map_option sched_fields (threads s' p) = map_option sched_fields (threads s p)" for p
    by (rule frame_field [OF assms]) (simp add: sched_fields_def)
  moreover have "waiting_head s' = waiting_head s" "waiting_tail s' = waiting_tail s"
    "zombies_head s' = zombies_head s" "zombies_tail s' = zombies_tail s" "zombies s' = zombies s"
    "scheduler_thread_count s' = scheduler_thread_count s" "sched_head s' = sched_head s"
    "sched_tail s' = sched_tail s" "custom s' = custom s"
    using assms unfolding frame_def by (cases s; cases s'; simp)+
  ultimately show "waiting.rep s' ws = waiting.rep s ws" and "zrep s' zs = zrep s zs"
    and "same_pool_view xs s s'"
    by (simp_all add: waiting.rep_def zrep_def same_pool_view_def)
qed

lemma waiting_step_others:
  assumes "waiting.changes s s'"
  shows "live.rep s' ls = live.rep s ls" and "zrep s' zs = zrep s zs" and "same_pool_view xs s s'"
proof -
  have "linked live_next (threads s') ls NULL = linked live_next (threads s) ls NULL"
    by (rule frame_linked [OF assms]) simp
  moreover have "map_option sched_fields (threads s' p) = map_option sched_fields (threads s p)" for p
    by (rule frame_field [OF assms]) (simp add: sched_fields_def)
  moreover have "live_head s' = live_head s" "live_tail s' = live_tail s"
    "zombies_head s' = zombies_head s" "zombies_tail s' = zombies_tail s" "zombies s' = zombies s"
    "scheduler_thread_count s' = scheduler_thread_count s" "sched_head s' = sched_head s"
    "sched_tail s' = sched_tail s" "custom s' = custom s"
    using assms unfolding frame_def by (cases s; cases s'; simp)+
  ultimately show "live.rep s' ls = live.rep s ls" and "zrep s' zs = zrep s zs"
    and "same_pool_view xs s s'"
    by (simp_all add: live.rep_def zrep_def same_pool_view_def)
qed

text \<open>A change of the thread store that keeps the links of the threads in the queues.\<close>

lemma store_change_queues:
  assumes "\<And>p. p \<in> set ls \<union> set ws \<union> set xs \<Longrightarrow> map_option links (h p) = map_option links (threads s p)"
  shows "live.rep (s\<lparr>threads := h\<rparr>) ls = live.rep s ls"
    and "waiting.rep (s\<lparr>threads := h\<rparr>) ws = waiting.rep s ws"
    and "zrep (s\<lparr>threads := h\<rparr>) zs = zrep s zs" and "same_pool_view xs s (s\<lparr>threads := h\<rparr>)"
proof -
  have proj: "map_option live_next (h p) = map_option live_next (threads s p) \<and>
      map_option wait_next (h p) = map_option wait_next (threads s p) \<and>
      map_option sched_fields (h p) = map_option sched_fields (threads s p)"
    if "p \<in> set ls \<union> set ws \<union> set xs" for p
    using assms [OF that] by (cases "h p"; cases "threads s p") (auto simp: links_def sched_fields_def)
  have "linked live_next h ls NULL = linked live_next (threads s) ls NULL"
    "linked wait_next h ws NULL = linked wait_next (threads s) ws NULL"
    using proj by (intro linked_same; blast)+
  then show "live.rep (s\<lparr>threads := h\<rparr>) ls = live.rep s ls"
    and "waiting.rep (s\<lparr>threads := h\<rparr>) ws = waiting.rep s ws" by (simp_all add: live.rep_def waiting.rep_def)
  show "zrep (s\<lparr>threads := h\<rparr>) zs = zrep s zs" by (simp add: zrep_def)
  show "same_pool_view xs s (s\<lparr>threads := h\<rparr>)" using proj by (simp add: same_pool_view_def)
qed

section \<open>Steps of the library over a scheduler\<close>

context scheduler_contract
begin

lemma queues_admit:
  assumes "queues pool s rs ls ws zs" and "threads s x = Some c" and "x \<noteq> NULL" and "x \<notin> set rs"
  shows "\<exists>s' rs'. so_admit ops x s = Some s' \<and> queues pool s' rs' ls ws zs \<and> queue_step s s' \<and>
    set rs' = insert x (set rs) \<and> length rs' = Suc (length rs)"
proof -
  have "pool s rs" using assms(1) by (simp add: queues_def)
  from admit_ok [OF this assms(2-4)] obtain s' rs' where
    *: "so_admit ops x s = Some s'" "pool s' rs'" "set rs' = insert x (set rs)"
      "length rs' = Suc (length rs)" "sched_step s s'" by blast
  then show ?thesis using assms(1) sched_step_others [OF *(5)] step_of_sched [OF *(5)]
    by (auto simp: queues_def)
qed

lemma queues_remove:
  assumes "queues pool s rs ls ws zs" and "x \<in> set rs"
  shows "\<exists>s' rs'. so_remove ops x s = Some s' \<and> queues pool s' rs' ls ws zs \<and> queue_step s s' \<and>
    set rs' = set rs - {x}"
proof -
  have "pool s rs" using assms(1) by (simp add: queues_def)
  from remove_ok [OF this assms(2)] obtain s' rs' where
    *: "so_remove ops x s = Some s'" "pool s' rs'" "set rs' = set rs - {x}" "sched_step s s'" by blast
  then show ?thesis using assms(1) sched_step_others [OF *(4)] step_of_sched [OF *(4)]
    by (auto simp: queues_def)
qed

lemma queues_next:
  assumes "queues pool s rs ls ws zs"
  shows "\<exists>x s' rs'. so_next ops s = Some (x, s') \<and> queues pool s' rs' ls ws zs \<and> queue_step s s' \<and>
    set rs' = set rs \<and> (if rs = [] then x = NULL else x \<in> set rs)"
proof -
  have "pool s rs" using assms(1) by (simp add: queues_def)
  from next_ok [OF this] obtain x s' rs' where
    *: "so_next ops s = Some (x, s')" "pool s' rs'" "set rs' = set rs"
      "if rs = [] then x = NULL else x \<in> set rs" "sched_step s s'" by blast
  then show ?thesis using assms(1) sched_step_others [OF *(5)] step_of_sched [OF *(5)]
    by (auto simp: queues_def)
qed

lemma queues_insert_live:
  assumes "queues pool s rs ls ws zs" and "threads s x = Some c" and "x \<noteq> NULL" and "x \<notin> set ls"
  shows "\<exists>s'. insert_live x s = Some s' \<and> queues pool s' rs (ls @ [x]) ws zs \<and> queue_step s s'"
proof -
  have "live.rep s ls" using assms(1) by (simp add: queues_def)
  from live.insert_ok [OF this assms(2-4)] obtain s' where
    *: "insert_live x s = Some s'" "live.rep s' (ls @ [x])" "live.changes s s'" by blast
  then show ?thesis using assms(1) live_step_others [OF *(3)] step_of_live [OF *(3)]
    pool_stable [of s rs s'] by (auto simp: queues_def)
qed

lemma queues_remove_live:
  assumes "queues pool s rs ls ws zs"
  shows "\<exists>s'. remove_live x s = Some s' \<and> queues pool s' rs (remove1 x ls) ws zs \<and> queue_step s s'"
proof -
  have "live.rep s ls" using assms(1) by (simp add: queues_def)
  from live.remove_ok [OF this, of x] obtain s' where
    *: "remove_live x s = Some s'" "live.rep s' (remove1 x ls)" "live.changes s s'" by blast
  then show ?thesis using assms(1) live_step_others [OF *(3)] step_of_live [OF *(3)]
    pool_stable [of s rs s'] by (auto simp: queues_def)
qed

lemma queues_insert_waiting:
  assumes "queues pool s rs ls ws zs" and "threads s x = Some c" and "x \<noteq> NULL" and "x \<notin> set ws"
  shows "\<exists>s'. insert_waiting x s = Some s' \<and> queues pool s' rs ls (ws @ [x]) zs \<and> queue_step s s'"
proof -
  have "waiting.rep s ws" using assms(1) by (simp add: queues_def)
  from waiting.insert_ok [OF this assms(2-4)] obtain s' where
    *: "insert_waiting x s = Some s'" "waiting.rep s' (ws @ [x])" "waiting.changes s s'" by blast
  then show ?thesis using assms(1) waiting_step_others [OF *(3)] step_of_waiting [OF *(3)]
    pool_stable [of s rs s'] by (auto simp: queues_def)
qed

lemma queues_remove_waiting:
  assumes "queues pool s rs ls ws zs"
  shows "\<exists>s'. remove_waiting x s = Some s' \<and> queues pool s' rs ls (remove1 x ws) zs \<and> queue_step s s'"
proof -
  have "waiting.rep s ws" using assms(1) by (simp add: queues_def)
  from waiting.remove_ok [OF this, of x] obtain s' where
    *: "remove_waiting x s = Some s'" "waiting.rep s' (remove1 x ws)" "waiting.changes s s'" by blast
  then show ?thesis using assms(1) waiting_step_others [OF *(3)] step_of_waiting [OF *(3)]
    pool_stable [of s rs s'] by (auto simp: queues_def)
qed

lemma queues_insert_zombie:
  assumes "queues pool s rs ls ws zs" and "t \<noteq> NULL" and "p \<noteq> NULL" and "p \<notin> fst ` set zs"
  shows "\<exists>s'. insert_zombie t p s = Some (Continue, s') \<and> queues pool s' rs ls ws (zs @ [(p, t)]) \<and>
    queue_step s s'"
proof -
  obtain s' where s': "insert_zombie t p s = Some (Continue, s')" "zrep s' (zs @ [(p, t)])" "zombie_step s s'"
    using insert_zombie_ok [OF _ assms(2-4)] assms(1) by (auto simp: queues_def)
  note f = zombie_step_fields [OF s'(3)]
  have "pool s' rs" using assms(1) pool_stable f(6) by (auto simp: queues_def)
  with s'(1,2) assms(1) f show ?thesis by (simp add: queues_def live.rep_def waiting.rep_def)
qed

lemma queues_store:
  assumes "queues pool s rs ls ws zs"
    and "\<And>p. p \<in> set rs \<union> set ls \<union> set ws \<Longrightarrow> map_option links (h p) = map_option links (threads s p)"
  shows "queues pool (s\<lparr>threads := h\<rparr>) rs ls ws zs"
proof -
  note v = store_change_queues [of ls ws rs h s]
  have "same_pool_view rs s (s\<lparr>threads := h\<rparr>)" by (rule v(4)) (use assms(2) in auto)
  then have "pool (s\<lparr>threads := h\<rparr>) rs" using assms(1) pool_stable by (auto simp: queues_def)
  then show ?thesis using assms v(1-3) by (auto simp: queues_def)
qed

lemma queues_reap:
  assumes q: "queues pool s rs ls ws (ys @ (p, t) # zs)" and t: "t \<noteq> NULL" "t \<notin> snd ` set ys"
    and c: "threads s t = Some c" and unlinked: "t \<notin> set rs \<union> set ls \<union> set ws"
    and unmap: "stack c \<noteq> NULL \<Longrightarrow> \<not> munmap_fails (stack c) (stacksize c)"
  shows "\<exists>s'. reap_and_remove munmap_fails t want s =
      Some (Continue, tid c, if want then Some (LWPTERMSTAT (status c)) else None, s') \<and>
    queues pool s' rs ls ws (ys @ zs) \<and> threads s' = (threads s)(t := None) \<and>
    curr_thread s' = curr_thread s \<and> curr_tid s' = curr_tid s \<and> current_scheduler s' = current_scheduler s"
proof -
  have "zrep s (ys @ (p, t) # zs)" using q by (simp add: queues_def)
  from remove_zombie_ok [OF this t] obtain s1 where
    s1: "remove_zombie t s = Some s1" "find_zombie t s = Some p" "zrep s1 (ys @ zs)" "zombie_step s s1" by blast
  note f = zombie_step_fields [OF s1(4)]
  have p: "p \<noteq> NULL" using q by (auto simp: queues_def zrep_def)
  let ?s2 = "s1\<lparr>threads := (threads s1)(t := None)\<rparr>"
  let ?s' = "?s2\<lparr>zombies := (zombies s1)(p := None)\<rparr>"
  have "pool s1 rs" using q pool_stable f(6) by (auto simp: queues_def)
  then have "queues pool s1 rs ls ws (ys @ zs)"
    using q s1(3) f by (simp add: queues_def live.rep_def waiting.rep_def)
  then have q2: "queues pool ?s2 rs ls ws (ys @ zs)"
    by (rule queues_store) (use unlinked in auto)
  have "same_pool_view rs ?s2 ?s'" by (simp add: same_pool_view_def)
  then have "pool ?s' rs" using q2 pool_stable by (auto simp: queues_def)
  moreover have "p \<notin> fst ` set (ys @ zs)" using q by (auto simp: queues_def zrep_def)
  then have "zrep ?s' (ys @ zs)" using q2 by (simp add: queues_def zrep_def)
  ultimately have "queues pool ?s' rs ls ws (ys @ zs)"
    using q2 by (simp add: queues_def live.rep_def waiting.rep_def)
  moreover have "reap_and_remove munmap_fails t want s =
      Some (Continue, tid c, if want then Some (LWPTERMSTAT (status c)) else None, ?s')"
    using t(1) s1(1,2) p c f(1) unmap by (auto simp: reap_and_remove_def thr_eq)
  ultimately show ?thesis using f(1,7) by (auto simp: queue_step_iff)
qed

end

end
