(* ===== verification/Lwp_Population.thy ===== *)
theory Lwp_Population
  imports Lwp_Model
begin

text \<open>
  The invariant of the thread library that needs no pointers: which threads are runnable, waiting or
  zombies, what their status, id and claimed zombie are, and that each kind of step keeps it.
\<close>

section \<open>The population of threads\<close>

text \<open>
  The fields of a thread that are not links: what the invariant says of them needs no pointers. The
  sets are the threads in the scheduler's pool, the waiting threads and the zombies; \<open>n\<close> is the next
  thread id.
\<close>

type_synonym thread_facts = "u32 \<times> 64 word \<times> addr"

definition facts :: "threadinfo \<Rightarrow> thread_facts" where
  "facts c = (status c, tid c, exited c)"

definition view :: "'x lwp_state \<Rightarrow> addr \<Rightarrow> thread_facts option" where
  "view s p = map_option facts (threads s p)"

definition tidy ::
  "(addr \<Rightarrow> thread_facts option) \<Rightarrow> 64 word \<Rightarrow> addr set \<Rightarrow> addr set \<Rightarrow> addr set \<Rightarrow> bool" where
  "tidy f n R W Z \<longleftrightarrow> n \<noteq> NO_THREAD \<and> R \<inter> W = {} \<and> (R \<union> W) \<inter> Z = {} \<and> (R = {} \<longrightarrow> W = {}) \<and>
     dom f = R \<union> W \<union> Z \<and> NULL \<notin> dom f \<and>
     (\<forall>p st t e. f p = Some (st, t, e) \<longrightarrow> (LWPTERMINATED st \<longleftrightarrow> p \<in> Z) \<and> t \<noteq> NO_THREAD \<and> t < n \<and>
        (e \<noteq> NULL \<longrightarrow> p \<in> R \<and> e \<in> Z)) \<and>
     (\<forall>p q st t e st' e'. f p = Some (st, t, e) \<longrightarrow> f q = Some (st', t, e') \<longrightarrow> p = q) \<and>
     (\<forall>p q st t e st' t'. f p = Some (st, t, e) \<longrightarrow> f q = Some (st', t', e) \<longrightarrow> e \<noteq> NULL \<longrightarrow> p = q)"

lemma low_byte: "(255 :: u32) = mask 8" "push_bit TERMOFFSET 1 - 1 = (mask 8 :: u32)"
  by (simp_all add: mask_eq_exp_minus_1 TERMOFFSET_def push_bit_eq_mult)

lemma termstat_code: "LWPTERMSTAT (MKTERMSTAT LWP_TERM n) = n AND 255"
  unfolding LWPTERMSTAT_def MKTERMSTAT_def low_byte
  by (rule bit_word_eqI) (auto simp: TERMOFFSET_def bit_simps)

lemma terminated_codes [simp]: "LWPTERMINATED (MKTERMSTAT LWP_TERM n)" "\<not> LWPTERMINATED LWP_LIVE"
proof -
  have "bit (MKTERMSTAT LWP_TERM n) 8"
    by (simp add: MKTERMSTAT_def LWP_TERM_def TERMOFFSET_def bit_simps bit_1_iff)
  then show "LWPTERMINATED (MKTERMSTAT LWP_TERM n)"
    by (simp add: LWPTERMINATED_def LWP_TERM_def TERMOFFSET_def and_one_eq odd_iff_mod_2_eq_one [symmetric]
        bit_iff_odd_drop_bit flip: odd_iff_mod_2_eq_one)
  show "\<not> LWPTERMINATED LWP_LIVE"
    by (simp add: LWPTERMINATED_def LWP_LIVE_def LWP_TERM_def)
qed

lemma tidy_sets:
  assumes "tidy f n R W Z"
  shows "n \<noteq> NO_THREAD" and "R \<inter> W = {}" and "R \<inter> Z = {}" and "W \<inter> Z = {}" and "R = {} \<Longrightarrow> W = {}"
    and "dom f = R \<union> W \<union> Z" and "NULL \<notin> R \<union> W \<union> Z"
  using assms unfolding tidy_def by auto

lemma tidy_facts:
  assumes "tidy f n R W Z" and "f p = Some (st, t, e)"
  shows "LWPTERMINATED st \<longleftrightarrow> p \<in> Z" and "t \<noteq> NO_THREAD" and "t < n" and "e \<noteq> NULL \<Longrightarrow> p \<in> R \<and> e \<in> Z"
  using assms unfolding tidy_def by blast+

lemma tidy_unique:
  assumes "tidy f n R W Z" and "f p = Some (st, t, e)" and "f q = Some (st', t', e')"
  shows "t = t' \<Longrightarrow> p = q" and "e = e' \<Longrightarrow> e \<noteq> NULL \<Longrightarrow> p = q"
  using assms unfolding tidy_def by blast+

lemma tidyI:
  assumes "n \<noteq> NO_THREAD" and "R \<inter> W = {}" and "R \<inter> Z = {}" and "W \<inter> Z = {}" and "R = {} \<Longrightarrow> W = {}"
    and "dom f = R \<union> W \<union> Z" and "NULL \<notin> R \<union> W \<union> Z"
    and ok: "\<And>p st t e. f p = Some (st, t, e) \<Longrightarrow> (LWPTERMINATED st \<longleftrightarrow> p \<in> Z) \<and> t \<noteq> NO_THREAD \<and> t < n \<and>
      (e \<noteq> NULL \<longrightarrow> p \<in> R \<and> e \<in> Z)"
    and tids: "\<And>p q st t e st' t' e'. f p = Some (st, t, e) \<Longrightarrow> f q = Some (st', t', e') \<Longrightarrow> p \<noteq> q \<Longrightarrow> t \<noteq> t'"
    and claims: "\<And>p q st t e st' t' e'. f p = Some (st, t, e) \<Longrightarrow> f q = Some (st', t', e') \<Longrightarrow> p \<noteq> q \<Longrightarrow>
      e \<noteq> NULL \<Longrightarrow> e' \<noteq> NULL \<Longrightarrow> e \<noteq> e'"
  shows "tidy f n R W Z"
proof -
  have "\<forall>p st t e. f p = Some (st, t, e) \<longrightarrow> (LWPTERMINATED st \<longleftrightarrow> p \<in> Z) \<and> t \<noteq> NO_THREAD \<and> t < n \<and>
      (e \<noteq> NULL \<longrightarrow> p \<in> R \<and> e \<in> Z)" using ok by blast
  moreover have "\<forall>p q st t e st' e'. f p = Some (st, t, e) \<longrightarrow> f q = Some (st', t, e') \<longrightarrow> p = q"
    using tids by blast
  moreover have "\<forall>p q st t e st' t'. f p = Some (st, t, e) \<longrightarrow> f q = Some (st', t', e) \<longrightarrow> e \<noteq> NULL \<longrightarrow> p = q"
    using claims by blast
  moreover have "(R \<union> W) \<inter> Z = {}" "R = {} \<longrightarrow> W = {}" "NULL \<notin> dom f" using assms(3-7) by auto
  ultimately show ?thesis unfolding tidy_def using assms(1,2,6) by simp
qed

text \<open>What changes is one entry, or two: the rest keeps its facts.\<close>

lemma tidy_put:
  assumes T: "tidy f n R W Z" and n: "n \<le> n'" "n' \<noteq> NO_THREAD"
    and sets: "R' \<inter> W' = {}" "R' \<inter> Z' = {}" "W' \<inter> Z' = {}" "R' = {} \<Longrightarrow> W' = {}"
      "R' \<union> W' \<union> Z' = insert p (R \<union> W \<union> Z)" "p \<noteq> NULL"
    and others: "Z' - {p} = Z - {p}" "R - {p} \<subseteq> R'" "Z \<subseteq> Z'"
    and new: "LWPTERMINATED st \<longleftrightarrow> p \<in> Z'" "t \<noteq> NO_THREAD" "t < n'" "e \<noteq> NULL \<Longrightarrow> p \<in> R' \<and> e \<in> Z'"
    and tids: "\<And>q s' t' e'. f q = Some (s', t', e') \<Longrightarrow> q \<noteq> p \<Longrightarrow> t' \<noteq> t"
    and claims: "\<And>q s' t' e'. f q = Some (s', t', e') \<Longrightarrow> q \<noteq> p \<Longrightarrow> e \<noteq> NULL \<Longrightarrow> e' \<noteq> e"
  shows "tidy (f(p \<mapsto> (st, t, e))) n' R' W' Z'"
proof (rule tidyI)
  note S = tidy_sets [OF T]
  show "dom (f(p \<mapsto> (st, t, e))) = R' \<union> W' \<union> Z'" using S(6) sets(5) by auto
  show "NULL \<notin> R' \<union> W' \<union> Z'" using S(7) sets(5,6) by simp
next
  fix q s' t' e'
  assume *: "(f(p \<mapsto> (st, t, e))) q = Some (s', t', e')"
  show "(LWPTERMINATED s' \<longleftrightarrow> q \<in> Z') \<and> t' \<noteq> NO_THREAD \<and> t' < n' \<and> (e' \<noteq> NULL \<longrightarrow> q \<in> R' \<and> e' \<in> Z')"
  proof (cases "q = p")
    case False
    with * have f: "f q = Some (s', t', e')" by simp
    have "q \<in> Z' \<longleftrightarrow> q \<in> Z" using False others(1) by blast
    then show ?thesis using tidy_facts [OF T f] False others(2,3) n(1) by (auto intro: less_le_trans)
  qed (use * new in auto)
next
  fix q r s1 t1 e1 s2 t2 e2
  assume *: "(f(p \<mapsto> (st, t, e))) q = Some (s1, t1, e1)" "(f(p \<mapsto> (st, t, e))) r = Some (s2, t2, e2)" "q \<noteq> r"
  then consider (left) "f r = Some (s2, t2, e2)" "r \<noteq> p" "t1 = t" "e1 = e"
    | (right) "f q = Some (s1, t1, e1)" "q \<noteq> p" "t2 = t" "e2 = e"
    | (old) "f q = Some (s1, t1, e1)" "f r = Some (s2, t2, e2)" "q \<noteq> r"
    by (cases "q = p"; cases "r = p") simp_all
  note cases = this
  from cases show "t1 \<noteq> t2"
  proof cases
    case old
    with tidy_unique(1) [OF T] show ?thesis by blast
  qed (use tids in blast)+
  show "e1 \<noteq> e2" if e: "e1 \<noteq> NULL" "e2 \<noteq> NULL"
    using cases
  proof cases
    case old
    with e tidy_unique(2) [OF T] show ?thesis by blast
  qed (use e claims in blast)+
qed (use sets n in simp_all)

lemma tidy_create:
  assumes T: "tidy f n R W Z" and p: "f p = None" "p \<noteq> NULL" and n: "n \<noteq> - 1"
  shows "tidy (f(p \<mapsto> (LWP_LIVE, n, NULL))) (n + 1) (insert p R) W Z"
proof (rule tidy_put [OF T])
  note S = tidy_sets [OF T]
  have "1 + n \<noteq> 0" using n by (metis add.commute add_eq_0_iff2)
  then have "n < n + 1" "n + 1 \<noteq> 0"
    using unatSuc [of n] by (simp_all add: word_less_nat_alt add.commute)
  then show "n < n + 1" "n \<le> n + 1" "n + 1 \<noteq> NO_THREAD" by (simp_all add: NO_THREAD_def)
  have "p \<notin> R \<union> W \<union> Z" using S(6) p(1) by blast
  then show "insert p R \<inter> W = {}" "insert p R \<inter> Z = {}" "LWPTERMINATED LWP_LIVE \<longleftrightarrow> p \<in> Z"
    using S by auto
  show "t' \<noteq> n" if "f q = Some (s', t', e')" for q s' t' e' using tidy_facts(3) [OF T that] by simp
qed (use tidy_sets [OF T] p in auto)

text \<open>An exiting thread, with and without a waiter to wake.\<close>

lemma tidy_exit:
  assumes T: "tidy f n R {} Z" and p: "p \<in> R" "f p = Some (st, t, NULL)"
  shows "tidy (f(p \<mapsto> (MKTERMSTAT LWP_TERM code, t, NULL))) n (R - {p}) {} (insert p Z)"
proof (rule tidy_put [OF T])
  show "p \<noteq> NULL" "(R - {p}) \<inter> insert p Z = {}" using tidy_sets [OF T] p by auto
  show "t' \<noteq> t" if "f q = Some (s', t', e')" "q \<noteq> p" for q s' t' e'
    using tidy_unique(1) [OF T that(1) p(2)] that(2) by blast
qed (use tidy_sets [OF T] tidy_facts [OF T p(2)] p in auto)

lemma tidy_exit_wake:
  assumes T: "tidy f n R W Z" and p: "p \<in> R" "f p = Some (st, t, NULL)"
    and w: "w \<in> W" "f w = Some (st', t', e')"
  shows "tidy (f(p \<mapsto> (MKTERMSTAT LWP_TERM code, t, NULL), w \<mapsto> (st', t', p))) n
    (insert w (R - {p})) (W - {w}) (insert p Z)"
proof -
  note S = tidy_sets [OF T]
  have ne: "p \<noteq> w" "w \<noteq> p" "p \<notin> Z" "p \<noteq> NULL" "e' = NULL" "w \<notin> Z" "w \<notin> R" "p \<notin> W"
    using S p w tidy_facts(4) [OF T w(2)] by auto
  have free: "e1 \<noteq> p" if "f q = Some (s1, t1, e1)" for q s1 t1 e1
    using tidy_facts(4) [OF T that] ne by blast
  have "tidy (f(w \<mapsto> (st', t', NULL))) n (insert w R) (W - {w}) Z"
  proof (rule tidy_put [OF T])
    show "u \<noteq> t'" if "f q = Some (s1, u, e1)" "q \<noteq> w" for q s1 u e1
      using tidy_unique(1) [OF T that(1) w(2)] that(2) by blast
  qed (use S tidy_facts [OF T w(2)] w in auto)
  then have "tidy (f(w \<mapsto> (st', t', NULL), p \<mapsto> (MKTERMSTAT LWP_TERM code, t, NULL))) n
      (insert w (R - {p})) (W - {w}) (insert p Z)" (is "tidy ?g n _ _ _")
  proof (rule tidy_put)
    show "u \<noteq> t" if "(f(w \<mapsto> (st', t', NULL))) q = Some (s1, u, e1)" "q \<noteq> p" for q s1 u e1
      using that tidy_unique(1) [OF T _ p(2)] w(2) by (auto split: if_splits)
  qed (use S tidy_facts [OF T p(2)] p ne in auto)
  then have "tidy (?g(w \<mapsto> (st', t', p))) n (insert w (R - {p})) (W - {w}) (insert p Z)"
  proof (rule tidy_put)
    show "u \<noteq> t'" if "?g q = Some (s1, u, e1)" "q \<noteq> w" for q s1 u e1
      using that tidy_unique(1) [OF T _ w(2)] p(2) ne by (auto split: if_splits)
    show "e1 \<noteq> p" if "?g q = Some (s1, u, e1)" "q \<noteq> w" for q s1 u e1
      using that free ne by (auto split: if_splits)
  qed (use S tidy_facts [OF T w(2)] p w ne in auto)
  then show ?thesis using ne by (simp add: fun_upd_twist)
qed

lemma tidy_block:
  assumes T: "tidy f n R W Z" and p: "p \<in> R" "f p = Some (st, t, NULL)" and other: "R \<noteq> {p}"
  shows "tidy f n (R - {p}) (insert p W) Z"
proof -
  have "tidy (f(p \<mapsto> (st, t, NULL))) n (R - {p}) (insert p W) Z"
  proof (rule tidy_put [OF T])
    show "t' \<noteq> t" if "f q = Some (s', t', e')" "q \<noteq> p" for q s' t' e'
      using tidy_unique(1) [OF T that(1) p(2)] that(2) by blast
    show "R - {p} = {} \<Longrightarrow> insert p W = {}" using p other by blast
  qed (use tidy_sets [OF T] tidy_facts [OF T p(2)] p in auto)
  then show ?thesis using p(2) by (simp add: fun_upd_idem)
qed

lemma tidy_claim:
  assumes T: "tidy f n R W Z" and p: "f p = Some (st, t, e)"
  shows "tidy (f(p \<mapsto> (st, t, NULL))) n R W Z"
    and "e \<noteq> NULL \<Longrightarrow> (f(p \<mapsto> (st, t, NULL))) q = Some (st', t', e') \<Longrightarrow> e' \<noteq> e"
proof -
  show "tidy (f(p \<mapsto> (st, t, NULL))) n R W Z"
  proof (rule tidy_put [OF T])
    show "t' \<noteq> t" if "f q = Some (s', t', e')" "q \<noteq> p" for q s' t' e'
      using tidy_unique(1) [OF T that(1) p] that(2) by blast
  qed (use tidy_sets [OF T] tidy_facts [OF T p] p in auto)
  show "e' \<noteq> e" if "e \<noteq> NULL" "(f(p \<mapsto> (st, t, NULL))) q = Some (st', t', e')"
    using that tidy_unique(2) [OF T _ p] by (auto split: if_splits)
qed

lemma tidy_reap:
  assumes T: "tidy f n R W Z" and z: "z \<in> Z"
    and free: "\<And>p st t e. f p = Some (st, t, e) \<Longrightarrow> e \<noteq> z"
  shows "tidy (f(z := None)) n R W (Z - {z})"
proof (rule tidyI)
  note S = tidy_sets [OF T]
  show "dom (f(z := None)) = R \<union> W \<union> (Z - {z})" using S z by auto
  fix p st t e
  assume "(f(z := None)) p = Some (st, t, e)"
  then have "f p = Some (st, t, e)" "p \<noteq> z" by (auto split: if_splits)
  then show "(LWPTERMINATED st \<longleftrightarrow> p \<in> Z - {z}) \<and> t \<noteq> NO_THREAD \<and> t < n \<and> (e \<noteq> NULL \<longrightarrow> p \<in> R \<and> e \<in> Z - {z})"
    using tidy_facts [OF T] free by blast
next
  fix p q st t e st' t' e'
  assume *: "(f(z := None)) p = Some (st, t, e)" "(f(z := None)) q = Some (st', t', e')" "p \<noteq> q"
  then have f: "f p = Some (st, t, e)" "f q = Some (st', t', e')" by (auto split: if_splits)
  show "t \<noteq> t'" using tidy_unique(1) [OF T f] *(3) by blast
  show "e \<noteq> e'" if "e \<noteq> NULL" "e' \<noteq> NULL" using tidy_unique(2) [OF T f] *(3) that by blast
qed (use tidy_sets [OF T] in auto)

end
