(* ===== verification/Lwp_Calls.thy ===== *)
theory Lwp_Calls
  imports Lwp_Threads Lwp_Population
begin

text \<open>
  The invariant of the thread library and what each of its calls does to it, over any scheduler that
  keeps the contract.
\<close>

section \<open>Steps that leave the queues alone\<close>

definition relink :: "'x lwp_state \<Rightarrow> 'x lwp_state \<Rightarrow> bool" where
  "relink s s' \<longleftrightarrow> (\<forall>p. map_option links (threads s' p) = map_option links (threads s p)) \<and>
     s' = s\<lparr>threads := threads s', stack_words := stack_words s', cpu := cpu s',
       curr_thread := curr_thread s', current_scheduler := current_scheduler s', curr_tid := curr_tid s'\<rparr>"

lemma view_queue_step: "queue_step s s' \<Longrightarrow> view s' = view s"
  using queue_step_field [of s s' facts] by (auto simp: view_def facts_def erase_links_def)

lemma relink_default [simp]: "relink s (default_scheduler s)"
  by (simp add: relink_def default_scheduler_def)

lemma relink_curr [simp]: "relink s (s\<lparr>curr_thread := p\<rparr>)"
  by (simp add: relink_def)

lemma relink_store: "threads s p = Some c \<Longrightarrow> links c' = links c \<Longrightarrow>
    relink s (s\<lparr>threads := (threads s)(p \<mapsto> c')\<rparr>)"
  by (simp add: relink_def)

context scheduler_contract
begin

lemma queues_relink:
  assumes "queues pool s rs ls ws zs" and "relink s s'"
  shows "queues pool s' rs ls ws zs"
proof -
  have eq: "s' = s\<lparr>threads := threads s', stack_words := stack_words s', cpu := cpu s',
      curr_thread := curr_thread s', current_scheduler := current_scheduler s', curr_tid := curr_tid s'\<rparr>"
    (is "_ = ?u") using assms(2) unfolding relink_def by blast
  let ?t = "s\<lparr>threads := threads s'\<rparr>"
  have q: "queues pool ?t rs ls ws zs"
    by (rule queues_store [OF assms(1)]) (use assms(2) in \<open>simp add: relink_def\<close>)
  have "same_pool_view rs ?t ?u" by (simp add: same_pool_view_def)
  with q have "pool ?u rs" using pool_stable by (auto simp: queues_def)
  with q have "queues pool ?u rs ls ws zs"
    by (simp add: queues_def live.rep_def waiting.rep_def zrep_def)
  with eq show ?thesis by simp
qed

end

lemma relink_trans: "relink s s' \<Longrightarrow> relink s' s'' \<Longrightarrow> relink s s''"
  unfolding relink_def by (cases s; cases s'; cases s'') simp

section \<open>The context switch\<close>

lemma swap_ok:
  assumes old: "old = NULL \<or> threads s old \<noteq> None" and new: "new \<noteq> NULL" "threads s new = Some c"
  shows "\<exists>pc s'. swap_rfiles old new s = Some (pc, s') \<and> relink s s' \<and> view s' = view s \<and>
    curr_thread s' = curr_thread s \<and> curr_tid s' = curr_tid s \<and> current_scheduler s' = current_scheduler s"
proof -
  have push: "threads (push_frame s) = threads s" by (simp add: push_frame_def Let_def)
  show ?thesis
  proof (cases "old = NULL")
    case True
    then show ?thesis using new
      by (simp add: swap_rfiles_def save_rfile_def load_rfile_def push_frame_def leave_ret_def thr_eq
          relink_def Let_def view_def fun_eq_iff)
  next
    case False
    then obtain d where d: "threads s old = Some d" using old by auto
    then show ?thesis using new False
      by (auto simp: swap_rfiles_def save_rfile_def load_rfile_def push_frame_def leave_ret_def thr_eq
          upd_eq relink_def Let_def view_def links_def facts_def fun_eq_iff)
  qed
qed

section \<open>The invariant\<close>

definition lwp_inv ::
  "('x lwp_state \<Rightarrow> addr list \<Rightarrow> bool) \<Rightarrow> 'x lwp_state \<Rightarrow> addr list \<Rightarrow> addr list \<Rightarrow> addr list \<Rightarrow>
    (addr \<times> addr) list \<Rightarrow> bool" where
  "lwp_inv pool s rs ls ws zs \<longleftrightarrow> queues pool s rs ls ws zs \<and> distinct (map snd zs) \<and>
     set ls = set rs \<union> set ws \<and> tidy (view s) (curr_tid s) (set rs) (set ws) (snd ` set zs)"

text \<open>The scheduler in use, once the default is taken into account.\<close>

definition uses ::
  "(nat \<Rightarrow> 'x lwp_state sched_ops) \<Rightarrow> 'x lwp_state sched_ops \<Rightarrow> 'x lwp_state \<Rightarrow> bool" where
  "uses tbl ops s \<longleftrightarrow> sched_of tbl (current_scheduler (default_scheduler s)) = Some ops"

lemma default_simps [simp]:
  "threads (default_scheduler s) = threads s" "curr_thread (default_scheduler s) = curr_thread s"
  "curr_tid (default_scheduler s) = curr_tid s" "view (default_scheduler s) = view s"
  "default_scheduler (default_scheduler s) = default_scheduler s"
  "current_scheduler (default_scheduler s) \<noteq> NULL_scheduler"
  "waiting_head (default_scheduler s) = waiting_head s" "zombies_head (default_scheduler s) = zombies_head s"
  "zombies (default_scheduler s) = zombies s"
  by (simp_all add: default_scheduler_def view_def fun_eq_iff lwp_get_scheduler_def)

lemma uses_iff: "current_scheduler s' = current_scheduler (default_scheduler s) \<Longrightarrow> uses tbl ops s' = uses tbl ops s"
  using default_simps(6) [of s] by (simp add: uses_def default_scheduler_def lwp_get_scheduler_def)

lemma view_some: "view s p = Some x \<longleftrightarrow> (\<exists>c. threads s p = Some c \<and> x = facts c)"
  by (auto simp: view_def)

lemma view_none: "view s p = None \<longleftrightarrow> threads s p = None"
  by (simp add: view_def)

lemma view_upd [simp]: "view (s\<lparr>threads := (threads s)(p \<mapsto> c)\<rparr>) = (view s)(p \<mapsto> facts c)"
  by (auto simp: view_def)

lemma view_fields [simp]: "view (s\<lparr>curr_thread := p\<rparr>) = view s" "view (s\<lparr>curr_tid := n\<rparr>) = view s"
  "view (s\<lparr>stack_words := m\<rparr>) = view s" "view (s\<lparr>cpu := r\<rparr>) = view s"
  by (simp_all add: view_def fun_eq_iff)

lemma inv_member:
  assumes "lwp_inv pool s rs ls ws zs"
  shows "p \<in> set rs \<union> set ws \<union> snd ` set zs \<longleftrightarrow> threads s p \<noteq> None"
    and "p \<in> set rs \<union> set ws \<union> snd ` set zs \<Longrightarrow> p \<noteq> NULL" and "set ls = set rs \<union> set ws"
proof -
  have T: "tidy (view s) (curr_tid s) (set rs) (set ws) (snd ` set zs)" and "set ls = set rs \<union> set ws"
    using assms by (simp_all add: lwp_inv_def)
  then show "set ls = set rs \<union> set ws" by blast
  show "p \<in> set rs \<union> set ws \<union> snd ` set zs \<longleftrightarrow> threads s p \<noteq> None"
    using tidy_sets(6) [OF T] by (auto simp: view_def dom_def)
  show "p \<in> set rs \<union> set ws \<union> snd ` set zs \<Longrightarrow> p \<noteq> NULL" using tidy_sets(7) [OF T] by blast
qed

context scheduler_contract
begin

lemma inv_relink:
  assumes "lwp_inv pool s rs ls ws zs" and "relink s s'" and "view s' = view s" and "curr_tid s' = curr_tid s"
  shows "lwp_inv pool s' rs ls ws zs"
  using assms queues_relink [of s rs ls ws zs s'] by (simp add: lwp_inv_def)

lemma inv_default: "lwp_inv pool s rs ls ws zs \<Longrightarrow> lwp_inv pool (default_scheduler s) rs ls ws zs"
  by (erule inv_relink) simp_all

text \<open>
  \<open>lwp_yield\<close> goes on with a runnable thread as long as there is one. The running thread need not be
  runnable itself: it may be waiting or have exited.
\<close>

lemma yield_ok:
  assumes inv: "lwp_inv pool s rs ls ws zs" and use: "uses tbl ops s" and run: "rs \<noteq> []"
    and cur: "curr_thread s = NULL \<or> threads s (curr_thread s) \<noteq> None"
  shows "\<exists>k s' rs'. lwp_yield tbl mf s = Some (k, s') \<and> lwp_inv pool s' rs' ls ws zs \<and> set rs' = set rs \<and>
    uses tbl ops s' \<and> view s' = view s \<and> curr_thread s' \<in> set rs \<and>
    (k = Continue \<and> curr_thread s' = curr_thread s \<or> (\<exists>pc. k = Switch pc) \<and> curr_thread s' \<noteq> curr_thread s)"
proof -
  let ?d = "default_scheduler s"
  have ops: "sched_of tbl (current_scheduler ?d) = Some ops" using use by (simp add: uses_def)
  have d: "queues pool ?d rs ls ws zs" using inv_default [OF inv] by (simp add: lwp_inv_def)
  from queues_next [OF d] run obtain x s1 rs1 where
    n: "so_next ops ?d = Some (x, s1)" "queues pool s1 rs1 ls ws zs" "queue_step ?d s1"
      "set rs1 = set rs" "x \<in> set rs" by auto
  have v: "view s1 = view s" using view_queue_step [OF n(3)] by simp
  have q: "curr_thread s1 = curr_thread s" "curr_tid s1 = curr_tid s"
    "current_scheduler s1 = current_scheduler ?d" using n(3) by (simp_all add: queue_step_iff)
  have i1: "lwp_inv pool s1 rs1 ls ws zs" using inv n(2,4) v q by (simp add: lwp_inv_def)
  have x: "x \<noteq> NULL" "NULL \<noteq> x" using inv_member(2) [OF inv, of x] n(5) by auto
  obtain c where c: "threads s1 x = Some c" using inv_member(1) [OF i1, of x] n(4,5) by auto
  show ?thesis
  proof (cases "curr_thread s = x")
    case True
    then have "lwp_yield tbl mf s = Some (Continue, s1)" using ops n(1) q x by (simp add: lwp_yield_def)
    then show ?thesis using i1 n(4,5) v q True use uses_iff [of s1 s] by auto
  next
    case False
    let ?s = "s1\<lparr>curr_thread := x\<rparr>"
    have old: "curr_thread s = NULL \<or> threads ?s (curr_thread s) \<noteq> None"
      using cur queue_step_alloc [OF n(3)] by simp
    from swap_ok [OF old x(1)] c obtain pc s' where
      w: "swap_rfiles (curr_thread s) x ?s = Some (pc, s')" "relink ?s s'" "view s' = view ?s"
        "curr_thread s' = x" "curr_tid s' = curr_tid s1" "current_scheduler s' = current_scheduler s1" by auto
    have "lwp_yield tbl mf s = Some (Switch pc, s')"
      using ops n(1) q x False w(1) c old by (cases "curr_thread s = NULL") (auto simp: lwp_yield_def thr_eq Let_def)
    moreover have "lwp_inv pool s' rs1 ls ws zs"
      by (rule inv_relink [OF i1]) (use w relink_trans [OF relink_curr w(2)] in simp_all)
    ultimately show ?thesis using n(4,5) v w(3-6) q False use uses_iff [of s' s] by auto
  qed
qed

text \<open>With no runnable thread it goes back to its caller, unless that has exited.\<close>

lemma yield_idle:
  assumes inv: "lwp_inv pool s [] ls ws zs" and use: "uses tbl ops s" and cur: "curr_thread s = NULL"
  shows "\<exists>s'. lwp_yield tbl mf s = Some (Continue, s') \<and> (\<exists>rs'. lwp_inv pool s' rs' ls ws zs \<and> set rs' = {}) \<and>
    uses tbl ops s' \<and> view s' = view s \<and> curr_thread s' = NULL"
proof -
  let ?d = "default_scheduler s"
  have d: "queues pool ?d [] ls ws zs" using inv_default [OF inv] by (simp add: lwp_inv_def)
  from queues_next [OF d] obtain s1 rs1 where
    n: "so_next ops ?d = Some (NULL, s1)" "queues pool s1 rs1 ls ws zs" "queue_step ?d s1" "set rs1 = {}" by auto
  have q: "curr_thread s1 = NULL" "curr_tid s1 = curr_tid s" "current_scheduler s1 = current_scheduler ?d"
    using n(3) cur by (simp_all add: queue_step_iff)
  have "lwp_inv pool s1 rs1 ls ws zs"
    using inv n(2,4) view_queue_step [OF n(3)] q by (simp add: lwp_inv_def)
  moreover have "lwp_yield tbl mf s = Some (Continue, s1)"
    using use n(1) q by (simp add: lwp_yield_def uses_def)
  ultimately show ?thesis using view_queue_step [OF n(3)] n(4) q use uses_iff [of s1 s] by auto
qed

end

lemma view_remove: "threads s' = (threads s)(t := None) \<Longrightarrow> view s' = (view s)(t := None)"
  by (simp add: view_def fun_eq_iff)

lemma zombie_split:
  assumes "distinct (map snd zs)" and "t \<in> snd ` set zs"
  obtains ys p zs' where "zs = ys @ (p, t) # zs'" and "t \<notin> snd ` set ys" and "t \<notin> snd ` set zs'"
proof -
  from assms(2) obtain p where "(p, t) \<in> set zs" by auto
  then obtain ys zs' where "zs = ys @ (p, t) # zs'" by (auto dest: split_list)
  with assms(1) that show thesis by auto
qed

context scheduler_contract
begin

lemma reap_fails:
  assumes inv: "lwp_inv pool s rs ls ws zs" and t: "t \<in> snd ` set zs" and c: "threads s t = Some c"
    and fails: "stack c \<noteq> NULL" "munmap_fails (stack c) (stacksize c)"
  shows "\<exists>s'. reap_and_remove munmap_fails t want s = Some (Exit EXIT_FAILURE, NO_THREAD, None, s')"
proof -
  have "distinct (map snd zs)" and z: "zrep s zs" using inv by (simp_all add: lwp_inv_def queues_def)
  with t obtain ys p zs' where zs: "zs = ys @ (p, t) # zs'" "t \<notin> snd ` set ys" by (auto elim: zombie_split)
  have "t \<noteq> NULL" using inv_member(2) [OF inv] t by simp
  from remove_zombie_ok [OF z [unfolded zs(1)] this zs(2)] obtain s1 where
    s1: "remove_zombie t s = Some s1" "find_zombie t s = Some p" "zombie_step s s1" by blast
  have "p \<noteq> NULL" using z zs(1) by (auto simp: zrep_def)
  then show ?thesis using \<open>t \<noteq> NULL\<close> s1 c fails zombie_step_fields(1) [OF s1(3)]
    by (simp add: reap_and_remove_def thr_eq)
qed

lemma reap_ok:
  assumes inv: "lwp_inv pool s rs ls ws (ys @ (p, t) # zs)" and c: "threads s t = Some c"
    and unmap: "stack c \<noteq> NULL \<Longrightarrow> \<not> munmap_fails (stack c) (stacksize c)"
    and free: "\<And>q st u e. view s q = Some (st, u, e) \<Longrightarrow> e \<noteq> t"
  shows "\<exists>s'. reap_and_remove munmap_fails t want s =
      Some (Continue, tid c, if want then Some (LWPTERMSTAT (status c)) else None, s') \<and>
    lwp_inv pool s' rs ls ws (ys @ zs) \<and> threads s' = (threads s)(t := None) \<and>
    curr_thread s' = curr_thread s \<and> current_scheduler s' = current_scheduler s"
proof -
  let ?Z = "snd ` set (ys @ (p, t) # zs)"
  have q: "queues pool s rs ls ws (ys @ (p, t) # zs)" and d: "distinct (map snd (ys @ (p, t) # zs))"
    and T: "tidy (view s) (curr_tid s) (set rs) (set ws) ?Z" and l: "set ls = set rs \<union> set ws"
    using inv by (simp_all add: lwp_inv_def)
  have t: "t \<notin> snd ` set ys" "t \<notin> snd ` set zs" "t \<noteq> NULL" "t \<notin> set rs \<union> set ls \<union> set ws"
    using d tidy_sets [OF T] l by auto
  from queues_reap [of s rs ls ws ys p t zs c munmap_fails want, OF q t(3,1) c t(4) unmap] obtain s' where
    s': "reap_and_remove munmap_fails t want s =
        Some (Continue, tid c, if want then Some (LWPTERMSTAT (status c)) else None, s')"
      "queues pool s' rs ls ws (ys @ zs)" "threads s' = (threads s)(t := None)"
      "curr_thread s' = curr_thread s" "curr_tid s' = curr_tid s" "current_scheduler s' = current_scheduler s"
    by blast
  have "tidy ((view s)(t := None)) (curr_tid s) (set rs) (set ws) (?Z - {t})"
    by (rule tidy_reap [OF T]) (use free in auto)
  moreover have "?Z - {t} = snd ` set (ys @ zs)" using t(1,2) by auto
  ultimately have "lwp_inv pool s' rs ls ws (ys @ zs)"
    using s' d l view_remove [OF s'(3)] by (simp add: lwp_inv_def)
  with s' show ?thesis by blast
qed

lemma yield_last:
  assumes inv: "lwp_inv pool s [] ls ws zs" and use: "uses tbl ops s"
    and cur: "curr_thread s \<in> snd ` set zs" "threads s (curr_thread s) = Some c"
  shows "\<exists>s'. lwp_yield tbl mf s = Some (Exit (uint (LWPTERMSTAT (status c))), s')"
proof -
  let ?d = "default_scheduler s"
  have d: "queues pool ?d [] ls ws zs" using inv_default [OF inv] by (simp add: lwp_inv_def)
  from queues_next [OF d] obtain s1 rs1 where
    n: "so_next ops ?d = Some (NULL, s1)" "queues pool s1 rs1 ls ws zs" "queue_step ?d s1" "set rs1 = {}" by auto
  have q: "curr_thread s1 = curr_thread s" "curr_tid s1 = curr_tid s" using n(3) by (simp_all add: queue_step_iff)
  have i1: "lwp_inv pool s1 rs1 ls ws zs" using inv n(2,4) view_queue_step [OF n(3)] q by (simp add: lwp_inv_def)
  have "\<exists>c'. threads s1 (curr_thread s) = Some c' \<and> erase_links c' = erase_links c"
    using queue_step_thread [OF n(3)] cur(2) by simp
  then obtain c' where c': "threads s1 (curr_thread s) = Some c'" "erase_links c' = erase_links c" by blast
  then have f: "status c' = status c" "tid c' = tid c" "exited c' = exited c"
    by (cases c; cases c'; simp add: erase_links_def)+
  have T: "tidy (view s1) (curr_tid s1) (set rs1) (set ws) (snd ` set zs)" using i1 by (simp add: lwp_inv_def)
  have dead: "LWPTERMINATED (status c')"
    using tidy_facts(1) [OF T, of "curr_thread s"] c'(1) cur(1) by (simp add: view_def facts_def)
  have ne: "curr_thread s \<noteq> NULL" using inv_member(2) [OF inv] cur(1) by simp
  have empty: "set rs1 = {}" "set ws = {}" using tidy_sets(5) [OF T] n(4) by auto
  have unclaimed: "e \<noteq> curr_thread s" if "view s1 p = Some (st, u, e)" for p st u e
    using tidy_facts(4) [OF T that] empty ne by auto
  show ?thesis
  proof (cases "stack c' = NULL")
    case True
    have "distinct (map snd zs)" using inv by (simp add: lwp_inv_def)
    with cur(1) obtain ys p zs' where zs: "zs = ys @ (p, curr_thread s) # zs'" by (auto elim: zombie_split)
    from reap_ok [of s1 rs1 ls ws ys p "curr_thread s" zs' c' mf False, OF i1 [unfolded zs] c'(1)] True unclaimed
    obtain s2 where "reap_and_remove mf (curr_thread s) False s1 = Some (Continue, tid c', None, s2)"
      by fastforce
    then show ?thesis using use n(1) q ne c'(1) f dead True
      by (simp add: lwp_yield_def uses_def thr_eq Let_def)
  next
    case False
    then show ?thesis using use n(1) q ne c'(1) f dead
      by (simp add: lwp_yield_def uses_def thr_eq Let_def)
  qed
qed

end

section \<open>Creating a thread\<close>

text \<open>What \<open>lwp_create\<close> stores before it queues the thread: its structure and the stack of its first frame.\<close>

definition new_thread :: "lwp_env \<Rightarrow> 64 word \<Rightarrow> 64 word \<Rightarrow> 64 word \<Rightarrow> size_t \<Rightarrow> threadinfo" where
  "new_thread e fn arg n sz =
    (let sp = round_down_16 (mmap_result e + sz) - 24 in
     (malloc_garbage e)\<lparr>tid := n, stacksize := sz, stack := mmap_result e,
       state := (state (malloc_garbage e))\<lparr>rdi := fn, rsi := arg, rsp := sp, rbp := sp, fxsave := FPU_INIT\<rparr>,
       status := LWP_LIVE, live_next := NULL, wait_next := NULL, sched_prev := NULL, sched_next := NULL,
       exited := NULL\<rparr>)"

definition first_frame :: "lwp_env \<Rightarrow> size_t \<Rightarrow> (addr \<Rightarrow> 64 word) \<Rightarrow> addr \<Rightarrow> 64 word" where
  "first_frame e sz m =
    (let top = round_down_16 (mmap_result e + sz) in
     m(top - 8 := addr_lwp_exit e, top - 16 := addr_lwp_wrap e, top - 24 := 0))"

definition created :: "lwp_env \<Rightarrow> 64 word \<Rightarrow> 64 word \<Rightarrow> size_t \<Rightarrow> 'x lwp_state \<Rightarrow> 'x lwp_state" where
  "created e fn arg sz s = s\<lparr>curr_tid := curr_tid s + 1, stack_words := first_frame e sz (stack_words s),
     threads := (threads s)(malloc_result e \<mapsto> new_thread e fn arg (curr_tid s) sz)\<rparr>"

lemma create_unfold:
  assumes "malloc_result e \<noteq> NULL" and "get_stack_size e = Some sz" and "sz \<noteq> 0"
    and "mmap_result e \<noteq> MAP_FAILED"
  shows "lwp_create tbl e fn arg s = do {
      s \<leftarrow> insert_live (malloc_result e) (created e fn arg sz s);
      let s = default_scheduler s;
      ops \<leftarrow> sched_of tbl (current_scheduler s);
      s \<leftarrow> so_admit ops (malloc_result e) s;
      c \<leftarrow> thr (malloc_result e) s;
      Some (tid c, s) }"
  using assms by (simp add: lwp_create_def assign_tid_def upd_eq Let_def created_def new_thread_def
      first_frame_def word_ptr_def LWP_EXIT_RETURN_OFFSET_def WRAPPER_RETURN_OFFSET_def
      SAVED_BP_OFFSET_def FAKE_SAVED_BP_def)

lemma create_fails:
  assumes "threads s (malloc_result e) = None" and "get_stack_size e = Some sz"
    and "sz = 0 \<or> mmap_result e = MAP_FAILED \<or> malloc_result e = NULL"
  shows "lwp_create tbl e fn arg s = Some (NO_THREAD,
    if malloc_result e = NULL then s else s\<lparr>curr_tid := curr_tid s + 1\<rparr>)"
  using assms by (auto simp: lwp_create_def assign_tid_def upd_eq Let_def fun_upd_idem)

lemma tidy_bump:
  assumes T: "tidy f n R W Z" and n: "n \<noteq> - 1"
  shows "tidy f (n + 1) R W Z"
proof -
  have "1 + n \<noteq> 0" using n by (metis add.commute add_eq_0_iff2)
  then have "n < n + 1" "n + 1 \<noteq> 0"
    using unatSuc [of n] by (simp_all add: word_less_nat_alt add.commute)
  then have lt: "t < n \<Longrightarrow> t < n + 1" and ne: "n + 1 \<noteq> NO_THREAD" for t
    by (auto intro: less_trans simp: NO_THREAD_def)
  show ?thesis
  proof (rule tidyI)
    fix p st t e
    assume "f p = Some (st, t, e)"
    from tidy_facts [OF T this] lt
    show "(LWPTERMINATED st \<longleftrightarrow> p \<in> Z) \<and> t \<noteq> NO_THREAD \<and> t < n + 1 \<and> (e \<noteq> NULL \<longrightarrow> p \<in> R \<and> e \<in> Z)" by blast
  qed (use tidy_sets [OF T] tidy_unique [OF T] ne in blast)+
qed

context scheduler_contract
begin

lemma create_ok:
  assumes inv: "lwp_inv pool s rs ls ws zs" and use: "uses tbl ops s"
    and p: "malloc_result e \<noteq> NULL" "threads s (malloc_result e) = None" and n: "curr_tid s \<noteq> - 1"
    and sz: "get_stack_size e = Some sz" "sz \<noteq> 0" "mmap_result e \<noteq> MAP_FAILED"
  shows "\<exists>s' rs'. lwp_create tbl e fn arg s = Some (curr_tid s, s') \<and>
    lwp_inv pool s' rs' (ls @ [malloc_result e]) ws zs \<and> set rs' = insert (malloc_result e) (set rs) \<and>
    length rs' = Suc (length rs) \<and>
    queue_step (default_scheduler (created e fn arg sz s)) s'"
proof -
  let ?p = "malloc_result e" and ?s = "created e fn arg sz s"
  have q: "queues pool s rs ls ws zs" and l: "set ls = set rs \<union> set ws"
    and T: "tidy (view s) (curr_tid s) (set rs) (set ws) (snd ` set zs)" using inv by (simp_all add: lwp_inv_def)
  have fresh: "?p \<notin> set rs \<union> set ls \<union> set ws" using inv_member(1) [OF inv, of ?p] p(2) l by auto
  let ?t = "s\<lparr>threads := (threads s)(?p \<mapsto> new_thread e fn arg (curr_tid s) sz)\<rparr>"
  have "queues pool ?t rs ls ws zs" by (rule queues_store [OF q]) (use fresh in auto)
  moreover have "relink ?t ?s" by (simp add: relink_def created_def)
  ultimately have q1: "queues pool ?s rs ls ws zs" by (rule queues_relink)
  have at: "threads ?s ?p = Some (new_thread e fn arg (curr_tid s) sz)" by (simp add: created_def)
  from queues_insert_live [OF q1 at p(1)] fresh obtain s2 where
    s2: "insert_live ?p ?s = Some s2" "queues pool s2 rs (ls @ [?p]) ws zs" "queue_step ?s s2" by blast
  let ?d = "default_scheduler s2"
  have q2: "queues pool ?d rs (ls @ [?p]) ws zs" by (rule queues_relink [OF s2(2)]) simp
  obtain c2 where "threads ?d ?p = Some c2" using queue_step_thread [OF s2(3) at] by auto
  from queues_admit [OF q2 this p(1)] fresh obtain s3 rs' where
    s3: "so_admit ops ?p ?d = Some s3" "queues pool s3 rs' (ls @ [?p]) ws zs" "queue_step ?d s3"
      "set rs' = insert ?p (set rs)" "length rs' = Suc (length rs)" by blast
  have step: "queue_step (default_scheduler ?s) ?d"
    using s2(3) by (simp add: queue_step_iff default_scheduler_def lwp_get_scheduler_def)
  then have whole: "queue_step (default_scheduler ?s) s3" using s3(3) by (rule queue_step_trans)
  then have v: "view s3 = (view s)(?p \<mapsto> (LWP_LIVE, curr_tid s, NULL))"
    using view_queue_step by (fastforce simp: created_def new_thread_def Let_def facts_def view_def)
  have n3: "curr_tid s3 = curr_tid s + 1" using whole by (simp add: queue_step_iff created_def)
  have "tidy (view s3) (curr_tid s3) (set rs') (set ws) (snd ` set zs)"
    unfolding v n3 s3(4) by (rule tidy_create [OF T _ p(1) n]) (use p(2) in \<open>simp add: view_def\<close>)
  then have inv': "lwp_inv pool s3 rs' (ls @ [?p]) ws zs" using s3 l inv by (simp add: lwp_inv_def)
  have "view s3 ?p = Some (LWP_LIVE, curr_tid s, NULL)" using v by simp
  then obtain c3 where c3: "threads s3 ?p = Some c3" "tid c3 = curr_tid s" by (auto simp: view_def facts_def)
  have "current_scheduler s2 = current_scheduler s" using s2(3) by (simp add: queue_step_iff created_def)
  then have "sched_of tbl (current_scheduler ?d) = Some ops"
    using use by (auto simp: uses_def default_scheduler_def lwp_get_scheduler_def split: if_splits)
  then have "lwp_create tbl e fn arg s = Some (curr_tid s, s3)"
    using create_unfold [of e sz tbl fn arg s, OF p(1) sz] s2(1) s3(1) c3 p(1) by (simp add: thr_eq Let_def)
  then show ?thesis using inv' s3(4,5) whole by blast
qed

end

section \<open>Exiting\<close>

text \<open>The facts after \<open>p\<close> has exited with \<open>code\<close>, and the oldest waiter, if any, has been told.\<close>

definition exit_view ::
  "u32 \<Rightarrow> addr \<Rightarrow> addr list \<Rightarrow> (addr \<Rightarrow> thread_facts option) \<Rightarrow> addr \<Rightarrow> thread_facts option" where
  "exit_view code p ws f =
    (let f = f(p := map_option (\<lambda>(st, t, e). (MKTERMSTAT LWP_TERM code, t, e)) (f p)) in
     case ws of [] \<Rightarrow> f | w # _ \<Rightarrow> f(w := map_option (\<lambda>(st, t, e). (st, t, p)) (f w)))"

context scheduler_contract
begin

lemma exit_ok:
  assumes inv: "lwp_inv pool s rs ls ws zs" and use: "uses tbl ops s"
    and p: "curr_thread s = p" "p \<in> set rs" "view s p = Some (st, t, NULL)"
    and z: "z \<noteq> NULL" "z \<notin> fst ` set zs"
  shows "\<exists>s' rs'. lwp_exit tbl mf z code s = lwp_yield tbl mf s' \<and>
    lwp_inv pool s' rs' (remove1 p ls) (tl ws) (zs @ [(z, p)]) \<and>
    set rs' = set rs - {p} \<union> set (take 1 ws) \<and> view s' = exit_view code p ws (view s) \<and>
    curr_thread s' = p \<and> uses tbl ops s'"
proof -
  have q: "queues pool s rs ls ws zs" and l: "set ls = set rs \<union> set ws" and dz: "distinct (map snd zs)"
    and T: "tidy (view s) (curr_tid s) (set rs) (set ws) (snd ` set zs)" using inv by (simp_all add: lwp_inv_def)
  note S = tidy_sets [OF T]
  have dl: "distinct ls" "distinct ws" "waiting_head s = first_of ws"
    using q by (simp_all add: queues_def live.rep_def waiting.rep_def)
  have pn: "p \<noteq> NULL" "p \<notin> snd ` set zs" "p \<notin> set ws" using S p(2) by auto
  obtain c where c: "threads s p = Some c" "facts c = (st, t, NULL)" using p(3) by (auto simp: view_def)
  let ?c = "c\<lparr>status := MKTERMSTAT LWP_TERM code\<rparr>"
  let ?s1 = "s\<lparr>threads := (threads s)(p \<mapsto> ?c)\<rparr>"
  have q1: "queues pool ?s1 rs ls ws zs"
    by (rule queues_relink [OF q relink_store [OF c(1)]]) (simp add: links_def)
  from queues_insert_zombie [OF q1 pn(1) z] obtain s2 where
    s2: "insert_zombie p z ?s1 = Some (Continue, s2)" "queues pool s2 rs ls ws (zs @ [(z, p)])"
      "queue_step ?s1 s2" by blast
  let ?d = "default_scheduler s2"
  have "queues pool ?d rs ls ws (zs @ [(z, p)])" by (rule queues_relink [OF s2(2)]) simp
  from queues_remove [OF this p(2)] obtain s3 rs3 where
    s3: "so_remove ops p ?d = Some s3" "queues pool s3 rs3 ls ws (zs @ [(z, p)])" "queue_step ?d s3"
      "set rs3 = set rs - {p}" by blast
  from queues_remove_live [OF s3(2), of p] obtain s4 where
    s4: "remove_live p s3 = Some s4" "queues pool s4 rs3 (remove1 p ls) ws (zs @ [(z, p)])" "queue_step s3 s4"
    by blast
  have sched: "current_scheduler s2 = current_scheduler s" and cur2: "curr_thread s2 = p"
    using s2(3) p(1) by (simp_all add: queue_step_iff)
  have ops: "sched_of tbl (current_scheduler ?d) = Some ops"
    using use sched by (auto simp: uses_def default_scheduler_def lwp_get_scheduler_def split: if_splits)
  then have use2: "uses tbl ops s2" by (simp add: uses_def)
  have step: "queue_step ?d s4" using s3(3) s4(3) by (rule queue_step_trans)
  have v4: "view s4 = (view s)(p \<mapsto> (MKTERMSTAT LWP_TERM code, t, NULL))"
    using view_queue_step [OF step] view_queue_step [OF s2(3)] c(2) by (simp add: facts_def)
  have f4: "curr_thread s4 = p" "curr_tid s4 = curr_tid s" "current_scheduler s4 = current_scheduler ?d"
    using step cur2 s2(3) by (simp_all add: queue_step_iff)
  have "view s4 p \<noteq> None" using v4 by simp
  then obtain c4 where c4: "threads s4 p = Some c4" by (auto simp: view_def)
  have head: "lwp_exit tbl mf z code s = do {
      s \<leftarrow> (if waiting_head s4 \<noteq> NULL then do {
            s \<leftarrow> upd (waiting_head s4) (\<lambda>c. c\<lparr>exited := curr_thread s4\<rparr>) s4;
            s \<leftarrow> so_admit ops (waiting_head s4) s;
            remove_waiting (waiting_head s4) s } else Some s4);
      _ \<leftarrow> thr (curr_thread s) s;
      lwp_yield tbl mf s }"
    using p(1) pn(1) c(1) s2(1) s3(1) s4(1) ops cur2 f4(1) s3(3)
    by (simp add: lwp_exit_def upd_eq Let_def queue_step_iff cong: if_cong)
  have h4: "waiting_head s4 = first_of ws" using s4(2) by (simp add: queues_def waiting.rep_def)
  have l': "set (remove1 p ls) = set rs - {p} \<union> set ws" using l dl(1) pn(3) by (auto simp: set_remove1_eq)
  show ?thesis
  proof (cases ws)
    case Nil
    have Te: "tidy (view s) (curr_tid s) (set rs) {} (snd ` set zs)" using T Nil by simp
    have "tidy (view s4) (curr_tid s4) (set rs3) (set []) (snd ` set (zs @ [(z, p)]))"
      using tidy_exit [OF Te p(2,3)] v4 f4(2) s3(4) by simp
    then have "lwp_inv pool s4 rs3 (remove1 p ls) [] (zs @ [(z, p)])"
      using s4(2) s3(4) Nil l' dz pn(2) by (auto simp: lwp_inv_def)
    moreover have "lwp_exit tbl mf z code s = lwp_yield tbl mf s4"
      using head h4 Nil f4(1) c4 pn(1) by (simp add: thr_eq)
    ultimately show ?thesis
      using Nil v4 f4 s3(4) p(3) use2 uses_iff [of s4 s2 tbl ops] by (auto simp: exit_view_def)
  next
    case (Cons w ws')
    have w: "w \<in> set ws" "w \<noteq> NULL" "w \<notin> set rs" "w \<noteq> p" using Cons S pn by auto
    obtain st' t' e' where w': "view s w = Some (st', t', e')"
      using w(1) S(6) by (metis UnCI domD prod_cases3)
    then have vw: "view s4 w = Some (st', t', e')" using v4 w(4) by simp
    obtain cw where cw: "threads s4 w = Some cw" "facts cw = (st', t', e')" using vw by (auto simp: view_def)
    let ?s5 = "s4\<lparr>threads := (threads s4)(w \<mapsto> cw\<lparr>exited := p\<rparr>)\<rparr>"
    have q5: "queues pool ?s5 rs3 (remove1 p ls) ws (zs @ [(z, p)])"
      by (rule queues_relink [OF s4(2) relink_store [OF cw(1)]]) (simp add: links_def)
    have at5: "threads ?s5 w = Some (cw\<lparr>exited := p\<rparr>)" by simp
    from queues_admit [OF q5 at5 w(2)] w(3) s3(4) obtain s6 rs6 where
      s6: "so_admit ops w ?s5 = Some s6" "queues pool s6 rs6 (remove1 p ls) ws (zs @ [(z, p)])"
        "queue_step ?s5 s6" "set rs6 = insert w (set rs3)" by auto
    from queues_remove_waiting [OF s6(2), of w] Cons obtain s7 where
      s7: "remove_waiting w s6 = Some s7" "queues pool s7 rs6 (remove1 p ls) ws' (zs @ [(z, p)])"
        "queue_step s6 s7" by auto
    have step7: "queue_step ?s5 s7" using s6(3) s7(3) by (rule queue_step_trans)
    have v7: "view s7 = (view s)(p \<mapsto> (MKTERMSTAT LWP_TERM code, t, NULL), w \<mapsto> (st', t', p))"
      using view_queue_step [OF step7] cw(2) v4 by (simp add: facts_def)
    have f7: "curr_thread s7 = p" "curr_tid s7 = curr_tid s" "current_scheduler s7 = current_scheduler ?d"
      using step7 f4 by (simp_all add: queue_step_iff)
    have "set ws' = set ws - {w}" using Cons dl(2) by auto
    then have "tidy (view s7) (curr_tid s7) (set rs6) (set ws') (snd ` set (zs @ [(z, p)]))"
      using tidy_exit_wake [OF T p(2,3) w(1) w'] v7 f7(2) s6(4) s3(4) by simp
    then have "lwp_inv pool s7 rs6 (remove1 p ls) ws' (zs @ [(z, p)])"
      using s7(2) s6(4) s3(4) Cons l' dz pn(2) by (auto simp: lwp_inv_def)
    moreover obtain c7 where "threads s7 p = Some c7"
      using v7 w(4) by (metis fun_upd_other fun_upd_same view_some)
    then have "lwp_exit tbl mf z code s = lwp_yield tbl mf s7"
      using head h4 Cons w f4(1) cw s6(1) s7(1) f7(1) pn(1) by (simp add: thr_eq upd_eq)
    ultimately show ?thesis
      using Cons v7 f7 s6(4) s3(4) p(3) w' w(4) use2 uses_iff [of s7 s2 tbl ops]
      by (auto simp: exit_view_def)
  qed
qed

end

section \<open>Waiting\<close>

context scheduler_contract
begin

lemma wait_reaps:
  assumes inv: "lwp_inv pool s rs ls ws ((z, d) # zs)" and use: "uses tbl ops s"
    and p: "p = curr_thread s" "p \<in> set rs" "view s p = Some (st, t, NULL)" and c: "threads s d = Some c"
    and unmap: "stack c \<noteq> NULL \<Longrightarrow> \<not> mf (stack c) (stacksize c)"
    and free: "\<And>q st u e. view s q = Some (st, u, e) \<Longrightarrow> e \<noteq> d"
  shows "\<exists>s'. lwp_wait tbl mf want s =
      Some (Wait_returns (tid c) (if want then Some (LWPTERMSTAT (status c)) else None), s') \<and>
    lwp_inv pool s' rs ls ws zs \<and> threads s' = (threads s)(d := None) \<and> curr_thread s' = p \<and> uses tbl ops s'"
proof -
  let ?d = "default_scheduler s"
  have i: "lwp_inv pool ?d rs ls ws ([] @ (z, d) # zs)" using inv_default [OF inv] by simp
  from reap_ok [OF i, of c mf want] c unmap free obtain s' where
    s': "reap_and_remove mf d want ?d =
        Some (Continue, tid c, if want then Some (LWPTERMSTAT (status c)) else None, s')"
      "lwp_inv pool s' rs ls ws zs" "threads s' = (threads s)(d := None)" "curr_thread s' = p"
      "current_scheduler s' = current_scheduler ?d" using p(1) by fastforce
  have zq: "zrep s ((z, d) # zs)" using inv by (simp add: lwp_inv_def queues_def)
  have pn: "p \<noteq> NULL" using inv_member(2) [OF inv, of p] p(2) by simp
  obtain cp where "threads s p = Some cp" "exited cp = NULL" using p(3) by (auto simp: view_def facts_def)
  then have "lwp_wait tbl mf want s = wait_reap mf d want ?d"
    using use zq pn p(1) by (auto simp: lwp_wait_def uses_def thr_eq zom_eq zrep_def)
  then show ?thesis using s' use uses_iff [of s' s tbl ops] by (auto simp: wait_reap_def)
qed

lemma wait_reap_fails:
  assumes inv: "lwp_inv pool s rs ls ws ((z, d) # zs)" and use: "uses tbl ops s"
    and p: "p = curr_thread s" "p \<in> set rs" "view s p = Some (st, t, NULL)" and c: "threads s d = Some c"
    and fails: "stack c \<noteq> NULL" "mf (stack c) (stacksize c)"
  shows "\<exists>s'. lwp_wait tbl mf want s = Some (Wait_exits EXIT_FAILURE, s')"
proof -
  let ?d = "default_scheduler s"
  have "\<exists>s'. reap_and_remove mf d want ?d = Some (Exit EXIT_FAILURE, NO_THREAD, None, s')"
    by (rule reap_fails [OF inv_default [OF inv]]) (use c fails in simp_all)
  moreover have zq: "zrep s ((z, d) # zs)" using inv by (simp add: lwp_inv_def queues_def)
  have pn: "p \<noteq> NULL" using inv_member(2) [OF inv, of p] p(2) by simp
  obtain cp where "threads s p = Some cp" "exited cp = NULL" using p(3) by (auto simp: view_def facts_def)
  then have "lwp_wait tbl mf want s = wait_reap mf d want ?d"
    using use zq pn p(1) by (auto simp: lwp_wait_def uses_def thr_eq zom_eq zrep_def)
  ultimately show ?thesis by (auto simp: wait_reap_def)
qed

lemma wait_pointless:
  assumes inv: "lwp_inv pool s rs ls ws []" and use: "uses tbl ops s"
    and p: "p = curr_thread s" "p \<in> set rs" "view s p = Some (st, t, NULL)" and one: "length rs \<le> 1"
  shows "lwp_wait tbl mf want s = Some (Wait_returns NO_THREAD None, default_scheduler s)"
proof -
  have "queues pool (default_scheduler s) rs ls ws []" "zrep s []"
    using inv_default [OF inv] inv by (simp_all add: lwp_inv_def queues_def)
  then have "so_qlen ops (default_scheduler s) = Some (int (length rs))" "zombies_head s = NULL"
    using qlen_ok by (simp_all add: queues_def zrep_def)
  moreover have "p \<noteq> NULL" using inv_member(2) [OF inv, of p] p(2) by simp
  moreover obtain cp where "threads s p = Some cp" "exited cp = NULL" using p(3) by (auto simp: view_def facts_def)
  ultimately show ?thesis using use p(1) one by (simp add: lwp_wait_def uses_def thr_eq)
qed

lemma wait_blocks:
  assumes inv: "lwp_inv pool s rs ls ws []" and use: "uses tbl ops s"
    and p: "p = curr_thread s" "p \<in> set rs" "view s p = Some (st, t, NULL)" and many: "1 < length rs"
  shows "\<exists>pc s' rs'. lwp_wait tbl mf want s = Some (Wait_blocked pc, s') \<and>
    lwp_inv pool s' rs' ls (ws @ [p]) [] \<and> set rs' = set rs - {p} \<and> view s' = view s \<and>
    curr_thread s' \<in> set rs' \<and> uses tbl ops s'"
proof -
  let ?d = "default_scheduler s"
  have q: "queues pool ?d rs ls ws []" "zrep s []" and l: "set ls = set rs \<union> set ws"
    and T: "tidy (view s) (curr_tid s) (set rs) (set ws) (snd ` set [])"
    using inv_default [OF inv] inv by (simp_all add: lwp_inv_def queues_def)
  have d: "so_qlen ops ?d = Some (int (length rs))" "zombies_head s = NULL" "distinct rs"
    using q qlen_ok pool_distinct by (auto simp: queues_def zrep_def)
  have ne: "set rs \<noteq> {p}"
  proof
    assume "set rs = {p}"
    with d(3) have "card {p} = length rs" by (metis distinct_card)
    with many show False by simp
  qed
  from queues_remove [OF q(1) p(2)] obtain s1 rs1 where
    s1: "so_remove ops p ?d = Some s1" "queues pool s1 rs1 ls ws []" "queue_step ?d s1" "set rs1 = set rs - {p}"
    by blast
  obtain cp where cp: "threads s p = Some cp" "exited cp = NULL" using p(3) by (auto simp: view_def facts_def)
  obtain c1 where "threads s1 p = Some c1" using queue_step_thread [OF s1(3)] cp(1) by auto
  moreover have pn: "p \<noteq> NULL" "p \<notin> set ws" using tidy_sets [OF T] p(2) by auto
  ultimately obtain s2 where
    s2: "insert_waiting p s1 = Some s2" "queues pool s2 rs1 ls (ws @ [p]) []" "queue_step s1 s2"
    using queues_insert_waiting [OF s1(2)] by blast
  have step: "queue_step ?d s2" using s1(3) s2(3) by (rule queue_step_trans)
  have f: "curr_thread s1 = p" "curr_thread s2 = p" "curr_tid s2 = curr_tid s"
    "current_scheduler s2 = current_scheduler ?d" "view s2 = view s"
    using step s1(3) p(1) view_queue_step [OF step] by (simp_all add: queue_step_iff)
  have "tidy (view s2) (curr_tid s2) (set rs1) (set (ws @ [p])) (snd ` set [])"
    using tidy_block [OF T p(2,3) ne] f s1(4) by simp
  then have i2: "lwp_inv pool s2 rs1 ls (ws @ [p]) []"
    using s2(2) s1(4) l p(2) by (auto simp: lwp_inv_def)
  have use2: "uses tbl ops s2" using use f(4) uses_iff [of s2 s tbl ops] by simp
  have "set rs - {p} \<noteq> {}" using ne p(2) by blast
  then have "rs1 \<noteq> []" using s1(4) by (cases rs1) simp_all
  moreover have "threads s2 (curr_thread s2) \<noteq> None" using f(2,5) p(3) by (metis option.distinct(1) view_none)
  ultimately obtain k s' rs' where
    y: "lwp_yield tbl mf s2 = Some (k, s')" "lwp_inv pool s' rs' ls (ws @ [p]) []" "set rs' = set rs1"
      "uses tbl ops s'" "view s' = view s2" "curr_thread s' \<in> set rs1"
      "k = Continue \<and> curr_thread s' = curr_thread s2 \<or> (\<exists>pc. k = Switch pc) \<and> curr_thread s' \<noteq> curr_thread s2"
    using yield_ok [OF i2 use2, of mf] by blast
  then obtain pc where "k = Switch pc" using f(2) s1(4) by auto
  then have "lwp_wait tbl mf want s = Some (Wait_blocked pc, s')"
    using use p(1) many d(1,2) cp pn(1) s1(1) s2(1) f(1) y(1) by (simp add: lwp_wait_def uses_def thr_eq)
  then show ?thesis using y(2-6) s1(4) f(5) by auto
qed

text \<open>A waiter that has been woken reaps the thread it was told of.\<close>

lemma resume_ok:
  assumes inv: "lwp_inv pool s rs ls ws (ys @ (z, d) # zs)" and use: "uses tbl ops s"
    and p: "p = curr_thread s" "view s p = Some (st, t, d)" "d \<noteq> NULL" and c: "threads s d = Some c"
    and unmap: "stack c \<noteq> NULL \<Longrightarrow> \<not> mf (stack c) (stacksize c)"
  shows "\<exists>s'. lwp_wait_resumed mf want s =
      Some (Wait_returns (tid c) (if want then Some (LWPTERMSTAT (status c)) else None), s') \<and>
    lwp_inv pool s' rs ls ws (ys @ zs) \<and> view s' = (view s)(p \<mapsto> (st, t, NULL), d := None) \<and>
    curr_thread s' = p \<and> uses tbl ops s'"
proof -
  have T: "tidy (view s) (curr_tid s) (set rs) (set ws) (snd ` set (ys @ (z, d) # zs))"
    and q: "queues pool s rs ls ws (ys @ (z, d) # zs)" using inv by (simp_all add: lwp_inv_def)
  have pr: "p \<in> set rs" using tidy_facts(4) [OF T p(2,3)] by blast
  have pn: "p \<noteq> NULL" "p \<noteq> d" "d \<noteq> p" using tidy_sets [OF T] pr by auto
  obtain cp where cp: "threads s p = Some cp" "facts cp = (st, t, d)" using p(2) by (auto simp: view_def)
  let ?s = "s\<lparr>threads := (threads s)(p \<mapsto> cp\<lparr>exited := NULL\<rparr>)\<rparr>"
  have v: "view ?s = (view s)(p \<mapsto> (st, t, NULL))" using cp(2) by (simp add: facts_def)
  have "queues pool ?s rs ls ws (ys @ (z, d) # zs)"
    by (rule queues_relink [OF q relink_store [OF cp(1)]]) (simp add: links_def)
  then have i: "lwp_inv pool ?s rs ls ws (ys @ (z, d) # zs)"
    using inv tidy_claim(1) [OF T p(2)] v by (simp add: lwp_inv_def)
  have "threads ?s d = Some c" using c pn by simp
  moreover have "e \<noteq> d" if "view ?s q = Some (st', u, e)" for q st' u e
    using tidy_claim(2) [OF T p(2,3), of q st' u e] that unfolding v by blast
  ultimately obtain s' where
    s': "reap_and_remove mf d want ?s =
        Some (Continue, tid c, if want then Some (LWPTERMSTAT (status c)) else None, s')"
      "lwp_inv pool s' rs ls ws (ys @ zs)" "threads s' = (threads ?s)(d := None)"
      "curr_thread s' = curr_thread ?s" "current_scheduler s' = current_scheduler ?s"
    using reap_ok [of ?s rs ls ws ys z d zs c mf want, OF i _ unmap] by blast
  have "lwp_wait_resumed mf want s = wait_reap mf d want ?s"
    using p(1,3) pn cp by (simp add: lwp_wait_resumed_def thr_eq upd_eq facts_def)
  then show ?thesis using s' view_remove [OF s'(3)] v p(1) use by (auto simp: wait_reap_def uses_def default_scheduler_def lwp_get_scheduler_def)
qed

lemma resume_fails:
  assumes inv: "lwp_inv pool s rs ls ws (ys @ (z, d) # zs)"
    and p: "p = curr_thread s" "view s p = Some (st, t, d)" "d \<noteq> NULL" and c: "threads s d = Some c"
    and fails: "stack c \<noteq> NULL" "mf (stack c) (stacksize c)"
  shows "\<exists>s'. lwp_wait_resumed mf want s = Some (Wait_exits EXIT_FAILURE, s')"
proof -
  have T: "tidy (view s) (curr_tid s) (set rs) (set ws) (snd ` set (ys @ (z, d) # zs))"
    and q: "queues pool s rs ls ws (ys @ (z, d) # zs)" using inv by (simp_all add: lwp_inv_def)
  have pn: "p \<noteq> NULL" "d \<noteq> p" using tidy_sets [OF T] tidy_facts(4) [OF T p(2,3)] by auto
  obtain cp where cp: "threads s p = Some cp" "facts cp = (st, t, d)" using p(2) by (auto simp: view_def)
  let ?s = "s\<lparr>threads := (threads s)(p \<mapsto> cp\<lparr>exited := NULL\<rparr>)\<rparr>"
  have v: "view ?s = (view s)(p \<mapsto> (st, t, NULL))" using cp(2) by (simp add: facts_def)
  have "queues pool ?s rs ls ws (ys @ (z, d) # zs)"
    by (rule queues_relink [OF q relink_store [OF cp(1)]]) (simp add: links_def)
  then have "lwp_inv pool ?s rs ls ws (ys @ (z, d) # zs)"
    using inv tidy_claim(1) [OF T p(2)] v by (simp add: lwp_inv_def)
  then have "\<exists>s'. reap_and_remove mf d want ?s = Some (Exit EXIT_FAILURE, NO_THREAD, None, s')"
    by (rule reap_fails) (use c pn fails in auto)
  moreover have "lwp_wait_resumed mf want s = wait_reap mf d want ?s"
    using p(1,3) pn cp by (simp add: lwp_wait_resumed_def thr_eq upd_eq facts_def)
  ultimately show ?thesis by (auto simp: wait_reap_def)
qed

end

section \<open>Starting\<close>

text \<open>The structure \<open>lwp_start\<close> makes for the calling thread, which already has a stack.\<close>

definition started :: "lwp_env \<Rightarrow> 'x lwp_state \<Rightarrow> 'x lwp_state" where
  "started e s = s\<lparr>curr_tid := curr_tid s + 1, threads := (threads s)(malloc_result e \<mapsto>
     (malloc_garbage e)\<lparr>tid := curr_tid s, stack := NULL, stacksize := 0, status := LWP_LIVE,
       live_next := NULL, wait_next := NULL, sched_prev := NULL, sched_next := NULL, exited := NULL\<rparr>)\<rparr>"

context scheduler_contract
begin

lemma start_ok:
  assumes inv: "lwp_inv pool s rs ls ws zs" and use: "uses tbl ops s"
    and p: "malloc_result e \<noteq> NULL" "threads s (malloc_result e) = None" and n: "curr_tid s \<noteq> - 1"
  shows "\<exists>s' rs'. lwp_start tbl mf e s = lwp_yield tbl mf s' \<and>
    lwp_inv pool s' rs' (ls @ [malloc_result e]) ws zs \<and> set rs' = insert (malloc_result e) (set rs) \<and>
    view s' = (view s)(malloc_result e \<mapsto> (LWP_LIVE, curr_tid s, NULL)) \<and>
    curr_thread s' = malloc_result e \<and> uses tbl ops s'"
proof -
  let ?p = "malloc_result e" and ?s = "started e s"
  have q: "queues pool s rs ls ws zs" and l: "set ls = set rs \<union> set ws"
    and T: "tidy (view s) (curr_tid s) (set rs) (set ws) (snd ` set zs)" using inv by (simp_all add: lwp_inv_def)
  have fresh: "?p \<notin> set rs \<union> set ls \<union> set ws" using inv_member(1) [OF inv, of ?p] p(2) l by auto
  let ?t = "s\<lparr>threads := threads ?s\<rparr>"
  have "queues pool ?t rs ls ws zs" by (rule queues_store [OF q]) (use fresh in \<open>auto simp: started_def\<close>)
  moreover have "relink ?t ?s" by (simp add: relink_def started_def)
  ultimately have q1: "queues pool ?s rs ls ws zs" by (rule queues_relink)
  obtain c1 where at: "threads ?s ?p = Some c1" by (simp add: started_def)
  from queues_insert_live [OF q1 at p(1)] fresh obtain s2 where
    s2: "insert_live ?p ?s = Some s2" "queues pool s2 rs (ls @ [?p]) ws zs" "queue_step ?s s2" by blast
  let ?d = "default_scheduler s2"
  have q2: "queues pool ?d rs (ls @ [?p]) ws zs" by (rule queues_relink [OF s2(2)]) simp
  obtain c2 where "threads ?d ?p = Some c2" using queue_step_thread [OF s2(3) at] by auto
  from queues_admit [OF q2 this p(1)] fresh obtain s3 rs' where
    s3: "so_admit ops ?p ?d = Some s3" "queues pool s3 rs' (ls @ [?p]) ws zs" "queue_step ?d s3"
      "set rs' = insert ?p (set rs)" by blast
  have v: "view s3 = (view s)(?p \<mapsto> (LWP_LIVE, curr_tid s, NULL))"
    using view_queue_step [OF s3(3)] view_queue_step [OF s2(3)]
    by (simp add: started_def facts_def view_def fun_eq_iff)
  have f: "curr_tid s3 = curr_tid s + 1" "current_scheduler s3 = current_scheduler ?d"
    "current_scheduler s2 = current_scheduler s"
    using s3(3) s2(3) by (simp_all add: queue_step_iff started_def)
  have "tidy (view s3) (curr_tid s3) (set rs') (set ws) (snd ` set zs)"
    unfolding v f(1) s3(4) by (rule tidy_create [OF T _ p(1) n]) (use p(2) in \<open>simp add: view_def\<close>)
  then have i3: "lwp_inv pool s3 rs' (ls @ [?p]) ws zs" using s3 l inv by (simp add: lwp_inv_def)
  let ?s' = "s3\<lparr>curr_thread := ?p\<rparr>"
  have i': "lwp_inv pool ?s' rs' (ls @ [?p]) ws zs" by (rule inv_relink [OF i3]) simp_all
  have use2: "uses tbl ops s2"
    using use f(3) by (auto simp: uses_def default_scheduler_def lwp_get_scheduler_def split: if_splits)
  then have "sched_of tbl (current_scheduler ?d) = Some ops" by (simp add: uses_def)
  then have "lwp_start tbl mf e s = lwp_yield tbl mf ?s'"
    using p(1) s2(1) s3(1) by (simp add: lwp_start_def assign_tid_def upd_eq Let_def started_def)
  moreover have "uses tbl ops ?s'" using use2 f(2) uses_iff [of ?s' s2 tbl ops] by simp
  ultimately show ?thesis using i' s3(4) v by (intro exI [of _ ?s'] exI [of _ rs']) simp
qed

end

end
