(* ===== verification/Lwp_Session.thy ===== *)
theory Lwp_Session
  imports Lwp_Calls
begin

text \<open>
  Programs that call the library: one call at a time, on behalf of the running thread, in any order.
  Every state they reach keeps the invariant and every call returns, provided no \<open>lwp_wait\<close> takes a
  zombie that has been promised to another waiter.
\<close>

section \<open>Calls\<close>

text \<open>
  \<open>Resume\<close> is the rest of an \<open>lwp_wait\<close> whose thread has been switched to again. The calls that
  allocate name what malloc and the kernel answer.
\<close>

datatype lwp_call =
  Create lwp_env "64 word" "64 word"
| Start lwp_env
| Yield
| Terminate addr u32
| Wait bool
| Resume bool

datatype 'x outcome = Running "'x lwp_state" "addr set" | Exited int

text \<open>The set holds the threads that are inside \<open>lwp_wait\<close>, blocked or woken but not resumed.\<close>

definition after :: "control \<Rightarrow> 'x lwp_state \<Rightarrow> addr set \<Rightarrow> 'x outcome" where
  "after k s S = (case k of Exit n \<Rightarrow> Exited n | _ \<Rightarrow> Running s S)"

fun lwp_perform ::
  "(nat \<Rightarrow> 'x lwp_state sched_ops) \<Rightarrow> (addr \<Rightarrow> size_t \<Rightarrow> bool) \<Rightarrow> lwp_call \<Rightarrow> 'x lwp_state \<Rightarrow> addr set \<Rightarrow>
    'x outcome option" where
  "lwp_perform tbl mf (Create e fn arg) s S = do { (t, s) \<leftarrow> lwp_create tbl e fn arg s; Some (Running s S) }"
| "lwp_perform tbl mf (Start e) s S = do { (k, s) \<leftarrow> lwp_start tbl mf e s; Some (after k s S) }"
| "lwp_perform tbl mf Yield s S = do { (k, s) \<leftarrow> lwp_yield tbl mf s; Some (after k s S) }"
| "lwp_perform tbl mf (Terminate z code) s S = do { (k, s) \<leftarrow> lwp_exit tbl mf z code s; Some (after k s S) }"
| "lwp_perform tbl mf (Wait want) s S = do {
     (r, s') \<leftarrow> lwp_wait tbl mf want s;
     Some (case r of Wait_returns t st \<Rightarrow> Running s' S
           | Wait_blocked pc \<Rightarrow> Running s' (insert (curr_thread s) S)
           | Wait_exits n \<Rightarrow> Exited n) }"
| "lwp_perform tbl mf (Resume want) s S = do {
     (r, s') \<leftarrow> lwp_wait_resumed mf want s;
     Some (case r of Wait_exits n \<Rightarrow> Exited n | _ \<Rightarrow> Running s' (S - {curr_thread s})) }"

text \<open>What the oldest zombie's claim is: no woken waiter was told to reap it.\<close>

definition unclaimed :: "'x lwp_state \<Rightarrow> addr \<Rightarrow> bool" where
  "unclaimed s d \<longleftrightarrow> (\<forall>p c. threads s p = Some c \<longrightarrow> exited c \<noteq> d)"

text \<open>
  The condition under which \<open>lwp_wait\<close> may be called, which the code does not check (lwp.c, line 449): the zombie it
  would reap has not been promised to a woken waiter. The last property of \<open>Lwp_Props\<close> shows what
  happens otherwise.
\<close>

definition oldest_zombie_free :: "'x lwp_state \<Rightarrow> bool" where
  "oldest_zombie_free s \<longleftrightarrow> (\<forall>z. zombies s (zombies_head s) = Some z \<longrightarrow> unclaimed s (zombie_thread z))"

text \<open>
  malloc returns NULL or memory that is not in use; the page size is not zero; thread ids do not run
  out. A thread inside \<open>lwp_wait\<close> can only go on with it. Sessions make only calls that are allowed: no property
  of sessions speaks of programs in which a thread calls \<open>lwp_wait\<close> while the oldest zombie is promised.
\<close>

definition env_ok :: "lwp_env \<Rightarrow> 'x lwp_state \<Rightarrow> bool" where
  "env_ok e s \<longleftrightarrow> threads s (malloc_result e) = None \<and> sysconf_page_size e \<noteq> 0 \<and> curr_tid s \<noteq> - 1"

fun lwp_allowed :: "lwp_call \<Rightarrow> 'x lwp_state \<Rightarrow> addr set \<Rightarrow> bool" where
  "lwp_allowed (Create e fn arg) s S \<longleftrightarrow> curr_thread s \<notin> S \<and> env_ok e s"
| "lwp_allowed (Start e) s S \<longleftrightarrow> curr_thread s = NULL \<and> env_ok e s"
| "lwp_allowed Yield s S \<longleftrightarrow> curr_thread s \<notin> S"
| "lwp_allowed (Terminate z code) s S \<longleftrightarrow> curr_thread s \<notin> S \<and> zombies s z = None"
| "lwp_allowed (Wait want) s S \<longleftrightarrow> curr_thread s \<notin> S \<and>
     oldest_zombie_free s"
| "lwp_allowed (Resume want) s S \<longleftrightarrow> curr_thread s \<in> S"

inductive lwp_session ::
  "(nat \<Rightarrow> 'x lwp_state sched_ops) \<Rightarrow> (addr \<Rightarrow> size_t \<Rightarrow> bool) \<Rightarrow> 'x lwp_state \<Rightarrow> 'x lwp_state \<Rightarrow> addr set \<Rightarrow> bool"
  for tbl mf s0 where
  init: "lwp_session tbl mf s0 s0 {}"
| call: "lwp_session tbl mf s0 s S \<Longrightarrow> lwp_allowed c s S \<Longrightarrow>
    lwp_perform tbl mf c s S = Some (Running s' S') \<Longrightarrow> lwp_session tbl mf s0 s' S'"

section \<open>The invariant of a session\<close>

text \<open>The threads inside \<open>lwp_wait\<close>: those that wait and those that were told whom to reap.\<close>

definition inside :: "(addr \<Rightarrow> thread_facts option) \<Rightarrow> addr list \<Rightarrow> addr set" where
  "inside f ws = set ws \<union> {p. \<exists>st t e. f p = Some (st, t, e) \<and> e \<noteq> NULL}"

definition session_inv ::
  "(nat \<Rightarrow> 'x lwp_state sched_ops) \<Rightarrow> 'x lwp_state sched_ops \<Rightarrow> ('x lwp_state \<Rightarrow> addr list \<Rightarrow> bool) \<Rightarrow>
    'x lwp_state \<Rightarrow> addr set \<Rightarrow> bool" where
  "session_inv tbl ops pool s S \<longleftrightarrow> (\<exists>rs ls ws zs. lwp_inv pool s rs ls ws zs \<and> uses tbl ops s \<and>
     (curr_thread s = NULL \<or> curr_thread s \<in> set rs) \<and>
     S = inside (view s) ws)"

lemma session_invI:
  assumes "lwp_inv pool s rs ls ws zs" and "uses tbl ops s" and "curr_thread s = NULL \<or> curr_thread s \<in> set rs"
    and "S = inside (view s) ws"
  shows "session_inv tbl ops pool s S"
  using assms unfolding session_inv_def by blast

context scheduler_contract
begin

text \<open>What each kind of call needs of the invariant: the running thread, if any, and its facts.\<close>

lemma session_running:
  assumes "session_inv tbl ops pool s S" and "curr_thread s \<notin> S" and "curr_thread s \<noteq> NULL"
  obtains rs ls ws zs st t where "lwp_inv pool s rs ls ws zs" and "uses tbl ops s" and "curr_thread s \<in> set rs"
    and "view s (curr_thread s) = Some (st, t, NULL)"
    and "S = inside (view s) ws"
proof -
  from assms obtain rs ls ws zs where
    *: "lwp_inv pool s rs ls ws zs" "uses tbl ops s" "curr_thread s \<in> set rs"
      "S = inside (view s) ws"
    unfolding session_inv_def by blast
  from inv_member(1) [OF *(1), of "curr_thread s"] *(3) obtain c where c: "threads s (curr_thread s) = Some c"
    by auto
  obtain st t e where "facts c = (st, t, e)" by (cases "facts c")
  with c have v: "view s (curr_thread s) = Some (st, t, e)" by (simp add: view_def)
  then have "e = NULL" using assms(2) *(4) by (auto simp: inside_def)
  with v show thesis by (intro that [OF *(1-3) _ *(4)]) simp
qed

lemma yield_keeps:
  assumes inv: "lwp_inv pool s rs ls ws zs" and use: "uses tbl ops s" and run: "rs \<noteq> []"
    and cur: "curr_thread s = NULL \<or> threads s (curr_thread s) \<noteq> None"
    and S: "S = inside (view s) ws"
  shows "\<exists>k s'. lwp_yield tbl mf s = Some (k, s') \<and> session_inv tbl ops pool s' S \<and> (\<forall>n. k \<noteq> Exit n)"
proof -
  obtain k s' rs' where
    y: "lwp_yield tbl mf s = Some (k, s')" "lwp_inv pool s' rs' ls ws zs" "set rs' = set rs" "uses tbl ops s'"
      "view s' = view s" "curr_thread s' \<in> set rs" "\<forall>n. k \<noteq> Exit n"
    using yield_ok [OF inv use run cur, of mf] by blast
  have "session_inv tbl ops pool s' S"
    by (rule session_invI [OF y(2,4)]) (use y S in simp_all)
  with y show ?thesis by blast
qed

lemma perform_yield:
  assumes "session_inv tbl ops pool s S" and "lwp_allowed Yield s S"
  shows "\<exists>s'. lwp_perform tbl mf Yield s S = Some (Running s' S) \<and> session_inv tbl ops pool s' S"
proof -
  obtain rs ls ws zs where
    *: "lwp_inv pool s rs ls ws zs" "uses tbl ops s" "curr_thread s = NULL \<or> curr_thread s \<in> set rs"
      "S = inside (view s) ws"
    using assms(1) unfolding session_inv_def by blast
  show ?thesis
  proof (cases "rs = []")
    case True
    with * have "curr_thread s = NULL" by auto
    from yield_idle [OF _ *(2) this, of ls ws zs mf] *(1) True obtain s' rs' where
      y: "lwp_yield tbl mf s = Some (Continue, s')" "lwp_inv pool s' rs' ls ws zs" "uses tbl ops s'"
        "view s' = view s" "curr_thread s' = NULL" by auto
    have "session_inv tbl ops pool s' S" by (rule session_invI [OF y(2,3)]) (use y * in simp_all)
    with y(1) show ?thesis by (auto simp: after_def)
  next
    case False
    have "curr_thread s = NULL \<or> threads s (curr_thread s) \<noteq> None"
      using *(3) inv_member(1) [OF *(1), of "curr_thread s"] by auto
    from yield_keeps [OF *(1,2) False this *(4), of mf] show ?thesis
      by (auto simp: after_def split: control.split)
  qed
qed

end

lemma zlinked_alloc:
  assumes "zlinked h us q" and "r \<in> fst ` set us"
  shows "h r \<noteq> None"
  using assms
proof (induction us)
  case (Cons u us)
  then show ?case by (cases u; cases "r = fst u") auto
qed simp

lemma inside_put_null: "f p = None \<or> (\<exists>st t. f p = Some (st, t, NULL)) \<Longrightarrow>
    inside (f(p \<mapsto> (st', t', NULL))) ws = inside f ws"
  by (auto simp: inside_def)

lemma inside_exit:
  assumes T: "tidy f n R (set ws) Z" and p: "p \<in> R" "f p = Some (st, t, NULL)"
  shows "inside (exit_view code p ws f) (tl ws) = inside f ws"
proof (cases ws)
  case Nil
  then show ?thesis using p by (auto simp: inside_def exit_view_def)
next
  case (Cons w ws')
  have "p \<noteq> NULL" "w \<noteq> p" using tidy_sets [OF T] p Cons by auto
  moreover obtain st' t' e' where "f w = Some (st', t', e')"
    using tidy_sets(6) [OF T] Cons by (metis UnCI domD list.set_intros(1) prod_cases3)
  ultimately show ?thesis using Cons p by (auto simp: inside_def exit_view_def)
qed

lemma inside_reap:
  assumes "f d = None \<or> (\<exists>st t. f d = Some (st, t, NULL))"
  shows "inside (f(d := None)) ws = inside f ws"
  using assms by (auto simp: inside_def)

lemma zombie_claims_nothing:
  assumes T: "tidy f n R W Z" and "d \<in> Z"
  shows "\<exists>st t. f d = Some (st, t, NULL)"
proof -
  obtain st t e where f: "f d = Some (st, t, e)"
    using tidy_sets(6) [OF T] assms(2) by (metis UnCI domD prod_cases3)
  with tidy_facts(4) [OF T f] tidy_sets(3) [OF T] assms(2) show ?thesis by blast
qed

lemma stack_size_defined: "sysconf_page_size e \<noteq> 0 \<Longrightarrow> \<exists>sz. get_stack_size e = Some sz"
  by (simp add: get_stack_size_def Let_def split: prod.split)

context scheduler_contract
begin

lemma perform_create:
  assumes inv: "session_inv tbl ops pool s S" and ok: "lwp_allowed (Create e fn arg) s S"
  shows "\<exists>s'. lwp_perform tbl mf (Create e fn arg) s S = Some (Running s' S) \<and> session_inv tbl ops pool s' S"
proof -
  obtain rs ls ws zs where
    *: "lwp_inv pool s rs ls ws zs" "uses tbl ops s" "curr_thread s = NULL \<or> curr_thread s \<in> set rs"
      "S = inside (view s) ws"
    using inv unfolding session_inv_def by blast
  have env: "threads s (malloc_result e) = None" "sysconf_page_size e \<noteq> 0" "curr_tid s \<noteq> - 1"
    using ok by (simp_all add: env_ok_def)
  obtain sz where sz: "get_stack_size e = Some sz" using stack_size_defined [OF env(2)] by blast
  show ?thesis
  proof (cases "sz = 0 \<or> mmap_result e = MAP_FAILED \<or> malloc_result e = NULL")
    case True
    let ?s = "if malloc_result e = NULL then s else s\<lparr>curr_tid := curr_tid s + 1\<rparr>"
    have T: "tidy (view s) (curr_tid s) (set rs) (set ws) (snd ` set zs)" and q: "queues pool s rs ls ws zs"
      using *(1) by (simp_all add: lwp_inv_def)
    have "queues pool ?s rs ls ws zs" by (rule queues_relink [OF q]) (simp add: relink_def)
    then have "lwp_inv pool ?s rs ls ws zs" using *(1) tidy_bump [OF T env(3)] by (simp add: lwp_inv_def)
    then have "session_inv tbl ops pool ?s S"
      by (rule session_invI) (use * in \<open>auto simp: uses_def default_scheduler_def lwp_get_scheduler_def\<close>)
    then show ?thesis using create_fails [of s e sz tbl fn arg, OF env(1) sz True] by simp
  next
    case False
    then have f: "malloc_result e \<noteq> NULL" "sz \<noteq> 0" "mmap_result e \<noteq> MAP_FAILED" by auto
    obtain s' rs' where
      c: "lwp_create tbl e fn arg s = Some (curr_tid s, s')"
        "lwp_inv pool s' rs' (ls @ [malloc_result e]) ws zs" "set rs' = insert (malloc_result e) (set rs)"
        "queue_step (default_scheduler (created e fn arg sz s)) s'"
      using create_ok [of s rs ls ws zs tbl e sz fn arg, OF *(1,2) f(1) env(1,3) sz f(2,3)] by blast
    have v: "view s' = (view s)(malloc_result e \<mapsto> (LWP_LIVE, curr_tid s, NULL))"
      using view_queue_step [OF c(4)] by (simp add: created_def new_thread_def Let_def facts_def view_def fun_eq_iff)
    have f': "curr_thread s' = curr_thread s" "current_scheduler s' = current_scheduler (default_scheduler s)"
      using c(4) by (simp_all add: queue_step_iff created_def default_scheduler_def lwp_get_scheduler_def)
    have "session_inv tbl ops pool s' S"
    proof (rule session_invI [OF c(2)])
      show "uses tbl ops s'" using *(2) uses_iff [OF f'(2), of tbl ops] by simp
      show "S = inside (view s') ws" unfolding v *(4) using env(1)
        by (intro inside_put_null [symmetric]) (simp add: view_def)
    qed (use *(3) f'(1) c(3) in auto)
    with c(1) show ?thesis by simp
  qed
qed

lemma perform_start:
  assumes inv: "session_inv tbl ops pool s S" and ok: "lwp_allowed (Start e) s S"
  shows "\<exists>o'. lwp_perform tbl mf (Start e) s S = Some o' \<and>
    (case o' of Running s' S' \<Rightarrow> S' = S \<and> session_inv tbl ops pool s' S | Exited n \<Rightarrow> malloc_result e = NULL)"
proof -
  obtain rs ls ws zs where
    *: "lwp_inv pool s rs ls ws zs" "uses tbl ops s" "S = inside (view s) ws"
    using inv unfolding session_inv_def by blast
  have env: "threads s (malloc_result e) = None" "curr_tid s \<noteq> - 1" using ok by (simp_all add: env_ok_def)
  show ?thesis
  proof (cases "malloc_result e = NULL")
    case True
    then show ?thesis by (simp add: lwp_start_def after_def)
  next
    case False
    obtain s1 rs1 where
      c: "lwp_start tbl mf e s = lwp_yield tbl mf s1" "lwp_inv pool s1 rs1 (ls @ [malloc_result e]) ws zs"
        "set rs1 = insert (malloc_result e) (set rs)"
        "view s1 = (view s)(malloc_result e \<mapsto> (LWP_LIVE, curr_tid s, NULL))"
        "curr_thread s1 = malloc_result e" "uses tbl ops s1"
      using start_ok [OF *(1,2) False env, of mf] by blast
    have "inside (view s1) ws = S" unfolding c(4) *(3) using env(1)
      by (intro inside_put_null) (simp add: view_def)
    moreover have "threads s1 (curr_thread s1) \<noteq> None" using c(4,5) by (simp flip: view_none)
    moreover have "rs1 \<noteq> []" using c(3) by auto
    ultimately obtain k s' where
      "lwp_yield tbl mf s1 = Some (k, s')" "session_inv tbl ops pool s' S" "\<forall>n. k \<noteq> Exit n"
      using yield_keeps [OF c(2,6), of S mf] by blast
    then show ?thesis using c(1) by (auto simp: after_def split: control.split)
  qed
qed

end

context scheduler_contract
begin

text \<open>
  An exit ends the process only if malloc has no memory for the zombie's wrapper, or no other thread
  is left, and then with the code of the last one.
\<close>

lemma perform_terminate:
  assumes inv: "session_inv tbl ops pool s S" and ok: "lwp_allowed (Terminate z code) s S"
  shows "\<exists>o'. lwp_perform tbl mf (Terminate z code) s S = Some o' \<and>
    (case o' of Running s' S' \<Rightarrow> S' = S \<and> session_inv tbl ops pool s' S
     | Exited n \<Rightarrow> z = NULL \<and> n = EXIT_FAILURE \<or>
         z \<noteq> NULL \<and> n = uint (LWPTERMSTAT (MKTERMSTAT LWP_TERM code)) \<and> S = {} \<and>
         (\<forall>q c. threads s q = Some c \<longrightarrow> \<not> LWPTERMINATED (status c) \<longrightarrow> q = curr_thread s))"
proof (cases "curr_thread s = NULL")
  case True
  then show ?thesis using inv by (simp add: lwp_exit_def after_def)
next
  case False
  have out: "curr_thread s \<notin> S" and fresh: "zombies s z = None" using ok by simp_all
  from session_running [OF inv out False] obtain rs ls ws zs st t where
    *: "lwp_inv pool s rs ls ws zs" "uses tbl ops s" "curr_thread s \<in> set rs"
      "view s (curr_thread s) = Some (st, t, NULL)" "S = inside (view s) ws" by blast
  have T: "tidy (view s) (curr_tid s) (set rs) (set ws) (snd ` set zs)" and zq: "zrep s zs"
    using *(1) by (simp_all add: lwp_inv_def queues_def)
  obtain c where c: "threads s (curr_thread s) = Some c" using *(4) by (auto simp: view_def)
  show ?thesis
  proof (cases "z = NULL")
    case True
    then show ?thesis using False c
      by (simp add: lwp_exit_def upd_eq insert_zombie_def thr_eq after_def)
  next
    case znull: False
    have "z \<notin> fst ` set zs" using zlinked_alloc [of "zombies s" zs NULL z] zq fresh by (auto simp: zrep_def)
    from exit_ok [OF *(1,2) refl *(3,4) znull this, of mf code] obtain s1 rs1 where
      e: "lwp_exit tbl mf z code s = lwp_yield tbl mf s1"
        "lwp_inv pool s1 rs1 (remove1 (curr_thread s) ls) (tl ws) (zs @ [(z, curr_thread s)])"
        "set rs1 = set rs - {curr_thread s} \<union> set (take 1 ws)"
        "view s1 = exit_view code (curr_thread s) ws (view s)" "curr_thread s1 = curr_thread s" "uses tbl ops s1"
      by blast
    have in1: "inside (view s1) (tl ws) = S" unfolding e(4) *(5) by (rule inside_exit [OF T *(3,4)])
    have ne: "threads s1 (curr_thread s1) \<noteq> None"
      using inv_member(1) [OF e(2), of "curr_thread s"] e(5) by auto
    show ?thesis
    proof (cases "rs1 = []")
      case True
      with e(3) have "set rs - {curr_thread s} = {}" "set (take 1 ws) = {}" by simp_all
      then have alone: "set rs = {curr_thread s}" "ws = []" using *(3) by (blast, cases ws, simp_all)
      obtain c1 where c1: "threads s1 (curr_thread s) = Some c1" using ne e(5) by auto
      have "view s1 (curr_thread s) = Some (MKTERMSTAT LWP_TERM code, t, NULL)"
        using e(4) alone(2) *(4) by (simp add: exit_view_def)
      then have st: "status c1 = MKTERMSTAT LWP_TERM code" using c1 by (simp add: view_def facts_def)
      have "\<exists>s'. lwp_yield tbl mf s1 = Some (Exit (uint (LWPTERMSTAT (status c1))), s')"
        by (rule yield_last [OF e(2) [unfolded True] e(6)]) (use e(5) c1 in simp_all)
      moreover have "q = curr_thread s" if "threads s q = Some d" "\<not> LWPTERMINATED (status d)" for q d
      proof -
        have "q \<notin> snd ` set zs"
          using tidy_facts(1) [OF T, of q "status d" "tid d" "exited d"] that by (simp add: view_def facts_def)
        then show ?thesis using inv_member(1) [OF *(1), of q] alone that(1) by auto
      qed
      moreover have "S = {}"
      proof -
        have "q = curr_thread s" if "q \<in> S" for q
          using that *(5) alone tidy_facts(4) [OF T] by (auto simp: inside_def)
        then show ?thesis using out by blast
      qed
      ultimately show ?thesis using e(1) st znull by (auto simp: after_def)
    next
      case run: False
      obtain k s' where "lwp_yield tbl mf s1 = Some (k, s')" "session_inv tbl ops pool s' S" "\<forall>n. k \<noteq> Exit n"
        using yield_keeps [OF e(2,6) run _ in1 [symmetric], of mf] ne by blast
      then show ?thesis using e(1) by (auto simp: after_def split: control.split)
    qed
  qed
qed

lemma perform_wait:
  assumes inv: "session_inv tbl ops pool s S" and ok: "lwp_allowed (Wait want) s S"
  shows "\<exists>o'. lwp_perform tbl mf (Wait want) s S = Some o' \<and>
    (case o' of Running s' S' \<Rightarrow> session_inv tbl ops pool s' S'
     | Exited n \<Rightarrow> n = EXIT_FAILURE \<and> (\<exists>a l. mf a l))"
proof (cases "curr_thread s = NULL")
  case True
  have "session_inv tbl ops pool (default_scheduler s) S"
  proof -
    obtain rs ls ws zs where
      *: "lwp_inv pool s rs ls ws zs" "uses tbl ops s" "S = inside (view s) ws"
      using inv unfolding session_inv_def by blast
    show ?thesis
      by (rule session_invI [OF inv_default [OF *(1)]]) (use * True in \<open>simp_all add: uses_def\<close>)
  qed
  moreover have "lwp_wait tbl mf want s = Some (Wait_returns NO_THREAD None, default_scheduler s)"
    using inv True by (auto simp: session_inv_def lwp_wait_def uses_def)
  ultimately show ?thesis by simp
next
  case False
  have out: "curr_thread s \<notin> S" using ok by simp
  from session_running [OF inv out False] obtain rs ls ws zs st t where
    *: "lwp_inv pool s rs ls ws zs" "uses tbl ops s" "curr_thread s \<in> set rs"
      "view s (curr_thread s) = Some (st, t, NULL)" "S = inside (view s) ws" by blast
  have T: "tidy (view s) (curr_tid s) (set rs) (set ws) (snd ` set zs)" and zq: "zrep s zs"
    using *(1) by (simp_all add: lwp_inv_def queues_def)
  show ?thesis
  proof (cases zs)
    case Nil
    show ?thesis
    proof (cases "length rs \<le> 1")
      case True
      have "session_inv tbl ops pool (default_scheduler s) S"
        by (rule session_invI [OF inv_default [OF *(1)]]) (use * in \<open>simp_all add: uses_def\<close>)
      then show ?thesis using wait_pointless [OF _ *(2) refl *(3,4) True] *(1) Nil by simp
    next
      case many: False
      then have len: "1 < length rs" by simp
      from wait_blocks [OF _ *(2) refl *(3,4) len, of ls ws mf want] *(1) Nil obtain pc s' rs' where
        w: "lwp_wait tbl mf want s = Some (Wait_blocked pc, s')" "lwp_inv pool s' rs' ls (ws @ [curr_thread s]) []"
          "view s' = view s" "curr_thread s' \<in> set rs'" "uses tbl ops s'" by blast
      have "session_inv tbl ops pool s' (insert (curr_thread s) S)"
        by (rule session_invI [OF w(2,5)]) (use w * in \<open>auto simp: inside_def\<close>)
      then show ?thesis using w(1) by simp
    qed
  next
    case (Cons zd zs')
    obtain z d where zd: "zd = (z, d)" by fastforce
    have i: "lwp_inv pool s rs ls ws ((z, d) # zs')" using *(1) Cons zd by simp
    obtain c where c: "threads s d = Some c" using inv_member(1) [OF i, of d] by auto
    have "unclaimed s d" using ok zq Cons zd by (auto simp: zrep_def oldest_zombie_free_def)
    then have free: "e \<noteq> d" if "view s q = Some (st', u, e)" for q st' u e
      using that by (auto simp: unclaimed_def view_def facts_def)
    show ?thesis
    proof (cases "stack c \<noteq> NULL \<and> mf (stack c) (stacksize c)")
      case True
      then show ?thesis using wait_reap_fails [OF i *(2) refl *(3,4) c, of mf want] by (auto; blast)
    next
      case unmap: False
      obtain s' where
        w: "lwp_wait tbl mf want s =
            Some (Wait_returns (tid c) (if want then Some (LWPTERMSTAT (status c)) else None), s')"
          "lwp_inv pool s' rs ls ws zs'" "threads s' = (threads s)(d := None)" "curr_thread s' = curr_thread s"
          "uses tbl ops s'"
        using wait_reaps [of s rs ls ws z d zs' tbl "curr_thread s" st t c mf want, OF i *(2) refl *(3,4) c] unmap free
        by blast
      have "\<exists>st t. view s d = Some (st, t, NULL)"
        by (rule zombie_claims_nothing [OF T]) (simp add: Cons zd)
      then have "S = inside (view s') ws"
        unfolding view_remove [OF w(3)] *(5) by (intro inside_reap [symmetric]) blast
      then have "session_inv tbl ops pool s' S"
        by (intro session_invI [OF w(2,5)]) (use w(4) *(3) in simp_all)
      then show ?thesis using w(1) by simp
    qed
  qed
qed

lemma resume_setting:
  assumes inv: "session_inv tbl ops pool s S" and ok: "lwp_allowed (Resume want) s S"
  obtains rs ls ws ys z d zs st t c where "lwp_inv pool s rs ls ws (ys @ (z, d) # zs)" and "uses tbl ops s"
    and "view s (curr_thread s) = Some (st, t, d)" and "d \<noteq> NULL" and "threads s d = Some c"
    and "LWPTERMINATED (status c)" and "curr_thread s \<in> set rs" and "curr_thread s \<notin> set ws"
    and "S = inside (view s) ws"
proof -
  let ?p = "curr_thread s"
  obtain rs ls ws zs where
    *: "lwp_inv pool s rs ls ws zs" "uses tbl ops s" "?p = NULL \<or> ?p \<in> set rs" "S = inside (view s) ws"
    using inv unfolding session_inv_def by blast
  have T: "tidy (view s) (curr_tid s) (set rs) (set ws) (snd ` set zs)" and dz: "distinct (map snd zs)"
    using *(1) by (simp_all add: lwp_inv_def)
  note sets = tidy_sets [OF T]
  have pS: "?p \<in> inside (view s) ws" using ok *(4) by simp
  have "?p \<noteq> NULL"
  proof
    assume "?p = NULL"
    with pS sets(6,7) show False by (auto simp: inside_def)
  qed
  then have pr: "?p \<in> set rs" "?p \<notin> set ws" using *(3) sets(2) by auto
  then obtain st t d where d: "view s ?p = Some (st, t, d)" "d \<noteq> NULL" using pS by (auto simp: inside_def)
  have dZ: "d \<in> snd ` set zs" using tidy_facts(4) [OF T d] by blast
  with dz obtain ys z zs' where zs: "zs = ys @ (z, d) # zs'" by (auto elim: zombie_split)
  have i: "lwp_inv pool s rs ls ws (ys @ (z, d) # zs')" using *(1) zs by simp
  obtain c where c: "threads s d = Some c" using inv_member(1) [OF i, of d] by auto
  have "LWPTERMINATED (status c)"
    using tidy_facts(1) [OF T, of d "status c" "tid c" "exited c"] c dZ by (simp add: view_def facts_def)
  from that [OF i *(2) d c this pr *(4)] show thesis .
qed

lemma perform_resume:
  assumes inv: "session_inv tbl ops pool s S" and ok: "lwp_allowed (Resume want) s S"
  shows "\<exists>o'. lwp_perform tbl mf (Resume want) s S = Some o' \<and>
    (case o' of Running s' S' \<Rightarrow> session_inv tbl ops pool s' S'
     | Exited n \<Rightarrow> n = EXIT_FAILURE \<and> (\<exists>a l. mf a l))"
proof -
  let ?p = "curr_thread s"
  from resume_setting [OF inv ok] obtain rs ls ws ys z d zs' st t c where
    i: "lwp_inv pool s rs ls ws (ys @ (z, d) # zs')" and use: "uses tbl ops s"
      and d: "view s ?p = Some (st, t, d)" "d \<noteq> NULL" and c: "threads s d = Some c"
      and pr: "?p \<in> set rs" "?p \<notin> set ws" and S: "S = inside (view s) ws" .
  have T: "tidy (view s) (curr_tid s) (set rs) (set ws) (snd ` set (ys @ (z, d) # zs'))"
    using i by (simp add: lwp_inv_def)
  note sets = tidy_sets [OF T]
  have dZ: "d \<in> snd ` set (ys @ (z, d) # zs')" by simp
  show ?thesis
  proof (cases "stack c \<noteq> NULL \<and> mf (stack c) (stacksize c)")
    case True
    then show ?thesis using resume_fails [OF i refl d c, of mf want] by (auto; blast)
  next
    case unmap: False
    obtain s' where
      w: "lwp_wait_resumed mf want s =
          Some (Wait_returns (tid c) (if want then Some (LWPTERMSTAT (status c)) else None), s')"
        "lwp_inv pool s' rs ls ws (ys @ zs')" "view s' = (view s)(?p \<mapsto> (st, t, NULL), d := None)"
        "curr_thread s' = ?p" "uses tbl ops s'"
      using resume_ok [of s rs ls ws ys z d zs' tbl ?p st t c mf want, OF i use refl d c] unmap by blast
    obtain st' t' where vd: "view s d = Some (st', t', NULL)" using zombie_claims_nothing [OF T dZ] by blast
    have "d \<noteq> ?p" "d \<notin> set ws" using dZ sets(3,4) pr(1) by (metis disjoint_iff)+
    then have "inside (view s') ws = S - {?p}"
      unfolding w(3) S using pr vd by (auto simp: inside_def split: if_splits)
    then have "session_inv tbl ops pool s' (S - {?p})"
      by (intro session_invI [OF w(2,5)]) (use w(4) pr in simp_all)
    then show ?thesis using w(1) by simp
  qed
qed

end

context scheduler_contract
begin

lemma call_ok:
  assumes "session_inv tbl ops pool s S" and "lwp_allowed c s S"
  shows "\<exists>o'. lwp_perform tbl mf c s S = Some o' \<and>
    (case o' of Running s' S' \<Rightarrow> session_inv tbl ops pool s' S' | Exited n \<Rightarrow> True)"
proof (cases c)
  case (Create e fn arg)
  then show ?thesis using perform_create [of tbl s S e fn arg mf] assms by auto
next
  case (Start e)
  then show ?thesis using perform_start [of tbl s S e mf] assms by (fastforce split: outcome.splits)
next
  case Yield
  then show ?thesis using perform_yield [of tbl s S mf] assms by auto
next
  case (Terminate z code)
  then show ?thesis using perform_terminate [of tbl s S z code mf] assms by (fastforce split: outcome.splits)
next
  case (Wait want)
  then show ?thesis using perform_wait [of tbl s S want mf] assms by (fastforce split: outcome.splits)
next
  case (Resume want)
  then show ?thesis using perform_resume [of tbl s S want mf] assms by (fastforce split: outcome.splits)
qed

lemma session_keeps:
  assumes "lwp_session tbl mf s0 s S" and "session_inv tbl ops pool s0 {}"
  shows "session_inv tbl ops pool s S"
  using assms
proof (induction rule: lwp_session.induct)
  case (call s S c s' S')
  then show ?case using call_ok [of tbl s S c mf] by fastforce
qed simp

end

section \<open>The static initial state\<close>

text \<open>The initializers of the static variables of both files; memory and registers are arbitrary.\<close>

definition lwp_boot :: "(addr \<Rightarrow> 64 word) \<Rightarrow> rfile \<Rightarrow> 'x \<Rightarrow> 'x lwp_state" where
  "lwp_boot m r x = \<lparr>threads = (\<lambda>_. None), zombies = (\<lambda>_. None), stack_words = m, cpu = r,
     current_scheduler = NULL_scheduler, curr_thread = NULL, waiting_head = NULL, waiting_tail = NULL,
     live_head = NULL, live_tail = NULL, zombies_head = NULL, zombies_tail = NULL, curr_tid = FIRST_TID,
     scheduler_thread_count = 0, sched_head = NULL, sched_tail = NULL, custom = x\<rparr>"

lemma boot_inv: "session_inv tbl rr_publish rr_pool (lwp_boot m r x) {}"
proof (rule session_invI)
  have "tidy (\<lambda>_. None) FIRST_TID {} {} {}"
    by (rule tidyI) (simp_all add: FIRST_TID_def NO_THREAD_def)
  moreover have "view (lwp_boot m r x) = (\<lambda>_. None)" by (simp add: view_def lwp_boot_def fun_eq_iff)
  ultimately show "lwp_inv rr_pool (lwp_boot m r x) [] [] [] []"
    by (simp add: lwp_inv_def queues_def rr_pool_def live.rep_def waiting.rep_def zrep_def lwp_boot_def)
qed (simp_all add: uses_def default_scheduler_def lwp_get_scheduler_def lwp_boot_def sched_of_def inside_def view_def)

lemmas rr_session = rr.session_keeps [OF _ boot_inv]

end
