(* ===== verification/Lwp_Props.thy ===== *)
theory Lwp_Props
  imports Lwp_Session
begin

text \<open>
  The properties of the thread library and of its round-robin scheduler. They rest on the facts of
  the interpretation \<open>rr\<close> of the scheduler contract.
\<close>

section \<open>A small program\<close>

definition no_regs :: rfile where
  "no_regs = \<lparr>rax = 0, rbx = 0, rcx = 0, rdx = 0, rsi = 0, rdi = 0, rbp = 0, rsp = 0, r8 = 0, r9 = 0,
     r10 = 0, r11 = 0, r12 = 0, r13 = 0, r14 = 0, r15 = 0, fxsave = []\<rparr>"

definition raw_thread :: threadinfo where
  "raw_thread = \<lparr>tid = 7, stack = 7, stacksize = 7, state = no_regs, status = 7, live_next = 7, wait_next = 7,
     sched_prev = 7, sched_next = 7, exited = 7\<rparr>"

definition boot0 :: "unit lwp_state" where "boot0 = lwp_boot (\<lambda>_. 0) no_regs ()"

definition no_table :: "nat \<Rightarrow> unit lwp_state sched_ops" where "no_table n = rr_publish"

definition env_at :: "addr \<Rightarrow> addr \<Rightarrow> lwp_env" where
  "env_at p base = \<lparr>malloc_result = p, malloc_garbage = raw_thread, getrlimit_result = (0, 8192),
     sysconf_page_size = 4096, mmap_result = base, addr_lwp_exit = 0x401000, addr_lwp_wrap = 0x402000\<rparr>"

lemmas small_defs = boot0_def lwp_boot_def env_at_def raw_thread_def no_table_def

lemma env_at_stack: "get_stack_size (env_at p base) = Some 8192"
  by (simp add: get_stack_size_def env_at_def round_up_page_size_def RLIM_INFINITY_def)

text \<open>A script of calls, each of which must be allowed where it is made.\<close>

fun lwp_script ::
  "(nat \<Rightarrow> 'x lwp_state sched_ops) \<Rightarrow> (addr \<Rightarrow> size_t \<Rightarrow> bool) \<Rightarrow> lwp_call list \<Rightarrow> 'x lwp_state \<Rightarrow> addr set \<Rightarrow>
    ('x lwp_state \<times> addr set) option" where
  "lwp_script tbl mf [] s S = Some (s, S)"
| "lwp_script tbl mf (c # cs) s S =
    (if lwp_allowed c s S
     then case lwp_perform tbl mf c s S of Some (Running s' S') \<Rightarrow> lwp_script tbl mf cs s' S' | _ \<Rightarrow> None
     else None)"

lemma script_session:
  assumes "lwp_script tbl mf cs s S = Some (s', S')" and "lwp_session tbl mf s0 s S"
  shows "lwp_session tbl mf s0 s' S'"
  using assms
  by (induction cs arbitrary: s S)
    (auto split: if_splits option.splits outcome.splits intro: lwp_session.call)

lemmas lwp_eval = lwp_create_def lwp_start_def lwp_yield_def lwp_exit_def lwp_wait_def lwp_wait_resumed_def
  assign_tid_def upd_def thr_def zom_def zupd_def insert_live_def insert_waiting_def remove_live_def
  remove_waiting_def insert_zombie_def remove_zombie_def find_zombie_def reap_and_remove_def wait_reap_def
  rr_admit_def rr_next_def rr_remove_def rr_qlen_def default_scheduler_def lwp_get_scheduler_def sched_of_def
  rr_publish_def after_def Let_def swap_rfiles_def push_frame_def save_rfile_def load_rfile_def leave_ret_def
  get_stack_size_def round_up_page_size_def RLIM_INFINITY_def round_down_16_def STACK_ALIGNMENT_def
  word_ptr_def LWP_EXIT_RETURN_OFFSET_def WRAPPER_RETURN_OFFSET_def SAVED_BP_OFFSET_def FAKE_SAVED_BP_def
  no_regs_def env_ok_def NO_THREAD_def LWP_LIVE_def LWP_TERM_def FIRST_TID_def MAP_FAILED_def

lemma script_from_boot:
  "lwp_script tbl mf cs boot0 {} = Some (s, S) \<Longrightarrow> lwp_session tbl mf (lwp_boot (\<lambda>_. 0) no_regs ()) s S"
  unfolding boot0_def by (rule script_session [OF _ lwp_session.init])

lemmas script_eval = lwp_eval small_defs rr_search.simps live_search.simps waiting_search.simps
  find_zombie_loop.simps zombie_search.simps LWPTERMINATED_def MKTERMSTAT_def LWPTERMSTAT_def TERMOFFSET_def
  oldest_zombie_free_def unclaimed_def

text \<open>The main thread at \<open>0x1000\<close> and two more; the main thread waits and the first of the others runs.\<close>

definition script0 :: "lwp_call list" where
  "script0 = [Start (env_at 0x1000 0), Create (env_at 0x2000 0x10000) 1 2, Create (env_at 0x3000 0x20000) 3 4,
     Wait True]"

lemma script0_runs:
  "\<exists>s. lwp_script no_table (\<lambda>_ _. False) script0 boot0 {} = Some (s, {0x1000}) \<and> curr_thread s = 0x2000 \<and>
     zombies s 0x9000 = None"
  unfolding script0_def by (simp add: script_eval)

lemma small_session:
  "\<exists>s. lwp_session no_table (\<lambda>_ _. False) (lwp_boot (\<lambda>_. 0) no_regs ()) s {0x1000} \<and> curr_thread s = 0x2000 \<and>
     zombies s 0x9000 = None"
  using script0_runs script_from_boot by blast

section \<open>Sessions\<close>

text \<open>C31: Whatever programs do, the library's data stays consistent: in every state they reach through
  allowed calls the live queue holds exactly the threads of the scheduler's pool and the waiting
  threads, which are disjoint; zombies are in neither; exactly these threads are allocated; a thread's
  status says terminated exactly when it is a zombie; ids are distinct and below the next id; a claim
  of a woken waiter is an unreaped zombie that no other thread claims; and no thread waits while the
  pool is empty.\<close>

theorem lwp_stays_consistent:
  assumes "lwp_session tbl mf (lwp_boot m r x) s S"
  shows "\<exists>rs ls ws zs. lwp_inv rr_pool s rs ls ws zs \<and> S = inside (view s) ws \<and>
    (curr_thread s = NULL \<or> curr_thread s \<in> set rs)"
  using rr_session [OF assms] unfolding session_inv_def by blast

theorem lwp_stays_consistent_witness:
  "\<exists>s rs ls ws zs. lwp_inv rr_pool s rs ls ws zs \<and> curr_thread s = (0x2000 :: addr) \<and>
     {0x1000} = inside (view (s :: unit lwp_state)) ws"
  using small_session lwp_stays_consistent by metis

text \<open>C32: In such a state every allowed call returns or ends the process: it never follows a NULL or
  freed pointer and never walks a queue without end. (A call that does would be \<open>None\<close>.)\<close>

theorem lwp_calls_return:
  assumes "lwp_session tbl mf (lwp_boot m r x) s S" and "lwp_allowed c s S"
  shows "\<exists>o'. lwp_perform tbl mf c s S = Some o'"
  using rr.call_ok [OF rr_session [OF assms(1)] assms(2), of mf] by blast

theorem lwp_calls_return_witness:
  "\<exists>s. curr_thread (s :: unit lwp_state) = 0x2000 \<and>
     (\<exists>o'. lwp_perform no_table (\<lambda>_ _. False) (Terminate 0x9000 5) s {0x1000} = Some o')"
proof -
  obtain s where s: "lwp_session no_table (\<lambda>_ _. False) (lwp_boot (\<lambda>_. 0) no_regs ()) s {0x1000}"
    "curr_thread s = 0x2000" "zombies s 0x9000 = None" using small_session by blast
  have "lwp_allowed (Terminate 0x9000 5) s {0x1000}" using s by simp
  from lwp_calls_return [OF s(1) this] s(2) show ?thesis by blast
qed

text \<open>C23: How a call of \<open>lwp_exit\<close> or \<open>lwp_yield\<close> can end the process. When malloc has no memory for the zombie's
  wrapper (\<open>z\<close> is NULL), \<open>lwp_exit\<close> ends it with \<open>EXIT_FAILURE\<close>, however many other threads are alive. Otherwise
  \<open>lwp_exit\<close> ends it only when the exiting thread is the last one that has not terminated and nobody is inside
  \<open>lwp_wait\<close>; the exit code is then the low 8 bits of the thread's. A call of \<open>lwp_yield\<close> by a program never ends
  it, not even in the case for which its comment announces \<open>exit\<close>.\<close>

theorem process_exits_last:
  assumes "lwp_session tbl mf (lwp_boot m r x) s S"
  shows "(lwp_allowed (Terminate NULL code) s S \<and> curr_thread s \<noteq> NULL \<longrightarrow>
      lwp_perform tbl mf (Terminate NULL code) s S = Some (Exited EXIT_FAILURE)) \<and>
    (lwp_allowed (Terminate z code) s S \<and> lwp_perform tbl mf (Terminate z code) s S = Some (Exited n) \<longrightarrow>
      z = NULL \<and> n = EXIT_FAILURE \<or>
      z \<noteq> NULL \<and> n = uint (code AND 255) \<and> S = {} \<and>
      (\<forall>q c. threads s q = Some c \<longrightarrow> \<not> LWPTERMINATED (status c) \<longrightarrow> q = curr_thread s)) \<and>
    (lwp_allowed Yield s S \<longrightarrow> (\<exists>s'. lwp_perform tbl mf Yield s S = Some (Running s' S)))"
proof (intro conjI impI)
  note inv = rr_session [OF assms]
  show "\<exists>s'. lwp_perform tbl mf Yield s S = Some (Running s' S)" if "lwp_allowed Yield s S"
    using rr.perform_yield [OF inv that, of mf] by blast
  show "z = NULL \<and> n = EXIT_FAILURE \<or> z \<noteq> NULL \<and> n = uint (code AND 255) \<and> S = {} \<and>
      (\<forall>q c. threads s q = Some c \<longrightarrow> \<not> LWPTERMINATED (status c) \<longrightarrow> q = curr_thread s)"
    if "lwp_allowed (Terminate z code) s S \<and> lwp_perform tbl mf (Terminate z code) s S = Some (Exited n)"
    using rr.perform_terminate [OF inv, of z code mf] that by (auto simp: termstat_code)
  show "lwp_perform tbl mf (Terminate NULL code) s S = Some (Exited EXIT_FAILURE)"
    if "lwp_allowed (Terminate NULL code) s S \<and> curr_thread s \<noteq> NULL"
  proof -
    have "curr_thread s \<notin> S" "curr_thread s \<noteq> NULL" using that by simp_all
    from rr.session_running [OF inv this] obtain st t where "view s (curr_thread s) = Some (st, t, NULL)" .
    then obtain c where "threads s (curr_thread s) = Some c" by (auto simp: view_def)
    then show ?thesis using that by (simp add: lwp_exit_def upd_eq insert_zombie_def thr_eq after_def)
  qed
qed

text \<open>Under any scheduler: a live thread that yields when there is no next thread just goes on.\<close>

lemma yield_alone_returns:
  assumes "sched_of tbl (current_scheduler (default_scheduler s)) = Some ops"
    and "so_next ops (default_scheduler s) = Some (NULL, s')"
    and "thr (curr_thread s') s' = Some c" and "\<not> LWPTERMINATED (status c)"
  shows "lwp_yield tbl mf s = Some (Continue, s')"
  using assms by (auto simp: lwp_yield_def thr_def Let_def split: if_splits)

lemma lonely_runs:
  "\<exists>s. lwp_script no_table (\<lambda>_ _. False) [Start (env_at 0x1000 0)] boot0 {} = Some (s, {}) \<and>
     lwp_perform no_table (\<lambda>_ _. False) (Terminate 0x9000 0x105) s {} = Some (Exited 5) \<and>
     curr_thread s = 0x1000 \<and> zombies s 0x9000 = None \<and> zombies s NULL = None"
  by (simp add: script_eval)

theorem process_exits_last_witness:
  "\<exists>s. lwp_perform no_table (\<lambda>_ _. False) (Terminate 0x9000 0x105) s {} = Some (Exited 5) \<and>
     (\<forall>q c. threads s q = Some c \<longrightarrow> \<not> LWPTERMINATED (status c) \<longrightarrow> q = curr_thread s) \<and>
     lwp_perform no_table (\<lambda>_ _. False) (Terminate NULL 0x105) s {} = Some (Exited EXIT_FAILURE) \<and>
     (\<exists>s'. lwp_perform no_table (\<lambda>_ _. False) Yield s {} = Some (Running s' {}))"
proof -
  obtain s where s: "lwp_script no_table (\<lambda>_ _. False) [Start (env_at 0x1000 0)] boot0 {} = Some (s, {})"
    "lwp_perform no_table (\<lambda>_ _. False) (Terminate 0x9000 0x105) s {} = Some (Exited 5)"
    "curr_thread s = 0x1000" "zombies s 0x9000 = None" "zombies s NULL = None"
    using lonely_runs by blast
  have "lwp_session no_table (\<lambda>_ _. False) (lwp_boot (\<lambda>_. 0) no_regs ()) s {}"
    by (rule script_from_boot [OF s(1)])
  from process_exits_last [OF this, of "0x105" "0x9000" 5] s show ?thesis by auto
qed

text \<open>C22: What the code does not check: a zombie that a woken waiter was told to reap can be reaped by
  another thread first. The main thread waits, the second thread exits and wakes it, the third calls
  \<open>lwp_wait\<close> and gets the zombie; when the main thread resumes it follows the freed structure.\<close>

theorem stolen_zombie:
  "\<exists>s s1 s2.
     lwp_session no_table (\<lambda>_ _. False) (lwp_boot (\<lambda>_. 0) no_regs ()) s {0x1000} \<and>
     curr_thread s = 0x3000 \<and> \<not> lwp_allowed (Wait True) s {0x1000} \<and>
     lwp_wait no_table (\<lambda>_ _. False) True s = Some (Wait_returns 2 (Some 5), s1) \<and>
     lwp_perform no_table (\<lambda>_ _. False) Yield s1 {0x1000} = Some (Running s2 {0x1000}) \<and>
     curr_thread s2 = 0x1000 \<and> map_option exited (threads s2 0x1000) = Some 0x2000 \<and> threads s2 0x2000 = None \<and>
     lwp_perform no_table (\<lambda>_ _. False) (Resume True) s2 {0x1000} = None"
proof -
  have "\<exists>s s1 s2. lwp_script no_table (\<lambda>_ _. False) (script0 @ [Terminate 0x9000 5]) boot0 {} = Some (s, {0x1000}) \<and>
     curr_thread s = 0x3000 \<and> \<not> lwp_allowed (Wait True) s {0x1000} \<and>
     lwp_wait no_table (\<lambda>_ _. False) True s = Some (Wait_returns 2 (Some 5), s1) \<and>
     lwp_perform no_table (\<lambda>_ _. False) Yield s1 {0x1000} = Some (Running s2 {0x1000}) \<and>
     curr_thread s2 = 0x1000 \<and> map_option exited (threads s2 0x1000) = Some 0x2000 \<and> threads s2 0x2000 = None \<and>
     lwp_perform no_table (\<lambda>_ _. False) (Resume True) s2 {0x1000} = None"
    unfolding script0_def
    by (simp add: script_eval;
        intro exI [of _ "0x1000"]; simp)
  then show ?thesis using script_from_boot by blast
qed

end
