(* ===== verification/Lwp_Sched_Props.thy ===== *)
theory Lwp_Sched_Props
  imports Lwp_Props
begin

text \<open>
  What the round-robin scheduler computes, seen as a list of threads, how \<open>lwp_set_scheduler\<close> hands its
  threads to another scheduler.
\<close>

section \<open>Round robin is a list\<close>

text \<open>C20: For a pool that holds the threads \<open>xs\<close>, admit appends a new thread, remove deletes a thread and
  ignores one that is not there, next answers the head and rotates it to the end (NULL when the pool is
  empty), qlen is the length, init and shutdown empty the pool; none of them fails, and nothing but the
  two scheduler links and the scheduler's variables changes.\<close>

theorem rr_refines_list:
  assumes "rr_pool s xs"
  shows "(x \<noteq> NULL \<and> threads s x \<noteq> None \<and> x \<notin> set xs \<longrightarrow>
        (\<exists>s'. rr_admit x s = Some s' \<and> rr_pool s' (xs @ [x]) \<and> sched_step s s')) \<and>
    (\<exists>s'. rr_remove x s = Some s' \<and> rr_pool s' (remove1 x xs) \<and> sched_step s s') \<and>
    (\<exists>s'. rr_next s = Some (if xs = [] then NULL else hd xs, s') \<and> rr_pool s' (rotate1 xs) \<and> sched_step s s') \<and>
    rr_qlen s = int (length xs) \<and> rr_pool (rr_init s) [] \<and> rr_pool (rr_shutdown s) []"
proof (intro conjI impI)
  assume "x \<noteq> NULL \<and> threads s x \<noteq> None \<and> x \<notin> set xs"
  then show "\<exists>s'. rr_admit x s = Some s' \<and> rr_pool s' (xs @ [x]) \<and> sched_step s s'"
    using rr_admit_ok [OF assms] by blast
next
  show "\<exists>s'. rr_next s = Some (if xs = [] then NULL else hd xs, s') \<and> rr_pool s' (rotate1 xs) \<and> sched_step s s'"
    using rr_next_ok [OF assms] by (simp add: first_of_def)
qed (use rr_remove_ok [OF assms] assms in \<open>auto simp: rr_qlen_def rr_pool_def rr_init_def rr_shutdown_def\<close>)

section \<open>Fairness\<close>

text \<open>\<open>n\<close> turns of the scheduler: the threads it picks.\<close>

fun rr_turns :: "nat \<Rightarrow> 'x lwp_state \<Rightarrow> (addr list \<times> 'x lwp_state) option" where
  "rr_turns 0 s = Some ([], s)"
| "rr_turns (Suc n) s = do {
     (x, s) \<leftarrow> rr_next s;
     (xs, s) \<leftarrow> rr_turns n s;
     Some (x # xs, s)
   }"

lemma rr_turns_ok:
  assumes "rr_pool s xs" and "xs \<noteq> []"
  shows "\<exists>s'. rr_turns n s = Some (map (\<lambda>i. xs ! (i mod length xs)) [0..<n], s') \<and> rr_pool s' (rotate n xs)"
  using assms
proof (induction n arbitrary: s xs)
  case (Suc n)
  from rr_next_ok [OF Suc.prems(1)] obtain s1 where
    s1: "rr_next s = Some (first_of xs, s1)" "rr_pool s1 (rotate1 xs)" by blast
  from Suc.IH [OF s1(2)] Suc.prems(2) obtain s2 where
    s2: "rr_turns n s1 = Some (map (\<lambda>i. rotate1 xs ! (i mod length xs)) [0..<n], s2)"
      "rr_pool s2 (rotate n (rotate1 xs))" by auto
  have "rotate1 xs ! (i mod length xs) = xs ! (Suc i mod length xs)" for i
    using Suc.prems(2) by (simp add: nth_rotate1 mod_Suc_eq)
  moreover have "[0..<Suc n] = 0 # map Suc [0..<n]" by (simp add: map_Suc_upt upt_conv_Cons del: upt_Suc)
  ultimately have "rr_turns (Suc n) s = Some (map (\<lambda>i. xs ! (i mod length xs)) [0..<Suc n], s2)"
    using s1(1) s2(1) Suc.prems(2) by (simp add: first_of_def hd_conv_nth comp_def del: upt_Suc)
  moreover have "rotate n (rotate1 xs) = rotate (Suc n) xs" by (simp add: rotate1_rotate_swap)
  ultimately show ?case using s2(2) by metis
qed simp

text \<open>C24: Round robin is fair: as long as nothing is admitted or removed, the \<open>i\<close>-th turn goes to thread
  \<open>i mod length xs\<close> of the pool, so any \<open>length xs\<close> turns in a row give each thread exactly one, and the
  pool is then what it was.\<close>

theorem rr_fair:
  assumes "rr_pool s xs" and "xs \<noteq> []"
  shows "(\<exists>s'. rr_turns n s = Some (map (\<lambda>i. xs ! (i mod length xs)) [0..<n], s')) \<and>
    (\<exists>s'. rr_turns (length xs) s = Some (xs, s') \<and> rr_pool s' xs)"
proof
  show "\<exists>s'. rr_turns n s = Some (map (\<lambda>i. xs ! (i mod length xs)) [0..<n], s')"
    using rr_turns_ok [OF assms] by blast
  have "map (\<lambda>i. xs ! (i mod length xs)) [0..<length xs] = xs"
    by (rule nth_equalityI) simp_all
  moreover have "rotate (length xs) xs = xs" by simp
  ultimately show "\<exists>s'. rr_turns (length xs) s = Some (xs, s') \<and> rr_pool s' xs"
    using rr_turns_ok [OF assms, of "length xs"] by metis
qed

text \<open>A pool of two threads.\<close>

definition pair_pool :: "unit lwp_state" where
  "pair_pool = boot0\<lparr>threads := [0x10 \<mapsto> raw_thread\<lparr>sched_prev := 0, sched_next := 0x20\<rparr>,
     0x20 \<mapsto> raw_thread\<lparr>sched_prev := 0x10, sched_next := 0\<rparr>, 0x30 \<mapsto> raw_thread],
     current_scheduler := RoundRobin, sched_head := 0x10, sched_tail := 0x20, scheduler_thread_count := 2\<rparr>"

lemma pair_pool: "rr_pool pair_pool [0x10, 0x20]"
  by (simp add: rr_pool_def pair_pool_def)

theorem rr_refines_list_witness:
  "(\<exists>s'. rr_admit 0x30 pair_pool = Some s' \<and> rr_pool s' [0x10, 0x20, 0x30]) \<and>
   (\<exists>s'. rr_remove 0x10 pair_pool = Some s' \<and> rr_pool s' [0x20]) \<and>
   (\<exists>s'. rr_next pair_pool = Some (0x10, s') \<and> rr_pool s' [0x20, 0x10])"
  using rr_refines_list [OF pair_pool, of "0x30"] rr_refines_list [OF pair_pool, of "0x10"]
  by (auto simp: pair_pool_def)

theorem rr_fair_witness:
  "\<exists>s'. rr_turns 3 pair_pool = Some ([0x10, 0x20, 0x10], s')"
  using rr_fair [OF pair_pool, of 3] by (simp add: upt_rec)

section \<open>Changing the scheduler\<close>

text \<open>
  The other scheduler is a parameter; both keep the contract \<open>separate_scheduler\<close>, and neither writes the
  other's variables. Both may use \<open>sched_one\<close> and \<open>sched_two\<close>: a thread is in one pool at a time.
\<close>

definition apart :: "('x lwp_state \<Rightarrow> 'r) \<Rightarrow> ('x lwp_state \<Rightarrow> 'o) \<Rightarrow> bool" where
  "apart rest own \<longleftrightarrow> (\<forall>s s'. rest s' = rest s \<longrightarrow> own s' = own s)"

text \<open>A scheduler that runs its threads in turn, in the order of its list.\<close>

definition in_turn :: "'x lwp_state sched_ops \<Rightarrow> ('x lwp_state \<Rightarrow> addr list \<Rightarrow> bool) \<Rightarrow> bool" where
  "in_turn ops pool \<longleftrightarrow>
     (\<forall>s xs x s'. pool s xs \<longrightarrow> so_next ops s = Some (x, s') \<longrightarrow> x = first_of xs \<and> pool s' (rotate1 xs)) \<and>
     (\<forall>s xs x s'. pool s xs \<longrightarrow> so_remove ops x s = Some s' \<longrightarrow> pool s' (remove1 x xs))"

lemma rr_in_turn: "in_turn rr_publish rr_pool"
  unfolding in_turn_def
proof (intro conjI allI impI)
  fix s :: "'x lwp_state" and xs x s'
  assume "rr_pool s xs"
  from rr_next_ok [OF this] show "so_next rr_publish s = Some (x, s') \<Longrightarrow> x = first_of xs"
    and "so_next rr_publish s = Some (x, s') \<Longrightarrow> rr_pool s' (rotate1 xs)"
    by (auto simp: rr_publish_def)
  from rr_remove_ok [OF \<open>rr_pool s xs\<close>, of x] show "so_remove rr_publish x s = Some s' \<Longrightarrow> rr_pool s' (remove1 x xs)"
    by (auto simp: rr_publish_def)
qed

lemma sched_step_trans: "sched_step s s' \<Longrightarrow> sched_step s' s'' \<Longrightarrow> sched_step s s''"
  unfolding frame_def sched_statics_def by (cases s; cases s'; cases s'') simp

lemma sched_step_alloc: "sched_step s s' \<Longrightarrow> threads s' p = None \<longleftrightarrow> threads s p = None"
  unfolding frame_def by (metis option.map_disc_iff)

lemma sched_step_current: "sched_step s s' \<Longrightarrow> current_scheduler s' = current_scheduler s"
  unfolding frame_def sched_statics_def by (cases s; cases s') simp

context separate_scheduler
begin

text \<open>The steps of the loop, on the side of the old scheduler: take a thread out, and pick the next one.\<close>

lemma takes_out:
  assumes "pool s xs" and "x \<in> set xs"
  shows "\<exists>s' ys. so_remove ops x s = Some s' \<and> pool s' ys \<and> set ys = set xs - {x} \<and> confined rest (set xs) s s' \<and>
    (in_turn ops pool \<longrightarrow> ys = remove1 x xs)"
proof -
  obtain s' ys where r: "so_remove ops x s = Some s'" "pool s' ys" "set ys = set xs - {x}"
    using remove_ok [OF assms] by blast
  have "set (remove1 x xs) = set xs - {x}" using pool_distinct [OF assms(1)] by (simp add: set_remove1_eq)
  moreover have "in_turn ops pool \<Longrightarrow> pool s' (remove1 x xs)" using assms(1) r(1) unfolding in_turn_def by blast
  ultimately show ?thesis using r remove_confined [OF assms r(1)] by (cases "in_turn ops pool") blast+
qed

lemma picks:
  assumes "pool s xs"
  shows "\<exists>x s' ys. so_next ops s = Some (x, s') \<and> pool s' ys \<and> set ys = set xs \<and> confined rest (set xs) s s' \<and>
    (if xs = [] then x = NULL else x \<in> set xs) \<and> (in_turn ops pool \<longrightarrow> x = first_of xs \<and> ys = rotate1 xs)"
proof -
  obtain x s' ys where n: "so_next ops s = Some (x, s')" "pool s' ys" "set ys = set xs"
    "if xs = [] then x = NULL else x \<in> set xs" using next_ok [OF assms] by blast
  have "in_turn ops pool \<Longrightarrow> x = first_of xs \<and> pool s' (rotate1 xs)" using assms n(1) unfolding in_turn_def by blast
  then show ?thesis using n next_confined [OF assms n(1)] by (cases "in_turn ops pool") (metis set_rotate1, blast)
qed

lemma takes_in:
  assumes "pool s xs" and "threads s x \<noteq> None" and "x \<noteq> NULL" and "x \<notin> set xs"
  shows "\<exists>s'. so_admit ops x s = Some s' \<and> pool s' (xs @ [x]) \<and> confined rest (insert x (set xs)) s s'"
proof -
  obtain c where c: "threads s x = Some c" using assms(2) by auto
  obtain s' where "so_admit ops x s = Some s'" using admit_ok [OF assms(1) c assms(3,4)] by blast
  with admit_appends [OF assms(1) c assms(3,4)] show ?thesis by blast
qed

text \<open>Steps of the other scheduler leave the pool alone.\<close>

lemma pool_untouched:
  assumes "pool s xs" and "confined rest' A s s'" and "apart rest' own" and "set xs \<inter> A = {}"
  shows "pool s' xs"
proof (rule pool_own [OF assms(1)])
  show "own s' = own s" using confined_rest [OF assms(2)] assms(3) unfolding apart_def by blast
  show "map_option sched_fields (threads s' p) = map_option sched_fields (threads s p)" if "p \<in> set xs" for p
  proof -
    have "threads s' p = threads s p" by (rule confined_other [OF assms(2)]) (use assms(4) that in blast)
    then show ?thesis by simp
  qed
qed

end

lemma transfer_ok:
  assumes "separate_scheduler old pool own rest" and "separate_scheduler new pool' own' rest'"
    and "apart rest own'" and "apart rest' own"
    and "pool s xs" and "pool' s ys" and "set xs \<inter> set ys = {}" and "\<forall>p\<in>set xs. threads s p \<noteq> None"
    and "if xs = [] then x = NULL else x \<in> set xs"
  shows "\<exists>s' order. transfer_threads old new (length xs) x s = Some s' \<and> pool s' [] \<and> pool' s' (ys @ order) \<and>
    set order = set xs \<and> sched_step s s' \<and>
    (\<forall>zs. in_turn old pool \<and> xs = rotate1 zs \<and> x = first_of zs \<longrightarrow> order = zs)"
  using assms(5-)
proof (induction "length xs" arbitrary: s xs ys x)
  case 0
  moreover have "[] = rotate1 zs \<longleftrightarrow> zs = []" for zs :: "addr list" by (cases zs) simp_all
  ultimately show ?case by (intro exI [of _ s] exI [of _ "[]"]) simp
next
  case (Suc n)
  then have ne: "xs \<noteq> []" and x: "x \<in> set xs" by (auto split: if_splits)
  note sep = assms(1,2)
  have distinct: "distinct xs" "NULL \<notin> set xs" "x \<noteq> NULL"
    using scheduler_contract.pool_distinct [OF separate_scheduler.axioms(1) [OF sep(1)] Suc.prems(1)] x by auto
  from separate_scheduler.takes_out [OF sep(1) Suc.prems(1) x] obtain s1 xs1 where
    r: "so_remove old x s = Some s1" "pool s1 xs1" "set xs1 = set xs - {x}" "confined rest (set xs) s s1"
      "in_turn old pool \<Longrightarrow> xs1 = remove1 x xs" by blast
  have "pool' s1 ys" by (rule separate_scheduler.pool_untouched [OF sep(2) Suc.prems(2) r(4) assms(3)]) (use Suc.prems(3) in blast)
  moreover have "threads s1 x \<noteq> None" using Suc.prems(4) x sched_step_alloc [OF confined_step [OF r(4)]] by metis
  moreover have "x \<notin> set ys" using Suc.prems(3) x by blast
  ultimately obtain s2 where
    a: "so_admit new x s1 = Some s2" "pool' s2 (ys @ [x])" "confined rest' (insert x (set ys)) s1 s2"
    using separate_scheduler.takes_in [OF sep(2) _ _ distinct(3)] by blast
  have "pool s2 xs1"
    by (rule separate_scheduler.pool_untouched [OF sep(1) r(2) a(3) assms(4)]) (use Suc.prems(3) r(3) in auto)
  from separate_scheduler.picks [OF sep(1) this] obtain y s3 xs3 where
    n: "so_next old s2 = Some (y, s3)" "pool s3 xs3" "set xs3 = set xs1" "confined rest (set xs1) s2 s3"
      "if xs1 = [] then y = NULL else y \<in> set xs1" "in_turn old pool \<Longrightarrow> y = first_of xs1 \<and> xs3 = rotate1 xs1" by blast
  have "pool' s3 (ys @ [x])"
    by (rule separate_scheduler.pool_untouched [OF sep(2) a(2) n(4) assms(3)]) (use Suc.prems(3) r(3) in auto)
  have "distinct xs3" using scheduler_contract.pool_distinct [OF separate_scheduler.axioms(1) [OF sep(1)] n(2)] by simp
  then have "length xs3 = card (set xs - {x})" using n(3) r(3) by (metis distinct_card)
  then have len: "length xs3 = n" using distinct(1) x Suc.hyps(2) by (simp add: distinct_card)
  have steps: "sched_step s s3" using r(4) a(3) n(4) by (meson confined_step sched_step_trans)
  have alloc: "\<forall>p\<in>set xs3. threads s3 p \<noteq> None"
    using Suc.prems(4) n(3) r(3) sched_step_alloc [OF steps] by auto
  have next': "if xs3 = [] then y = NULL else y \<in> set xs3" using n(3,5) by (auto split: if_splits)
  have "set xs3 \<inter> set (ys @ [x]) = {}" using Suc.prems(3) n(3) r(3) by auto
  from Suc.hyps(1) [OF len [symmetric] n(2) \<open>pool' s3 (ys @ [x])\<close> this alloc next'] obtain s' order where
    t: "transfer_threads old new (length xs3) y s3 = Some s'" "pool s' []" "pool' s' ((ys @ [x]) @ order)"
      "set order = set xs3" "sched_step s3 s'"
      "\<And>zs. in_turn old pool \<Longrightarrow> xs3 = rotate1 zs \<Longrightarrow> y = first_of zs \<Longrightarrow> order = zs" by blast
  have "x # order = zs" if turn: "in_turn old pool" "xs = rotate1 zs" "x = first_of zs" for zs
  proof -
    obtain us where us: "zs = x # us" using turn(2,3) ne by (cases zs) simp_all
    then have "xs1 = us" using r(5) [OF turn(1)] turn(2) distinct(1) by (simp add: remove1_append)
    then show ?thesis using t(6) n(6) turn(1) us by blast
  qed
  moreover have "transfer_threads old new (length xs) x s = Some s'"
    using r(1) a(1) n(1) t(1) len by (simp flip: Suc.hyps(2))
  moreover have "sched_step s s'" using steps t(5) by (rule sched_step_trans)
  moreover have "set (x # order) = set xs" using t(4) n(3) r(3) x by auto
  ultimately show ?case using t(2,3) by (intro exI [of _ s'] exI [of _ "x # order"]) simp
qed

lemma hands_over:
  fixes s :: "'x lwp_state"
  assumes cur: "sched_of tbl (current_scheduler s) = Some old" and old: "separate_scheduler old pool own rest"
    and q: "sched_of tbl q = Some new" and new: "separate_scheduler new pool' own' rest'"
    and sides: "apart rest own'" "apart rest' own"
    and pool: "pool s xs" "\<forall>p\<in>set xs. threads s p \<noteq> None" and ready: "so_init new = None \<longrightarrow> pool' s []"
    and fn: "(if fn = NULL_scheduler then RoundRobin else fn) = q" and "q \<noteq> current_scheduler s"
  shows "\<exists>s' order. lwp_set_scheduler tbl fn s = Some s' \<and> current_scheduler s' = q \<and> pool' s' order \<and>
    distinct order \<and> set order = set xs \<and> (in_turn old pool \<longrightarrow> order = xs) \<and>
    (current_scheduler s = RoundRobin \<longrightarrow> rr_pool s' []) \<and>
    sched_step s (s'\<lparr>current_scheduler := current_scheduler s\<rparr>)"
proof -
  note sep = old new
  have "\<exists>s1. (case so_init new of None \<Rightarrow> Some s | Some f \<Rightarrow> f s) = Some s1 \<and> pool' s1 [] \<and> confined rest' {} s s1"
  proof (cases "so_init new")
    case None
    then show ?thesis using ready by (simp add: confined_def)
  next
    case (Some f)
    then show ?thesis using separate_scheduler.init_ok [OF new] by simp
  qed
  then obtain s1 where
    i: "(case so_init new of None \<Rightarrow> Some s | Some f \<Rightarrow> f s) = Some s1" "pool' s1 []" "confined rest' {} s s1" by blast
  have p1: "pool s1 xs" by (rule separate_scheduler.pool_untouched [OF old pool(1) i(3) sides(2)]) simp
  from separate_scheduler.picks [OF old p1] obtain x s2 xs2 where
    n: "so_next old s1 = Some (x, s2)" "pool s2 xs2" "set xs2 = set xs" "confined rest (set xs) s1 s2"
      "if xs = [] then x = NULL else x \<in> set xs" "in_turn old pool \<Longrightarrow> x = first_of xs \<and> xs2 = rotate1 xs" by blast
  have p2: "pool' s2 []" by (rule separate_scheduler.pool_untouched [OF new i(2) n(4) sides(1)]) simp
  have s2: "sched_step s s2" using i(3) n(4) by (meson confined_step sched_step_trans)
  have "\<forall>p\<in>set xs2. threads s2 p \<noteq> None" using pool(2) n(3) sched_step_alloc [OF s2] by simp
  moreover have "if xs2 = [] then x = NULL else x \<in> set xs2" using n(3,5) by (auto split: if_splits)
  moreover have "set xs2 \<inter> set [] = {}" by simp
  ultimately obtain s3 order where
    t: "transfer_threads old new (length xs2) x s2 = Some s3" "pool s3 []" "pool' s3 order" "set order = set xs"
      "sched_step s2 s3" "\<And>zs. in_turn old pool \<Longrightarrow> xs2 = rotate1 zs \<Longrightarrow> x = first_of zs \<Longrightarrow> order = zs"
    using transfer_ok [OF sep sides n(2) p2, of x] unfolding append_Nil n(3) [symmetric] by blast
  have len: "so_qlen old s2 = Some (int (length xs2))"
    by (rule scheduler_contract.qlen_ok [OF separate_scheduler.axioms(1) [OF old] n(2)])
  have "\<exists>s4. (case so_shutdown old of None \<Rightarrow> Some s3 | Some f \<Rightarrow> f s3) = Some s4 \<and> confined rest {} s3 s4 \<and>
    (current_scheduler s = RoundRobin \<longrightarrow> rr_pool s4 [])"
  proof (cases "current_scheduler s = RoundRobin")
    case True
    then have "old = rr_publish" using cur by (simp add: sched_of_def)
    then show ?thesis using separate_scheduler.shutdown_ok [OF old _ t(2)]
      by (auto simp: rr_publish_def rr_pool_def rr_shutdown_def)
  next
    case False
    then show ?thesis using separate_scheduler.shutdown_ok [OF old _ t(2)]
      by (cases "so_shutdown old") (auto simp: confined_def)
  qed
  then obtain s4 where d: "(case so_shutdown old of None \<Rightarrow> Some s3 | Some f \<Rightarrow> f s3) = Some s4" "confined rest {} s3 s4"
    "current_scheduler s = RoundRobin \<Longrightarrow> rr_pool s4 []" by blast
  let ?s' = "s4\<lparr>current_scheduler := q\<rparr>"
  have s4: "sched_step s s4" using s2 t(5) d(2) by (meson confined_step sched_step_trans)
  have same: "current_scheduler s1 = current_scheduler s" "current_scheduler s4 = current_scheduler s"
    using sched_step_current [OF confined_step [OF i(3)]] sched_step_current [OF s4] by simp_all
  have "pool' s4 order" by (rule separate_scheduler.pool_untouched [OF new t(3) d(2) sides(1)]) simp
  then have p': "pool' ?s' order"
    by (rule scheduler_contract.pool_stable [OF separate_scheduler.axioms(1) [OF new]]) (simp add: same_pool_view_def)
  have notnull: "current_scheduler s \<noteq> NULL_scheduler" using cur by (auto simp: sched_of_def)
  have "lwp_set_scheduler tbl fn s = Some ?s'"
    using fn \<open>q \<noteq> current_scheduler s\<close> q cur i(1) n(1) len t(1) d(1) notnull same(1) by (simp add: lwp_set_scheduler_def Let_def)
  moreover have "distinct order"
    using scheduler_contract.pool_distinct [OF separate_scheduler.axioms(1) [OF new] p'] by simp
  moreover have "in_turn old pool \<longrightarrow> order = xs" using n(6) t(6) by blast
  moreover have "current_scheduler s = RoundRobin \<longrightarrow> rr_pool ?s' []" using d(3) by (simp add: rr_pool_def)
  moreover have "?s'\<lparr>current_scheduler := current_scheduler s\<rparr> = s4" using same(2) by simp
  ultimately show ?thesis
    using p' t(4) s4 by (intro exI [of _ ?s'] exI [of _ order]) simp
qed

text \<open>C21: \<open>lwp_set_scheduler\<close> with another scheduler than the current one, for any two schedulers that keep the
  contract \<open>separate_scheduler\<close>, with or without init and shutdown: every thread of the current scheduler's
  pool is handed to the new scheduler exactly once, and the new scheduler is installed; when the current one runs
  its threads in turn, as round robin does, they are handed over in the order in which it would have run them. Round
  robin is left empty. Nothing but the schedulers' fields and variables changes. Asking for the scheduler already in
  use, or for the default while the default is in use, changes nothing.\<close>

theorem set_scheduler_transfers:
  fixes s :: "'x lwp_state"
  assumes cur: "sched_of tbl (current_scheduler s) = Some old" and old: "separate_scheduler old pool own rest"
    and q: "sched_of tbl q = Some new" and new: "separate_scheduler new pool' own' rest'"
    and sides: "apart rest own'" "apart rest' own"
    and pool: "pool s xs" "\<forall>p\<in>set xs. threads s p \<noteq> None" and ready: "so_init new = None \<longrightarrow> pool' s []"
  shows "(\<forall>fn. (if fn = NULL_scheduler then RoundRobin else fn) = current_scheduler s \<longrightarrow> lwp_set_scheduler tbl fn s = Some s) \<and>
    (\<forall>fn. (if fn = NULL_scheduler then RoundRobin else fn) = q \<and> q \<noteq> current_scheduler s \<longrightarrow>
      (\<exists>s' order. lwp_set_scheduler tbl fn s = Some s' \<and> current_scheduler s' = q \<and> pool' s' order \<and>
        distinct order \<and> set order = set xs \<and> (in_turn old pool \<longrightarrow> order = xs) \<and>
        (current_scheduler s = RoundRobin \<longrightarrow> rr_pool s' []) \<and>
        sched_step s (s'\<lparr>current_scheduler := current_scheduler s\<rparr>)))"
proof (intro conjI allI impI)
  fix fn
  assume "(if fn = NULL_scheduler then RoundRobin else fn) = current_scheduler s"
  then show "lwp_set_scheduler tbl fn s = Some s" by (simp add: lwp_set_scheduler_def)
qed (use hands_over [OF cur old q new sides pool ready] in blast)

text \<open>
  A scheduler that keeps a list of its own and marks the threads in its pool with \<open>sched_one\<close>.
\<close>

definition mark_scheduler :: "addr list lwp_state sched_ops" where
  "mark_scheduler = \<lparr>so_init = Some (\<lambda>s. Some (s\<lparr>custom := []\<rparr>)), so_shutdown = Some (\<lambda>s. Some (s\<lparr>custom := []\<rparr>)),
     so_admit = (\<lambda>x s. do { s \<leftarrow> upd x (sched_prev_update (\<lambda>_. 1)) s; Some (s\<lparr>custom := custom s @ [x]\<rparr>) }),
     so_remove = (\<lambda>x s. do { s \<leftarrow> upd x (sched_prev_update (\<lambda>_. 0)) s; Some (s\<lparr>custom := remove1 x (custom s)\<rparr>) }),
     so_next = (\<lambda>s. Some (first_of (custom s), s\<lparr>custom := rotate1 (custom s)\<rparr>)),
     so_qlen = (\<lambda>s. Some (int (length (custom s))))\<rparr>"

definition mark_pool :: "addr list lwp_state \<Rightarrow> addr list \<Rightarrow> bool" where
  "mark_pool s xs \<longleftrightarrow> custom s = xs \<and> distinct xs \<and> NULL \<notin> set xs \<and>
     (\<forall>x\<in>set xs. \<exists>d. map_option sched_fields (threads s x) = Some (1, d))"

lemma mark_upd:
  assumes "threads s x = Some c" and "x \<noteq> NULL"
  shows "upd x (sched_prev_update (\<lambda>_. v)) s = Some (s\<lparr>threads := (threads s)(x \<mapsto> c\<lparr>sched_prev := v\<rparr>)\<rparr>)"
    and "confined rr_vars {x} s (s\<lparr>threads := (threads s)(x \<mapsto> c\<lparr>sched_prev := v\<rparr>), custom := l\<rparr>)"
  using assms by (simp_all add: upd_eq confined_def frame_def sched_statics_def sched_erase_def rr_vars_def)

lemma confined_custom: "confined rr_vars A s (s\<lparr>custom := l\<rparr>)"
  by (simp add: confined_def frame_def sched_statics_def rr_vars_def)

lemma mark_alloc: "mark_pool s xs \<Longrightarrow> x \<in> set xs \<Longrightarrow> \<exists>c. threads s x = Some c"
  by (fastforce simp: mark_pool_def)

lemma mark_separate: "separate_scheduler mark_scheduler mark_pool custom rr_vars"
proof (unfold_locales, goal_cases)
  case (1 s xs x c)
  then show ?case
    by (auto simp: mark_scheduler_def mark_upd(1) mark_pool_def sched_fields_def frame_def sched_statics_def sched_erase_def
        intro!: exI [of _ "xs @ [x]"])
next
  case (2 s xs x)
  then obtain c where c: "threads s x = Some c" "x \<noteq> NULL" using mark_alloc [of s xs x] unfolding mark_pool_def by auto
  with 2 show ?case
    by (auto simp: mark_scheduler_def mark_upd(1) mark_pool_def sched_fields_def frame_def sched_statics_def sched_erase_def
        set_remove1_eq intro!: exI [of _ "remove1 x xs"])
next
  case (3 s xs)
  then show ?case
    by (cases xs) (auto simp: mark_scheduler_def mark_pool_def frame_def sched_statics_def intro!: exI [of _ "rotate1 xs"])
next
  case (6 s xs s')
  then show ?case by (auto simp: mark_pool_def same_pool_view_def)
next
  case (7 s xs x c s')
  then have "s' = s\<lparr>threads := (threads s)(x \<mapsto> c\<lparr>sched_prev := 1\<rparr>), custom := xs @ [x]\<rparr>"
    by (simp add: mark_scheduler_def mark_upd(1) mark_pool_def)
  moreover from this 7 have "mark_pool s' (xs @ [x])" by (auto simp: mark_pool_def sched_fields_def)
  ultimately show ?case using confined_mono [OF mark_upd(2) [OF 7(2,3)]] by blast
next
  case (8 s xs x s')
  then obtain c where c: "threads s x = Some c" "x \<noteq> NULL" using mark_alloc [of s xs x] unfolding mark_pool_def by auto
  then have "s' = s\<lparr>threads := (threads s)(x \<mapsto> c\<lparr>sched_prev := 0\<rparr>), custom := remove1 x xs\<rparr>"
    using 8 by (simp add: mark_scheduler_def mark_upd(1) mark_pool_def)
  then show ?case using confined_mono [OF mark_upd(2) [OF c]] 8(2) by blast
qed (auto simp: mark_scheduler_def mark_pool_def confined_custom)

definition pair_pool_list :: "addr list lwp_state" where
  "pair_pool_list = (lwp_boot (\<lambda>_. 0) no_regs [7])\<lparr>threads := [0x10 \<mapsto> raw_thread\<lparr>sched_prev := 0, sched_next := 0x20\<rparr>,
     0x20 \<mapsto> raw_thread\<lparr>sched_prev := 0x10, sched_next := 0\<rparr>],
     current_scheduler := RoundRobin, sched_head := 0x10, sched_tail := 0x20, scheduler_thread_count := 2\<rparr>"

theorem set_scheduler_transfers_witness:
  "\<exists>s'. lwp_set_scheduler (\<lambda>_. mark_scheduler) (Other_scheduler 3) pair_pool_list = Some s' \<and>
     mark_pool s' [0x10, 0x20] \<and> rr_pool s' []"
proof -
  have pool: "rr_pool pair_pool_list [0x10, 0x20]" by (simp add: rr_pool_def pair_pool_list_def)
  have cur: "sched_of (\<lambda>_. mark_scheduler) (current_scheduler pair_pool_list) = Some rr_publish"
    and q: "sched_of (\<lambda>_. mark_scheduler) (Other_scheduler 3) = Some mark_scheduler"
    by (simp_all add: pair_pool_list_def sched_of_def)
  have sides: "apart custom custom" "apart rr_vars rr_vars" by (simp_all add: apart_def)
  have alloc: "\<forall>p\<in>set [0x10, 0x20]. threads pair_pool_list p \<noteq> None" by (simp add: pair_pool_list_def)
  have init: "so_init mark_scheduler = None \<longrightarrow> mark_pool pair_pool_list []" by (simp add: mark_scheduler_def)
  note T = set_scheduler_transfers [OF cur rr_own.separate_scheduler_axioms q mark_separate sides pool alloc init]
  have "(if Other_scheduler 3 = NULL_scheduler then RoundRobin else Other_scheduler 3) = Other_scheduler 3 \<and>
    Other_scheduler 3 \<noteq> current_scheduler pair_pool_list" and rr: "current_scheduler pair_pool_list = RoundRobin"
    by (simp_all add: pair_pool_list_def)
  from conjunct2 [OF T, THEN spec, THEN mp, OF this(1)]
  have "\<exists>s' order. lwp_set_scheduler (\<lambda>_. mark_scheduler) (Other_scheduler 3) pair_pool_list = Some s' \<and>
      mark_pool s' order \<and> (in_turn (rr_publish :: addr list lwp_state sched_ops) rr_pool \<longrightarrow> order = [0x10, 0x20]) \<and>
      rr_pool s' []"
    using rr by blast
  then show ?thesis using rr_in_turn by blast
qed

end
