(* ===== verification/Lwp_Thread_Props.thy ===== *)
theory Lwp_Thread_Props
  imports Lwp_Props
begin

text \<open>
  The life of one thread: its first frame, being switched away and back, its exit and its reaping,
  and how \<open>tid2thread\<close> finds it.
\<close>

section \<open>Switching\<close>

lemma swap_save:
  assumes "old \<noteq> NULL" and "threads s old = Some c" and "swap_rfiles old new s = Some (pc, s')"
  shows "map_option state (threads s' old) = Some ((cpu s)\<lparr>rsp := rsp (cpu s) - 8, rbp := rsp (cpu s) - 8\<rparr>)"
    and "stack_words s' = (stack_words s)(rsp (cpu s) - 8 := rbp (cpu s))"
  using assms
  by (auto simp: swap_rfiles_def push_frame_def save_rfile_def load_rfile_def leave_ret_def upd_eq Let_def
      bind_eq_Some_conv split: if_splits)

lemma swap_load:
  assumes "new \<noteq> NULL" and "old \<noteq> new" and "threads s new = Some c" and "swap_rfiles old new s = Some (pc, s')"
    and "rbp (state c) \<noteq> rsp (cpu s) - 8" and "rbp (state c) + 8 \<noteq> rsp (cpu s) - 8"
  shows "pc = stack_words s (rbp (state c) + 8)"
    and "cpu s' = (state c)\<lparr>rbp := stack_words s (rbp (state c)), rsp := rbp (state c) + 16\<rparr>"
  using assms
  by (auto simp: swap_rfiles_def push_frame_def save_rfile_def load_rfile_def leave_ret_def upd_def thr_def Let_def
      bind_eq_Some_conv split: if_splits option.splits)

text \<open>C13: A thread that is switched away from and, however much later, switched back to goes on at the
  return address of its call of \<open>swap_rfiles\<close> with every register as it was at that call and the stack
  pointer behind the return address, as if the call had just returned; provided its saved registers and
  the two words it left on top of its stack have not been overwritten.\<close>

theorem switch_resumes:
  assumes "old \<noteq> NULL" and "threads s old \<noteq> None" and "swap_rfiles old new s = Some (pc, s1)"
    and "map_option state (threads s2 old) = map_option state (threads s1 old)"
    and "\<And>a. a = rsp (cpu s) \<or> a = rsp (cpu s) - 8 \<Longrightarrow> stack_words s2 a = stack_words s1 a"
    and "other \<noteq> old" and "swap_rfiles other old s2 = Some (pc2, s3)"
    and "rsp (cpu s2) \<noteq> rsp (cpu s)" and "rsp (cpu s2) \<noteq> rsp (cpu s) + 8"
  shows "pc2 = stack_words s (rsp (cpu s)) \<and> cpu s3 = (cpu s)\<lparr>rsp := rsp (cpu s) + 8\<rparr>"
proof -
  obtain c where c: "threads s old = Some c" using assms(2) by auto
  note sv = swap_save [OF assms(1) c assms(3)]
  obtain d where d: "threads s2 old = Some d" "state d = (cpu s)\<lparr>rsp := rsp (cpu s) - 8, rbp := rsp (cpu s) - 8\<rparr>"
    using assms(4) sv(1) by auto
  have apart: "rbp (state d) \<noteq> rsp (cpu s2) - 8" "rbp (state d) + 8 \<noteq> rsp (cpu s2) - 8"
    using assms(8,9) d(2) by (auto simp: diff_eq_eq eq_diff_eq)
  note ld = swap_load [OF assms(1,6) d(1) assms(7) apart]
  have "stack_words s2 (rsp (cpu s)) = stack_words s (rsp (cpu s))"
    "stack_words s2 (rsp (cpu s) - 8) = rbp (cpu s)"
    using assms(5) sv(2) by simp_all
  then show ?thesis using ld d(2) by simp
qed

section \<open>The first frame\<close>

lemma round_down_16_unat: "unat (round_down_16 a) = 16 * (unat a div 16)"
proof -
  have "unat (a mod 16) = unat a mod 16" by (simp add: unat_mod)
  moreover have "a mod 16 \<le> a" by (simp add: word_le_nat_alt unat_mod)
  then have "unat (a - a mod 16) = unat a - unat (a mod 16)" by (rule unat_sub)
  ultimately show ?thesis
    unfolding round_down_16_def STACK_ALIGNMENT_def by (simp only: minus_mod_eq_mult_div)
qed

lemma frame_bounds:
  fixes base sz :: "64 word"
  assumes fit: "unat base + unat sz < 2 ^ 64" and room: "39 \<le> sz"
  defines "tos \<equiv> round_down_16 (base + sz)"
  shows "base \<le> tos - 24" and "tos \<le> base + sz" and "(tos - 8) mod 16 = 8" and "24 \<le> tos"
proof -
  have sum: "unat (base + sz) = unat base + unat sz" using fit by (simp add: unat_word_ariths)
  have t: "unat tos = 16 * ((unat base + unat sz) div 16)" by (simp add: tos_def round_down_16_unat sum)
  have r: "39 \<le> unat sz" using room by (simp add: word_le_nat_alt)
  have low: "unat base + 24 \<le> unat tos" unfolding t using r by linarith
  then show "24 \<le> tos" by (simp add: word_le_nat_alt)
  then have s24: "unat (tos - 24) = unat tos - 24" by (subst unat_sub) simp_all
  show "base \<le> tos - 24" using low s24 by (simp add: word_le_nat_alt)
  show "tos \<le> base + sz" using t sum by (simp add: word_le_nat_alt)
  have "unat (tos - 8) = unat tos - 8" using \<open>24 \<le> tos\<close> by (subst unat_sub) (simp_all add: word_le_nat_alt)
  then have "unat (tos - 8) = 16 * ((unat base + unat sz) div 16 - 1) + 8" using t low by linarith
  then have "unat (tos - 8) mod 16 = 8" by simp
  then have "unat ((tos - 8) mod 16) = unat (8 :: 64 word)" by (simp add: unat_mod)
  then show "(tos - 8) mod 16 = 8" by (rule word_unat_eq_iff [THEN iffD2])
qed

lemma back8:
  fixes a b :: "64 word"
  shows "b - 24 = a - 8 \<Longrightarrow> a = b - 16" and "b - 16 = a - 8 \<Longrightarrow> a = b - 8" and "b - 24 + 8 = b - 16"
proof -
  show "a = b - 16" if "b - 24 = a - 8"
  proof -
    have "a = (b - 24) + 8" using that by simp
    then show ?thesis by simp
  qed
  show "a = b - 8" if "b - 16 = a - 8"
  proof -
    have "a = (b - 16) + 8" using that by simp
    then show ?thesis by simp
  qed
qed simp

text \<open>What \<open>lwp_create\<close> leaves for the first switch: the saved registers and the first frame on the stack.\<close>

lemma create_prepares:
  assumes "lwp_session tbl mf (lwp_boot m r0 x) s S" and "lwp_allowed (Create e fn arg) s S"
    and "malloc_result e \<noteq> NULL" and "get_stack_size e = Some sz" and "mmap_result e \<noteq> MAP_FAILED" and "sz \<noteq> 0"
    and "other = NULL \<or> threads s other \<noteq> None"
  shows "\<exists>s1 c1. lwp_create tbl e fn arg s = Some (curr_tid s, s1) \<and> threads s1 (malloc_result e) = Some c1 \<and>
    rbp (state c1) = round_down_16 (mmap_result e + sz) - 24 \<and> rdi (state c1) = fn \<and> rsi (state c1) = arg \<and>
    fxsave (state c1) = FPU_INIT \<and> stack_words s1 = first_frame e sz (stack_words s) \<and>
    (other = NULL \<or> threads s1 other \<noteq> None) \<and> other \<noteq> malloc_result e"
proof -
  let ?p = "malloc_result e" and ?c = "new_thread e fn arg (curr_tid s) sz"
  obtain rs ls ws zs where inv: "lwp_inv rr_pool s rs ls ws zs" "uses tbl rr_publish s"
    using rr_session [OF assms(1)] unfolding session_inv_def by blast
  have env: "threads s ?p = None" "curr_tid s \<noteq> - 1" using assms(2) by (simp_all add: env_ok_def)
  from rr.create_ok [of s rs ls ws zs tbl e sz fn arg, OF inv assms(3) env assms(4,6,5)] obtain s1 where
    s1: "lwp_create tbl e fn arg s = Some (curr_tid s, s1)"
      "queue_step (default_scheduler (created e fn arg sz s)) s1" by blast
  have at: "threads (default_scheduler (created e fn arg sz s)) ?p = Some ?c" by (simp add: created_def)
  obtain c1 where c1: "threads s1 ?p = Some c1" "erase_links c1 = erase_links ?c"
    using queue_step_thread [OF s1(2) at] by blast
  have "state c1 = state ?c" using c1(2) by (cases c1; cases ?c; simp add: erase_links_def)
  then have "rbp (state c1) = round_down_16 (mmap_result e + sz) - 24" "rdi (state c1) = fn" "rsi (state c1) = arg"
    "fxsave (state c1) = FPU_INIT"
    by (simp_all add: new_thread_def Let_def)
  moreover have "stack_words s1 = first_frame e sz (stack_words s)"
    using s1(2) by (simp add: queue_step_iff created_def default_scheduler_def)
  moreover have "other = NULL \<or> threads s1 other \<noteq> None"
    using assms(7) queue_step_alloc [OF s1(2), of other] by (auto simp: created_def)
  moreover have "other \<noteq> ?p" using assms(3,7) env(1) by auto
  ultimately show ?thesis using s1(1) c1(1) by blast
qed

text \<open>C12: The first switch to a new thread starts \<open>lwp_wrap\<close> with the function and its argument in the
  argument registers, on a stack aligned as at any function entry, with \<open>lwp_exit\<close> as return address and
  a clean floating point state; the frame lies inside the memory mmap gave. The thread's id is the next
  one. This holds in every session, whatever the registers \<open>r\<close> are when the switch is made, unless the
  thread switched away from has its stack pointer in that frame.\<close>

theorem create_runs_wrapper:
  assumes "lwp_session tbl mf (lwp_boot m r0 x) s S" and "lwp_allowed (Create e fn arg) s S"
    and "malloc_result e \<noteq> NULL" and "get_stack_size e = Some sz" and "mmap_result e \<noteq> MAP_FAILED"
    and "unat (mmap_result e) + unat sz < 2 ^ 64" and "39 \<le> sz"
    and "other = NULL \<or> threads s other \<noteq> None"
    and "tos = round_down_16 (mmap_result e + sz)" and "rsp r \<noteq> tos" "rsp r \<noteq> tos - 8" "rsp r \<noteq> tos - 16"
  shows "\<exists>s1 pc s2. lwp_create tbl e fn arg s = Some (curr_tid s, s1) \<and>
    swap_rfiles other (malloc_result e) (s1\<lparr>cpu := r\<rparr>) = Some (pc, s2) \<and>
    pc = addr_lwp_wrap e \<and> rdi (cpu s2) = fn \<and> rsi (cpu s2) = arg \<and> fxsave (cpu s2) = FPU_INIT \<and>
    stack_words s2 (rsp (cpu s2)) = addr_lwp_exit e \<and> rsp (cpu s2) mod 16 = 8 \<and>
    rsp (cpu s2) = tos - 8 \<and> mmap_result e \<le> tos - 24 \<and> tos \<le> mmap_result e + sz"
proof -
  let ?p = "malloc_result e"
  have "sz \<noteq> 0" using assms(7) by auto
  from create_prepares [OF assms(1-5) this assms(8)] obtain s1 c1 where
    s1: "lwp_create tbl e fn arg s = Some (curr_tid s, s1)" and c1: "threads s1 ?p = Some c1"
    and st: "rbp (state c1) = tos - 24" "rdi (state c1) = fn" "rsi (state c1) = arg" "fxsave (state c1) = FPU_INIT"
    and mem: "stack_words s1 = first_frame e sz (stack_words s)"
    and other: "other = NULL \<or> threads s1 other \<noteq> None" and ne: "other \<noteq> ?p"
    unfolding assms(9) by blast
  let ?s = "s1\<lparr>cpu := r\<rparr>"
  obtain pc s2 where sw: "swap_rfiles other ?p ?s = Some (pc, s2)"
    using swap_ok [of other ?s ?p c1] other assms(3) c1 by auto
  have p1: "threads ?s ?p = Some c1" using c1 by simp
  have a1: "rbp (state c1) \<noteq> rsp (cpu ?s) - 8" "rbp (state c1) + 8 \<noteq> rsp (cpu ?s) - 8"
    using assms(11,12) st(1) back8(1,2) [where a = "rsp r" and b = tos] back8(3) [of tos] by auto
  note ld = swap_load [OF assms(3) ne p1 sw a1]
  have "stack_words s2 = (stack_words s1)(rsp r - 8 := rbp r)"
    using sw by (auto simp: swap_rfiles_def push_frame_def save_rfile_def load_rfile_def leave_ret_def upd_def
        bind_eq_Some_conv Let_def split: if_splits option.splits)
  then have "stack_words s2 (tos - 8) = addr_lwp_exit e" "pc = addr_lwp_wrap e"
    using assms(10) ld(1) st(1) mem by (simp_all add: first_frame_def Let_def assms(9))
  moreover have sp: "rsp (cpu s2) = tos - 8" using ld(2) st(1) by simp
  moreover have "rdi (cpu s2) = fn" "rsi (cpu s2) = arg" "fxsave (cpu s2) = FPU_INIT"
    using ld(2) st(2-4) by simp_all
  moreover have "mmap_result e \<le> tos - 24" "tos \<le> mmap_result e + sz" "(tos - 8) mod 16 = 8"
    using frame_bounds [OF assms(6,7)] unfolding assms(9) by blast+
  ultimately show ?thesis
    using s1 sw by (intro exI [of _ s1] exI [of _ pc] exI [of _ s2] conjI) (simp_all only: sp)
qed

section \<open>Exit and wait\<close>

lemma yield_kinds: "after k s S = Running s' S' \<longleftrightarrow> (\<forall>n. k \<noteq> Exit n) \<and> s' = s \<and> S' = S"
  by (auto simp: after_def split: control.split)

lemma exit_goes_on:
  assumes inv: "lwp_inv rr_pool s rs ls ws zs" and use: "uses tbl rr_publish s"
    and p: "p = curr_thread s" "p \<in> set rs" "view s p = Some (st, t, NULL)"
    and z: "z \<noteq> NULL" "zombies s z = None" and run: "lwp_perform tbl mf (Terminate z code) s S = Some (Running s' S')"
  shows "\<exists>rs'. lwp_inv rr_pool s' rs' (remove1 p ls) (tl ws) (zs @ [(z, p)]) \<and>
    set rs' = set rs - {p} \<union> set (take 1 ws) \<and> view s' = exit_view code p ws (view s) \<and> curr_thread s' \<in> set rs'"
proof -
  have "zrep s zs" using inv by (simp add: lwp_inv_def queues_def)
  then have "z \<notin> fst ` set zs" using zlinked_alloc [of "zombies s" zs NULL z] z(2) by (auto simp: zrep_def)
  from rr.exit_ok [OF inv use p(1) [symmetric] p(2,3) z(1) this, of mf code] obtain s1 rs1 where
    e: "lwp_exit tbl mf z code s = lwp_yield tbl mf s1"
      "lwp_inv rr_pool s1 rs1 (remove1 p ls) (tl ws) (zs @ [(z, p)])"
      "set rs1 = set rs - {p} \<union> set (take 1 ws)" "view s1 = exit_view code p ws (view s)" "curr_thread s1 = p"
      "uses tbl rr_publish s1" by blast
  obtain k where k: "lwp_yield tbl mf s1 = Some (k, s')" "\<forall>n. k \<noteq> Exit n"
    using run e(1) by (auto simp: bind_eq_Some_conv yield_kinds)
  have alloc: "threads s1 p \<noteq> None" using inv_member(1) [OF e(2), of p] by auto
  have "rs1 \<noteq> []"
  proof
    assume "rs1 = []"
    with rr.yield_last [of s1 "remove1 p ls" "tl ws" "zs @ [(z, p)]" tbl _ mf] e(2,5,6) alloc k
    show False by fastforce
  qed
  from rr.yield_ok [OF e(2,6) this, of mf] alloc e(3-5) k(1) show ?thesis by auto
qed

text \<open>C33: When a thread exits and the process goes on, another thread runs; the exiting thread is off the
  pool and the youngest zombie, its status says terminated and carries the low 8 bits of its code; the
  oldest waiting thread, if there is one, is off the waiting queue, back in the pool and told which
  thread to reap; the other waiters keep their order.\<close>

theorem exit_wakes_oldest:
  assumes "lwp_session tbl mf (lwp_boot m r x) s S" and "lwp_allowed (Terminate z code) s S"
    and "curr_thread s \<noteq> NULL" and "z \<noteq> NULL"
    and "lwp_perform tbl mf (Terminate z code) s S = Some (Running s' S')"
  shows "\<exists>rs ws zs st. rr_pool s' rs \<and> waiting.rep s ws \<and> waiting.rep s' (tl ws) \<and> zrep s zs \<and>
    zrep s' (zs @ [(z, curr_thread s)]) \<and> curr_thread s \<notin> set rs \<and> curr_thread s' \<in> set rs \<and>
    map_option status (threads s' (curr_thread s)) = Some st \<and> LWPTERMINATED st \<and> LWPTERMSTAT st = code AND 255 \<and>
    (\<forall>w ws'. ws = w # ws' \<longrightarrow> w \<in> set rs \<and> map_option exited (threads s' w) = Some (curr_thread s))"
proof -
  let ?p = "curr_thread s"
  have inv: "session_inv tbl rr_publish rr_pool s S" by (rule rr_session [OF assms(1)])
  have out: "?p \<notin> S" "zombies s z = None" using assms(2) by simp_all
  from rr.session_running [OF inv out(1) assms(3)] obtain rs ls ws zs st t where
    *: "lwp_inv rr_pool s rs ls ws zs" "uses tbl rr_publish s" "?p \<in> set rs" "view s ?p = Some (st, t, NULL)"
    and "S = inside (view s) ws" .
  have q: "zrep s zs" "waiting.rep s ws" and T: "tidy (view s) (curr_tid s) (set rs) (set ws) (snd ` set zs)"
    using *(1) by (simp_all add: lwp_inv_def queues_def)
  from exit_goes_on [OF *(1,2) refl *(3,4) assms(4) out(2) assms(5)] obtain rs' where
    y: "lwp_inv rr_pool s' rs' (remove1 ?p ls) (tl ws) (zs @ [(z, ?p)])" "set rs' = set rs - {?p} \<union> set (take 1 ws)"
      "view s' = exit_view code ?p ws (view s)" "curr_thread s' \<in> set rs'" by blast
  have q': "rr_pool s' rs'" "waiting.rep s' (tl ws)" "zrep s' (zs @ [(z, ?p)])"
    using y(1) by (simp_all add: lwp_inv_def queues_def)
  note S = tidy_sets [OF T]
  have off: "?p \<notin> set ws" using S *(3) by auto
  have "view s' ?p = Some (MKTERMSTAT LWP_TERM code, t, NULL)"
    using y(3) *(4) off by (cases ws) (simp_all add: exit_view_def Let_def)
  then have st: "map_option status (threads s' ?p) = Some (MKTERMSTAT LWP_TERM code)"
    by (auto simp: view_def facts_def)
  have "w \<in> set rs' \<and> map_option exited (threads s' w) = Some ?p" if ws: "ws = w # ws'" for w ws'
  proof -
    obtain st' t' e' where "view s w = Some (st', t', e')"
      using S(6) ws by (metis UnCI domD list.set_intros(1) prod_cases3)
    moreover have "w \<noteq> ?p" using ws off by auto
    ultimately have "view s' w = Some (st', t', ?p)" using y(3) ws by (simp add: exit_view_def Let_def)
    then show ?thesis using y(2) ws by (auto simp: view_def facts_def)
  qed
  moreover have "?p \<notin> set rs'" using y(2) off by (cases ws) auto
  ultimately show ?thesis
    using q q' st y(4) termstat_code [of code] terminated_codes(1) [of code] by blast
qed

lemma wait_empty_outcome:
  assumes i: "lwp_inv rr_pool s rs ls ws []" and use: "uses tbl rr_publish s"
    and p: "curr_thread s \<in> set rs" "view s (curr_thread s) = Some (st, t, NULL)"
  shows "if length rs \<le> 1 then lwp_wait tbl mf want s = Some (Wait_returns NO_THREAD None, default_scheduler s)
    else (\<exists>pc s' rs'. lwp_wait tbl mf want s = Some (Wait_blocked pc, s') \<and> rr_pool s' rs' \<and>
      waiting.rep s' (ws @ [curr_thread s]) \<and> set rs' = set rs - {curr_thread s} \<and> curr_thread s' \<in> set rs')"
proof (cases "length rs \<le> 1")
  case True
  with rr.wait_pointless [OF i use refl p True] show ?thesis by simp
next
  case False
  then have "1 < length rs" by simp
  from rr.wait_blocks [OF i use refl p this, of mf want] obtain pc s' rs' where
    w: "lwp_wait tbl mf want s = Some (Wait_blocked pc, s')" "lwp_inv rr_pool s' rs' ls (ws @ [curr_thread s]) []"
      "set rs' = set rs - {curr_thread s}" "curr_thread s' \<in> set rs'" by blast
  have "rr_pool s' rs'" "waiting.rep s' (ws @ [curr_thread s])" using w(2) by (simp_all add: lwp_inv_def queues_def)
  with w False show ?thesis by auto
qed

lemma wait_zombie_outcome:
  assumes i: "lwp_inv rr_pool s rs ls ws ((z, d) # zs)" and use: "uses tbl rr_publish s"
    and p: "curr_thread s \<in> set rs" "view s (curr_thread s) = Some (st, t, NULL)" and free: "unclaimed s d"
  shows "\<exists>c. threads s d = Some c \<and> LWPTERMINATED (status c) \<and>
    (if stack c \<noteq> NULL \<and> mf (stack c) (stacksize c)
     then \<exists>s'. lwp_wait tbl mf want s = Some (Wait_exits EXIT_FAILURE, s')
     else \<exists>s'. lwp_wait tbl mf want s =
         Some (Wait_returns (tid c) (if want then Some (LWPTERMSTAT (status c)) else None), s') \<and>
       zrep s' zs \<and> threads s' = (threads s)(d := None) \<and> curr_thread s' = curr_thread s)"
proof -
  have T: "tidy (view s) (curr_tid s) (set rs) (set ws) (snd ` set ((z, d) # zs))" using i by (simp add: lwp_inv_def)
  obtain c where c: "threads s d = Some c" using inv_member(1) [OF i, of d] by auto
  have dead: "LWPTERMINATED (status c)"
    using tidy_facts(1) [OF T, of d "status c" "tid c" "exited c"] c by (simp add: view_def facts_def)
  have free': "e \<noteq> d" if "view s p = Some (st', u, e)" for p st' u e
    using that free by (auto simp: unclaimed_def view_def facts_def)
  show ?thesis
  proof (cases "stack c \<noteq> NULL \<and> mf (stack c) (stacksize c)")
    case True
    with rr.wait_reap_fails [OF i use refl p c, of mf want] c dead show ?thesis by auto
  next
    case unmap: False
    obtain s' where
      w: "lwp_wait tbl mf want s =
          Some (Wait_returns (tid c) (if want then Some (LWPTERMSTAT (status c)) else None), s')"
        "lwp_inv rr_pool s' rs ls ws zs" "threads s' = (threads s)(d := None)" "curr_thread s' = curr_thread s"
      using rr.wait_reaps [of s rs ls ws z d zs tbl "curr_thread s" st t c mf want, OF i use refl p c] unmap free'
      by blast
    have "zrep s' zs" using w(2) by (simp add: lwp_inv_def queues_def)
    with w c dead unmap show ?thesis by auto
  qed
qed

text \<open>C34: \<open>lwp_wait\<close> of a running thread: when there are zombies the oldest is reaped, so that its id and
  the low 8 bits of its status are returned, its structure is freed and it leaves the queue; when there
  is none and no other thread is in the pool it returns \<open>NO_THREAD\<close>; otherwise the thread joins the end
  of the waiting queue, leaves the pool and another one runs.\<close>

theorem wait_outcomes:
  assumes "lwp_session tbl mf (lwp_boot m r x) s S" and "lwp_allowed (Wait want) s S"
    and "curr_thread s \<noteq> NULL"
  shows "\<exists>rs ws zs. rr_pool s rs \<and> waiting.rep s ws \<and> zrep s zs \<and>
    (case zs of
       [] \<Rightarrow> if length rs \<le> 1 then lwp_wait tbl mf want s = Some (Wait_returns NO_THREAD None, default_scheduler s)
         else (\<exists>pc s' rs'. lwp_wait tbl mf want s = Some (Wait_blocked pc, s') \<and> rr_pool s' rs' \<and>
           waiting.rep s' (ws @ [curr_thread s]) \<and> set rs' = set rs - {curr_thread s} \<and> curr_thread s' \<in> set rs')
     | (z, d) # zs' \<Rightarrow> (\<exists>c. threads s d = Some c \<and> LWPTERMINATED (status c) \<and>
         (if stack c \<noteq> NULL \<and> mf (stack c) (stacksize c)
          then \<exists>s'. lwp_wait tbl mf want s = Some (Wait_exits EXIT_FAILURE, s')
          else \<exists>s'. lwp_wait tbl mf want s =
              Some (Wait_returns (tid c) (if want then Some (LWPTERMSTAT (status c)) else None), s') \<and>
            zrep s' zs' \<and> threads s' = (threads s)(d := None) \<and> curr_thread s' = curr_thread s)))"
proof -
  let ?p = "curr_thread s"
  have inv: "session_inv tbl rr_publish rr_pool s S" by (rule rr_session [OF assms(1)])
  have out: "?p \<notin> S" using assms(2) by simp
  from rr.session_running [OF inv out assms(3)] obtain rs ls ws zs st t where
    *: "lwp_inv rr_pool s rs ls ws zs" "uses tbl rr_publish s" "?p \<in> set rs" "view s ?p = Some (st, t, NULL)"
    and "S = inside (view s) ws" .
  have q: "rr_pool s rs" "waiting.rep s ws" "zrep s zs" using *(1) by (simp_all add: lwp_inv_def queues_def)
  show ?thesis
  proof (cases zs)
    case Nil
    with wait_empty_outcome [OF _ *(2,3,4), of ls ws mf want] *(1) q show ?thesis
      by (intro exI [of _ rs] exI [of _ ws] exI [of _ zs]) simp
  next
    case (Cons zd zs')
    obtain z d where zd: "zd = (z, d)" by fastforce
    have i: "lwp_inv rr_pool s rs ls ws ((z, d) # zs')" using *(1) Cons zd by simp
    have "unclaimed s d" using assms(2) q(3) Cons zd by (auto simp: zrep_def oldest_zombie_free_def)
    from wait_zombie_outcome [OF i *(2,3,4) this, of mf want] q Cons zd show ?thesis
      by (intro exI [of _ rs] exI [of _ ws] exI [of _ zs]) simp
  qed
qed

text \<open>C11: In programs in which no thread calls \<open>lwp_wait\<close> while the oldest zombie is promised to a woken waiter
  (the condition \<open>oldest_zombie_free\<close> of the calls of a session, which \<open>lwp_wait\<close> itself does not check), a woken
  waiter, when it runs again, reaps exactly the thread whose exit woke it, and returns that thread's id and the low
  8 bits of its code. Without the condition this fails, as the last
  property of \<open>Lwp_Props\<close> shows.\<close>

theorem resume_reaps_claimed:
  assumes "lwp_session tbl mf (lwp_boot m r x) s S" and "lwp_allowed (Resume want) s S"
  shows "\<exists>d c ys z zs. map_option exited (threads s (curr_thread s)) = Some d \<and> threads s d = Some c \<and>
    LWPTERMINATED (status c) \<and> zrep s (ys @ (z, d) # zs) \<and>
    (if stack c \<noteq> NULL \<and> mf (stack c) (stacksize c)
     then \<exists>s'. lwp_wait_resumed mf want s = Some (Wait_exits EXIT_FAILURE, s')
     else \<exists>s'. lwp_wait_resumed mf want s =
         Some (Wait_returns (tid c) (if want then Some (LWPTERMSTAT (status c)) else None), s') \<and>
       zrep s' (ys @ zs) \<and> threads s' d = None \<and> curr_thread s' = curr_thread s)"
proof -
  let ?p = "curr_thread s"
  have inv: "session_inv tbl rr_publish rr_pool s S" by (rule rr_session [OF assms(1)])
  from rr.resume_setting [OF inv assms(2)] obtain rs ls ws ys z d zs st t c where
    *: "lwp_inv rr_pool s rs ls ws (ys @ (z, d) # zs)" "uses tbl rr_publish s" "view s ?p = Some (st, t, d)" "d \<noteq> NULL"
      "threads s d = Some c" "LWPTERMINATED (status c)"
    and "?p \<in> set rs" and "?p \<notin> set ws" and "S = inside (view s) ws" .
  have q: "zrep s (ys @ (z, d) # zs)" using *(1) by (simp add: lwp_inv_def queues_def)
  have e: "map_option exited (threads s ?p) = Some d" using *(3) by (auto simp: view_def facts_def)
  show ?thesis
  proof (cases "stack c \<noteq> NULL \<and> mf (stack c) (stacksize c)")
    case True
    with rr.resume_fails [OF *(1) refl *(3,4,5), of mf want] e q *(5,6) show ?thesis by fastforce
  next
    case False
    obtain s' where
      w: "lwp_wait_resumed mf want s =
          Some (Wait_returns (tid c) (if want then Some (LWPTERMSTAT (status c)) else None), s')"
        "lwp_inv rr_pool s' rs ls ws (ys @ zs)" "view s' = (view s)(?p \<mapsto> (st, t, NULL), d := None)"
        "curr_thread s' = ?p"
      using rr.resume_ok [of s rs ls ws ys z d zs tbl ?p st t c mf want, OF *(1,2) refl *(3,4,5)] False by blast
    have "zrep s' (ys @ zs)" using w(2) by (simp add: lwp_inv_def queues_def)
    moreover have "threads s' d = None" using w(3) by (simp flip: view_none)
    ultimately show ?thesis using w(1,4) e q *(5,6) False
      by (intro exI [of _ d] exI [of _ c] exI [of _ ys] exI [of _ z] exI [of _ zs]) auto
  qed
qed

section \<open>Finding a thread\<close>

text \<open>The walks over a queue, when at most the thread \<open>p\<close> has the id.\<close>

definition found :: "64 word \<Rightarrow> addr \<Rightarrow> heap \<Rightarrow> addr set \<Rightarrow> addr" where
  "found t p h A = (if p \<in> A \<and> map_option tid (h p) = Some t then p else NULL)"

lemma walk_found:
  assumes step: "\<And>x s. go x s = (if x = NULL then Some NULL
      else do { c \<leftarrow> thr x s; if tid c = t then Some x else go (nxt c) s })"
    and "linked nxt (threads s) xs NULL" and "NULL \<notin> set xs"
    and "\<And>x. x \<in> set xs \<Longrightarrow> map_option tid (threads s x) = Some t \<Longrightarrow> x = p"
  shows "go (first_of xs) s = Some (found t p (threads s) (set xs))"
  using assms(2-4)
proof (induction xs)
  case Nil
  then show ?case by (subst step) (simp add: found_def)
next
  case (Cons x xs)
  then obtain c where c: "threads s x = Some c" "nxt c = first_of xs" by (auto simp: first_of_def)
  have x: "x \<noteq> NULL" "NULL \<noteq> x" using Cons.prems(2) by auto
  have "go (first_of xs) s = Some (found t p (threads s) (set xs))" using Cons by simp
  moreover have "tid c = t \<Longrightarrow> x = p" using Cons.prems(3) [of x] c(1) by simp
  ultimately show ?case using c x by (subst step) (auto simp: found_def thr_eq)
qed

lemma zombie_walk_found:
  assumes "zlinked (zombies s) zs NULL" and "NULL \<notin> fst ` set zs" and "NULL \<notin> snd ` set zs"
    and "\<And>x. x \<in> snd ` set zs \<Longrightarrow> threads s x \<noteq> None"
    and "\<And>x. x \<in> snd ` set zs \<Longrightarrow> map_option tid (threads s x) = Some t \<Longrightarrow> x = p"
  shows "tid_zombie t (first_of (map fst zs)) s = Some (found t p (threads s) (snd ` set zs))"
  using assms
proof (induction zs)
  case Nil
  then show ?case by (subst tid_zombie.simps) (simp add: found_def)
next
  case (Cons z zs)
  obtain q x where z: "z = (q, x)" by fastforce
  then obtain c where c: "threads s x = Some c" using Cons.prems(4) by fastforce
  have q: "q \<noteq> NULL" "zombies s q = Some \<lparr>zombie_thread = x, z_next = first_of (map fst zs)\<rparr>" "x \<noteq> NULL" "NULL \<noteq> x"
    using Cons.prems z by (auto simp: first_of_def hd_map)
  have "tid_zombie t (first_of (map fst zs)) s = Some (found t p (threads s) (snd ` set zs))"
    using Cons z by simp
  moreover have "tid c = t \<Longrightarrow> x = p" using Cons.prems(5) [of x] c z by simp
  ultimately show ?case using c q z by (subst tid_zombie.simps) (auto simp: found_def thr_eq zom_eq)
qed

text \<open>C25: \<open>tid2thread\<close> gives for the id of any thread of a session, be it runnable, waiting or a zombie, that
  thread, and NULL for an id that no thread has.\<close>

theorem tid2thread_finds:
  assumes "lwp_session tbl mf (lwp_boot m r x) s S"
  shows "(threads s p = Some c \<longrightarrow> tid2thread (tid c) s = Some p) \<and>
    ((\<forall>p c. threads s p = Some c \<longrightarrow> tid c \<noteq> t) \<longrightarrow> tid2thread t s = Some NULL)"
proof -
  obtain rs ls ws zs where inv: "lwp_inv rr_pool s rs ls ws zs"
    using rr_session [OF assms] unfolding session_inv_def by blast
  have T: "tidy (view s) (curr_tid s) (set rs) (set ws) (snd ` set zs)" and l: "set ls = set rs \<union> set ws"
    and q: "live.rep s ls" "waiting.rep s ws" "zrep s zs"
    using inv by (simp_all add: lwp_inv_def queues_def)
  note S = tidy_sets [OF T]
  have unique: "y = p" if "map_option tid (threads s y) = Some t" "map_option tid (threads s p) = Some t" for y p t
    using that tidy_unique(1) [OF T, of y _ t _ p _ t] by (auto simp: view_def facts_def)
  have alloc: "threads s x \<noteq> None" if "x \<in> snd ` set zs" for x
    using inv_member(1) [OF inv, of x] that by blast
  have all: "tid2thread t s = Some (if threads s p \<noteq> None \<and> map_option tid (threads s p) = Some t then p else NULL)"
    if only: "\<And>y. map_option tid (threads s y) = Some t \<Longrightarrow> y = p" for t p
  proof -
    have "tid_live t (live_head s) s = Some (found t p (threads s) (set ls))"
      using walk_found [of "tid_live t" t live_next s ls p, OF tid_live.simps] q(1) only
      by (simp add: live.rep_def)
    moreover have "tid_waiting t (waiting_head s) s = Some (found t p (threads s) (set ws))"
      using walk_found [of "tid_waiting t" t wait_next s ws p, OF tid_waiting.simps] q(2) only
      by (simp add: waiting.rep_def)
    moreover have "tid_zombie t (zombies_head s) s = Some (found t p (threads s) (snd ` set zs))"
      using zombie_walk_found [of s zs t p, OF _ _ _ alloc only] q(3) S(7) by (simp add: zrep_def)
    moreover have "p \<in> set ls \<union> snd ` set zs \<longleftrightarrow> threads s p \<noteq> None"
      using inv_member(1) [OF inv, of p] l by auto
    ultimately show ?thesis using S(7) l unfolding tid2thread_def found_def by auto
  qed
  show ?thesis
  proof (intro conjI impI)
    assume "threads s p = Some c"
    then show "tid2thread (tid c) s = Some p" using all [of "tid c" p] unique [of _ "tid c" p] by auto
  next
    assume "\<forall>p c. threads s p = Some c \<longrightarrow> tid c \<noteq> t"
    then show "tid2thread t s = Some NULL" using all [of t NULL] by fastforce
  qed
qed

section \<open>Witnesses\<close>

definition two_threads :: "unit lwp_state" where
  "two_threads = boot0\<lparr>threads := [0x10 \<mapsto> raw_thread, 0x20 \<mapsto> raw_thread\<lparr>state := no_regs\<lparr>rbp := 0x7000\<rparr>\<rparr>],
     cpu := no_regs\<lparr>rbx := 5, rsp := 0x5000, rbp := 0x5100\<rparr>, stack_words := (\<lambda>_. 0)(0x5000 := 0x1234)\<rparr>"

lemma two_swaps:
  "\<exists>pc s1 pc2 s3. swap_rfiles 0x10 0x20 two_threads = Some (pc, s1) \<and> swap_rfiles 0x20 0x10 s1 = Some (pc2, s3) \<and>
     rsp (cpu s1) = 0x7010"
  by (simp add: swap_rfiles_def push_frame_def save_rfile_def load_rfile_def leave_ret_def Let_def upd_def thr_def
      two_threads_def boot0_def lwp_boot_def raw_thread_def no_regs_def)

theorem switch_resumes_witness:
  "\<exists>pc s1 pc2 s3. swap_rfiles 0x10 0x20 two_threads = Some (pc, s1) \<and> swap_rfiles 0x20 0x10 s1 = Some (pc2, s3) \<and>
     pc2 = 0x1234 \<and> rbx (cpu s3) = 5 \<and> rbp (cpu s3) = 0x5100 \<and> rsp (cpu s3) = 0x5008"
proof -
  obtain pc s1 pc2 s3 where s: "swap_rfiles 0x10 0x20 two_threads = Some (pc, s1)"
    "swap_rfiles 0x20 0x10 s1 = Some (pc2, s3)" "rsp (cpu s1) = 0x7010" using two_swaps by blast
  have "pc2 = stack_words two_threads (rsp (cpu two_threads)) \<and>
      cpu s3 = (cpu two_threads)\<lparr>rsp := rsp (cpu two_threads) + 8\<rparr>"
    by (rule switch_resumes [OF _ _ s(1) refl refl _ s(2)]) (simp_all add: s(3) two_threads_def)
  with s show ?thesis by (simp add: two_threads_def)
qed

theorem create_runs_wrapper_witness:
  "\<exists>s1 pc s2. lwp_create no_table (env_at 0x2000 0x10000) 1 2 boot0 = Some (1, s1) \<and>
     swap_rfiles 0 0x2000 (s1\<lparr>cpu := no_regs\<rparr>) = Some (pc, s2) \<and> pc = 0x402000 \<and> rdi (cpu s2) = 1 \<and>
     rsi (cpu s2) = 2 \<and> rsp (cpu s2) = 0x11ff8"
proof -
  have "lwp_session no_table (\<lambda>_ _. False) (lwp_boot (\<lambda>_. 0) no_regs ()) boot0 {}"
    unfolding boot0_def by (rule lwp_session.init)
  moreover have "lwp_allowed (Create (env_at 0x2000 0x10000) 1 2) boot0 {}"
    by (simp add: env_ok_def env_at_def boot0_def lwp_boot_def FIRST_TID_def)
  moreover have "round_down_16 (0x10000 + 8192) = 0x12000"
    by (simp add: round_down_16_def STACK_ALIGNMENT_def)
  ultimately show ?thesis
    using create_runs_wrapper [of no_table "\<lambda>_ _. False" "\<lambda>_. 0" no_regs "()" boot0 "{}" "env_at 0x2000 0x10000"
        1 2 8192 0 "0x12000" no_regs] env_at_stack [of "0x2000" "0x10000"]
    by (auto simp: env_at_def no_regs_def MAP_FAILED_def boot0_def lwp_boot_def FIRST_TID_def)
qed

lemma exit_runs:
  "\<exists>s s'. lwp_script no_table (\<lambda>_ _. False) script0 boot0 {} = Some (s, {0x1000}) \<and> curr_thread s = 0x2000 \<and>
     zombies s 0x9000 = None \<and>
     lwp_perform no_table (\<lambda>_ _. False) (Terminate 0x9000 0x105) s {0x1000} = Some (Running s' {0x1000}) \<and>
     waiting_head s = 0x1000"
  unfolding script0_def
  by (simp add: script_eval)

theorem exit_wakes_oldest_witness:
  "\<exists>s s' :: unit lwp_state. curr_thread s = 0x2000 \<and>
     lwp_perform no_table (\<lambda>_ _. False) (Terminate 0x9000 0x105) s {0x1000} = Some (Running s' {0x1000}) \<and>
     map_option exited (threads s' 0x1000) = Some 0x2000 \<and>
     (\<exists>zs. zrep s' (zs @ [(0x9000, 0x2000)])) \<and>
     (\<exists>st. map_option status (threads s' 0x2000) = Some st \<and> LWPTERMSTAT st = 5)"
proof -
  obtain s s' where s: "lwp_script no_table (\<lambda>_ _. False) script0 boot0 {} = Some (s, {0x1000})"
    "curr_thread s = 0x2000" "zombies s 0x9000 = None" "waiting_head s = 0x1000"
    "lwp_perform no_table (\<lambda>_ _. False) (Terminate 0x9000 0x105) s {0x1000} = Some (Running s' {0x1000})"
    using exit_runs by blast
  have ses: "lwp_session no_table (\<lambda>_ _. False) (lwp_boot (\<lambda>_. 0) no_regs ()) s {0x1000}"
    by (rule script_from_boot [OF s(1)])
  have ok: "lwp_allowed (Terminate 0x9000 0x105) s {0x1000}" using s by simp
  have "curr_thread s \<noteq> NULL" "(0x9000 :: addr) \<noteq> NULL" using s by simp_all
  from exit_wakes_oldest [OF ses ok this s(5)] obtain rs ws zs st where
    w: "waiting.rep s ws" "zrep s' (zs @ [(0x9000, curr_thread s)])"
      "map_option status (threads s' (curr_thread s)) = Some st" "LWPTERMSTAT st = 0x105 AND 255"
      "\<forall>w ws'. ws = w # ws' \<longrightarrow> w \<in> set rs \<and> map_option exited (threads s' w) = Some (curr_thread s)" by blast
  have "ws = 0x1000 # tl ws" using w(1) s(4) by (cases ws) (auto simp: waiting.rep_def)
  with w(5) have "map_option exited (threads s' 0x1000) = Some (curr_thread s)" by blast
  moreover have "LWPTERMSTAT st = 5" using w(4) by simp
  ultimately show ?thesis
    using w(2,3) s(5) unfolding s(2) by (intro exI [of _ s] exI [of _ s'] conjI) (blast intro: s(2))+
qed

text \<open>The second thread exits while nobody waits, so its zombie is unclaimed; the third reaps it.\<close>

lemma reap_runs:
  "\<exists>s. lwp_script no_table (\<lambda>_ _. False) [Start (env_at 0x1000 0), Create (env_at 0x2000 0x10000) 1 2,
       Create (env_at 0x3000 0x20000) 3 4, Yield, Yield, Terminate 0x9000 5] boot0 {} = Some (s, {}) \<and>
     curr_thread s = 0x3000 \<and> zombies_head s = 0x9000 \<and> unclaimed s 0x2000 \<and>
     zombies s 0x9000 = Some \<lparr>zombie_thread = 0x2000, z_next = 0\<rparr> \<and>
     map_option (\<lambda>c. (tid c, status c)) (threads s 0x2000) = Some (2, 0x105)"
  by (simp add: script_eval)

theorem wait_outcomes_witness:
  "\<exists>s :: unit lwp_state. curr_thread s = 0x3000 \<and> (\<exists>s' zs'. lwp_wait no_table (\<lambda>_ _. False) True s =
     Some (Wait_returns 2 (Some 5), s') \<and> zrep s' zs' \<and> threads s' 0x2000 = None)"
proof -
  obtain s where s: "lwp_script no_table (\<lambda>_ _. False) [Start (env_at 0x1000 0), Create (env_at 0x2000 0x10000) 1 2,
       Create (env_at 0x3000 0x20000) 3 4, Yield, Yield, Terminate 0x9000 5] boot0 {} = Some (s, {})"
    "curr_thread s = 0x3000" "zombies_head s = 0x9000" "unclaimed s 0x2000"
    "zombies s 0x9000 = Some \<lparr>zombie_thread = 0x2000, z_next = 0\<rparr>"
    and st: "map_option (\<lambda>c. (tid c, status c)) (threads s 0x2000) = Some (2, 0x105)"
    using reap_runs by blast
  have ses: "lwp_session no_table (\<lambda>_ _. False) (lwp_boot (\<lambda>_. 0) no_regs ()) s {}"
    by (rule script_from_boot [OF s(1)])
  have ok: "lwp_allowed (Wait True) s {}" using s by (simp add: oldest_zombie_free_def)
  have "curr_thread s \<noteq> NULL" using s by simp
  from wait_outcomes [OF ses ok this] obtain rs ws zs where
    z: "zrep s zs" and w: "case zs of
       [] \<Rightarrow> if length rs \<le> 1 then lwp_wait no_table (\<lambda>_ _. False) True s =
           Some (Wait_returns NO_THREAD None, default_scheduler s)
         else (\<exists>pc s' rs'. lwp_wait no_table (\<lambda>_ _. False) True s = Some (Wait_blocked pc, s') \<and> rr_pool s' rs' \<and>
           waiting.rep s' (ws @ [curr_thread s]) \<and> set rs' = set rs - {curr_thread s} \<and> curr_thread s' \<in> set rs')
     | (z, d) # zs' \<Rightarrow> (\<exists>c. threads s d = Some c \<and> LWPTERMINATED (status c) \<and>
         (if stack c \<noteq> NULL \<and> False
          then \<exists>s'. lwp_wait no_table (\<lambda>_ _. False) True s = Some (Wait_exits EXIT_FAILURE, s')
          else \<exists>s'. lwp_wait no_table (\<lambda>_ _. False) True s =
              Some (Wait_returns (tid c) (if True then Some (LWPTERMSTAT (status c)) else None), s') \<and>
            zrep s' zs' \<and> threads s' = (threads s)(d := None) \<and> curr_thread s' = curr_thread s))"
    by blast
  obtain zs' where zs: "zs = (0x9000, 0x2000) # zs'"
    using z s(3,5) by (cases zs) (auto simp: zrep_def)
  obtain c where c: "threads s 0x2000 = Some c" "tid c = 2" "status c = 0x105" using st by auto
  have "LWPTERMSTAT 0x105 = 5" by (simp add: LWPTERMSTAT_def TERMOFFSET_def)
  then show ?thesis using w zs c s(2) by (intro exI [of _ s]) auto
qed

theorem resume_reaps_claimed_witness:
  "\<exists>s :: unit lwp_state. curr_thread s = 0x1000 \<and> (\<exists>d c ys z zs. map_option exited (threads s 0x1000) = Some d \<and>
     threads s d = Some c \<and> (\<exists>s'. lwp_wait_resumed (\<lambda>_ _. False) True s =
       Some (Wait_returns (tid c) (Some (LWPTERMSTAT (status c))), s') \<and> zrep s' (ys @ zs) \<and> threads s' d = None))"
proof -
  have "\<exists>s. lwp_script no_table (\<lambda>_ _. False) (script0 @ [Terminate 0x9000 5, Yield]) boot0 {} = Some (s, {0x1000}) \<and>
     curr_thread s = 0x1000"
    unfolding script0_def
    by (simp add: script_eval)
  then obtain s where s: "lwp_script no_table (\<lambda>_ _. False) (script0 @ [Terminate 0x9000 5, Yield]) boot0 {} =
      Some (s, {0x1000})" "curr_thread s = 0x1000" by blast
  have ses: "lwp_session no_table (\<lambda>_ _. False) (lwp_boot (\<lambda>_. 0) no_regs ()) s {0x1000}"
    by (rule script_from_boot [OF s(1)])
  have ok: "lwp_allowed (Resume True) s {0x1000}" using s(2) by simp
  from resume_reaps_claimed [OF ses ok] s(2) show ?thesis by (intro exI [of _ s]) (simp; blast)
qed

theorem tid2thread_finds_witness:
  "\<exists>s :: unit lwp_state. curr_thread s = 0x2000 \<and> tid2thread 2 s = Some 0x2000 \<and> tid2thread 7 s = Some NULL"
proof -
  have "\<exists>s. lwp_script no_table (\<lambda>_ _. False) script0 boot0 {} = Some (s, {0x1000}) \<and> curr_thread s = 0x2000 \<and>
     map_option tid (threads s 0x2000) = Some 2 \<and> (\<forall>p c. threads s p = Some c \<longrightarrow> tid c \<noteq> 7)"
    unfolding script0_def by (simp add: script_eval)
  then obtain s c where s: "lwp_script no_table (\<lambda>_ _. False) script0 boot0 {} = Some (s, {0x1000})"
    "curr_thread s = 0x2000" "threads s 0x2000 = Some c" "tid c = 2" "\<forall>p c. threads s p = Some c \<longrightarrow> tid c \<noteq> 7"
    by auto
  have ses: "lwp_session no_table (\<lambda>_ _. False) (lwp_boot (\<lambda>_. 0) no_regs ()) s {0x1000}"
    by (rule script_from_boot [OF s(1)])
  from tid2thread_finds [OF ses, of "0x2000" c 7] s(2-5) show ?thesis by auto
qed

end
