(* ===== verification/Dine_Model.thy ===== *)
theory Dine_Model
  imports "HOL-Library.Signed_Division" Libc
begin

text \<open>
  The dining philosophers of Asgn3: dine.c and dine.h. Every statement of \<open>philosopher\<close> that touches
  shared data, and every call of the pthread and semaphore libraries in \<open>main\<close>, is a step; threads
  interleave at these steps. A call of those libraries either does what its documentation says or fails,
  and a step is told which. \<open>NUM_PHILOSOPHERS\<close> is the length of the list of philosophers.
\<close>

section \<open>Constants and data (dine.h)\<close>

definition CHANGING :: int where "CHANGING = 0"
definition EATING :: int where "EATING = 1"
definition THINKING :: int where "THINKING = 2"
definition DEFAULT_CYCLES :: int where "DEFAULT_CYCLES = 1"
definition FORK_INIT_VAL :: nat where "FORK_INIT_VAL = 1"
definition PRINTING_INIT_VAL :: nat where "PRINTING_INIT_VAL = 1"
definition INT_MAX :: int where "INT_MAX = 2147483647"
definition LEADING_SPACE_LEN :: nat where "LEADING_SPACE_LEN = 1"
definition NULL_CHAR_LEN :: nat where "NULL_CHAR_LEN = 1"
definition FIRST_PRINTABLE :: int where "FIRST_PRINTABLE = 33"
definition LAST_PRINTABLE :: int where "LAST_PRINTABLE = 126"
definition PRINTABLE_COUNT :: int where "PRINTABLE_COUNT = LAST_PRINTABLE - FIRST_PRINTABLE + 1"
definition FIRST_PHIL_LABEL :: char where "FIRST_PHIL_LABEL = CHR ''A''"
definition FIRST_FORK_LABEL :: char where "FIRST_FORK_LABEL = CHR ''0''"

definition think_str :: string where "think_str = '' Think ''"
definition eat_str :: string where "eat_str = '' Eat   ''"
definition change_str :: string where "change_str = ''       ''"
definition column_prefix_str :: string where "column_prefix_str = ''| ''"
definition column_border_str :: string where "column_border_str = ''|''"
definition newline :: string where "newline = [CHR 0x0A]"

text \<open>Semaphores by name; the pointers of a philosopher are such names.\<close>

datatype sem = Fork nat | Printing

record philinfo =
  phil_id :: int
  left_fork_index :: nat
  right_fork_index :: nat
  cycles_left :: int
  phil_state :: int
  left_fork :: sem
  right_fork :: sem
  printing_lock :: sem
  holding_left :: bool
  holding_right :: bool

section \<open>Where a philosopher is\<close>

text \<open>
  The sections of \<open>philosopher\<close> that are bracketed by the printing lock, in the order of the code: each
  changes the philosopher's record and prints a row.
\<close>

datatype sec = To_changing | First_fork | Second_fork | To_eating | To_dropping | Drop_right | Drop_left
  | To_thinking | To_terminated

text \<open>
  Where the thread is: before it is created, at the loop test, at the test of its state, at the four
  (in the sections that put down a fork, five) steps of a printing section, at the two waits for forks,
  in \<open>dawdle\<close>, at the end of a cycle, and after its return. \<open>Failed\<close> is after \<open>pthread_exit\<close> with
  \<open>THREAD_FAILURE\<close> and keeps the place where that happened.
\<close>

datatype pc = Unborn | Loop | Enter | Lock sec | Update sec | Release sec | Print sec | Unlock sec
  | Take_first | Take_second | Dawdle_eating | Dawdle_changing | Dawdle_thinking | Next_cycle
  | Done | Failed pc

datatype main_pc = Creating nat | Joining nat | Destroying nat | Exited int

record dine =
  phils :: "philinfo list"
  locs :: "pc list"
  fork_sems :: "nat list"
  printing_sem :: nat
  stdout :: string
  main_at :: main_pc

section \<open>Printing\<close>

definition wrapped_label :: "char \<Rightarrow> int \<Rightarrow> char" where
  "wrapped_label start index =
    (let start_offset = of_char start - FIRST_PRINTABLE;
         unwrapped_offset = start_offset + index;
         wrapped_offset = unwrapped_offset smod PRINTABLE_COUNT
     in char_of (FIRST_PRINTABLE + wrapped_offset))"

text \<open>The buffer \<open>forks_held\<close> for one philosopher among \<open>n\<close>, without its terminating zero.\<close>

definition forks_held :: "nat \<Rightarrow> philinfo \<Rightarrow> string" where
  "forks_held n p =
    (let buf = replicate n (CHR ''-'');
         buf = (if holding_left p
           then buf[left_fork_index p := wrapped_label FIRST_FORK_LABEL (int (left_fork_index p))] else buf)
     in if holding_right p
        then buf[right_fork_index p := wrapped_label FIRST_FORK_LABEL (int (right_fork_index p))] else buf)"

definition state_str :: "int \<Rightarrow> string" where
  "state_str st = (if st = EATING then eat_str else if st = THINKING then think_str else change_str)"

definition print_status_change :: "philinfo list \<Rightarrow> string" where
  "print_status_change philosophers =
     concat (map (\<lambda>p. column_prefix_str @ forks_held (length philosophers) p @ state_str (phil_state p)) philosophers) @
     column_border_str @ newline"

definition label_len :: "nat \<Rightarrow> nat" where
  "label_len n = LEADING_SPACE_LEN + n + length change_str + NULL_CHAR_LEN"

definition print_phil_labels :: "nat \<Rightarrow> string" where
  "print_phil_labels n =
    (let middle = label_len n div 2 - 1;
         label = replicate (label_len n - NULL_CHAR_LEN) (CHR '' '')
     in concat (map (\<lambda>i. column_border_str @ label[middle := wrapped_label FIRST_PHIL_LABEL (int i)]) [0..<n]) @
        column_border_str @ newline)"

definition build_table_border :: "nat \<Rightarrow> string" where
  "build_table_border header_border_len = replicate (header_border_len - NULL_CHAR_LEN) (CHR ''='')"

definition print_table_border :: "nat \<Rightarrow> string \<Rightarrow> string" where
  "print_table_border n header_border =
     concat (map (\<lambda>i. column_border_str @ header_border) [0..<n]) @ column_border_str @ newline"

definition print_table_header :: "nat \<Rightarrow> string \<Rightarrow> string" where
  "print_table_header n header_border =
     print_table_border n header_border @ print_phil_labels n @ print_table_border n header_border"

section \<open>Semaphores\<close>

fun sem_value :: "sem \<Rightarrow> dine \<Rightarrow> nat" where
  "sem_value (Fork k) s = fork_sems s ! k"
| "sem_value Printing s = printing_sem s"

fun put_sem :: "sem \<Rightarrow> nat \<Rightarrow> dine \<Rightarrow> dine" where
  "put_sem (Fork k) v s = s\<lparr>fork_sems := (fork_sems s)[k := v]\<rparr>"
| "put_sem Printing v s = s\<lparr>printing_sem := v\<rparr>"

definition goto :: "nat \<Rightarrow> pc \<Rightarrow> dine \<Rightarrow> dine" where
  "goto i p s = s\<lparr>locs := (locs s)[i := p]\<rparr>"

text \<open>Thread \<open>i\<close> fails where it is.\<close>

definition thread_failure :: "nat \<Rightarrow> dine \<Rightarrow> dine" where
  "thread_failure i s = goto i (Failed (locs s ! i)) s"

text \<open>\<open>None\<close>: the thread cannot move, because the semaphore is zero. \<open>p\<close> is where it goes on.\<close>

definition sem_wait :: "bool \<Rightarrow> nat \<Rightarrow> sem \<Rightarrow> pc \<Rightarrow> dine \<Rightarrow> dine option" where
  "sem_wait ok i m p s =
    (if \<not> ok then Some (thread_failure i s)
     else case sem_value m s of 0 \<Rightarrow> None | Suc v \<Rightarrow> Some (goto i p (put_sem m v s)))"

definition sem_post :: "bool \<Rightarrow> nat \<Rightarrow> sem \<Rightarrow> pc \<Rightarrow> dine \<Rightarrow> dine option" where
  "sem_post ok i m p s =
    (if \<not> ok then Some (thread_failure i s)
     else Some (goto i p (put_sem m (Suc (sem_value m s)) s)))"

section \<open>The philosopher thread\<close>

fun update_info :: "sec \<Rightarrow> philinfo \<Rightarrow> philinfo" where
  "update_info To_changing p = p\<lparr>phil_state := CHANGING\<rparr>"
| "update_info First_fork p = (if phil_id p mod 2 = 0 then p\<lparr>holding_right := True\<rparr> else p\<lparr>holding_left := True\<rparr>)"
| "update_info Second_fork p = (if phil_id p mod 2 = 0 then p\<lparr>holding_left := True\<rparr> else p\<lparr>holding_right := True\<rparr>)"
| "update_info To_eating p = p\<lparr>phil_state := EATING\<rparr>"
| "update_info To_dropping p = p\<lparr>phil_state := CHANGING\<rparr>"
| "update_info Drop_right p = p\<lparr>holding_right := False\<rparr>"
| "update_info Drop_left p = p\<lparr>holding_left := False\<rparr>"
| "update_info To_thinking p = p\<lparr>phil_state := THINKING\<rparr>"
| "update_info To_terminated p = p\<lparr>phil_state := CHANGING\<rparr>"

text \<open>Where the thread goes on after a section.\<close>

fun after_sec :: "sec \<Rightarrow> pc" where
  "after_sec To_changing = Take_first"
| "after_sec First_fork = Take_second"
| "after_sec Second_fork = Lock To_eating"
| "after_sec To_eating = Dawdle_eating"
| "after_sec To_dropping = Dawdle_changing"
| "after_sec Drop_right = Lock Drop_left"
| "after_sec Drop_left = Lock To_thinking"
| "after_sec To_thinking = Dawdle_thinking"
| "after_sec To_terminated = Done"

text \<open>Which fork: even philosophers begin on the right, odd ones on the left; all put down the right one first.\<close>

definition first_fork :: "philinfo \<Rightarrow> sem" where
  [simp]: "first_fork p = (if phil_id p mod 2 = 0 then right_fork p else left_fork p)"

definition second_fork :: "philinfo \<Rightarrow> sem" where
  [simp]: "second_fork p = (if phil_id p mod 2 = 0 then left_fork p else right_fork p)"

definition fork_put_down :: "sec \<Rightarrow> philinfo \<Rightarrow> sem" where
  [simp]: "fork_put_down c p = (if c = Drop_right then right_fork p else left_fork p)"

definition philosopher_step :: "bool \<Rightarrow> nat \<Rightarrow> dine \<Rightarrow> dine option" where
  "philosopher_step ok i s =
    (let p = phils s ! i in
     case locs s ! i of
       Unborn \<Rightarrow> None
     | Loop \<Rightarrow> Some (goto i (if cycles_left p > 0 then Enter else Lock To_terminated) s)
     | Enter \<Rightarrow> Some (goto i (if phil_state p \<noteq> CHANGING then Lock To_changing else Take_first) s)
     | Lock c \<Rightarrow> sem_wait ok i (printing_lock p) (Update c) s
     | Update c \<Rightarrow> Some (goto i (if c = Drop_right \<or> c = Drop_left then Release c else Print c)
         (s\<lparr>phils := (phils s)[i := update_info c p]\<rparr>))
     | Release c \<Rightarrow> sem_post ok i (fork_put_down c p) (Print c) s
     | Print c \<Rightarrow> Some (goto i (Unlock c) (s\<lparr>stdout := stdout s @ print_status_change (phils s)\<rparr>))
     | Unlock c \<Rightarrow> sem_post ok i (printing_lock p) (after_sec c) s
     | Take_first \<Rightarrow> sem_wait ok i (first_fork p) (Lock First_fork) s
     | Take_second \<Rightarrow> sem_wait ok i (second_fork p) (Lock Second_fork) s
     | Dawdle_eating \<Rightarrow> Some (goto i (Lock To_dropping) s)
     | Dawdle_changing \<Rightarrow> Some (goto i (Lock Drop_right) s)
     | Dawdle_thinking \<Rightarrow> Some (goto i Next_cycle s)
     | Next_cycle \<Rightarrow> Some (goto i Loop (s\<lparr>phils := (phils s)[i := p\<lparr>cycles_left := cycles_left p - 1\<rparr>]\<rparr>))
     | Done \<Rightarrow> None
     | Failed _ \<Rightarrow> None)"

section \<open>Dawdling\<close>

text \<open>
  \<open>dawdle\<close> changes no shared data, so in a step it is only a place. Here is the time it asks \<open>nanosleep\<close>
  for when \<open>random\<close> gives \<open>r\<close>. The code divides in \<open>double\<close> and truncates; as \<open>RAND_MAX\<close> is a prime, the
  exact quotient is an integer only at the ends of the range and elsewhere at least \<open>1 / RAND_MAX\<close> away
  from one, far more than the rounding error, so truncation gives the integer quotient.
\<close>

definition DAWDLEFACTOR :: int where "DAWDLEFACTOR = 1000"
definition RAND_MAX :: int where "RAND_MAX = 2147483647"

definition dawdle_nsec :: "int \<Rightarrow> int" where
  "dawdle_nsec r = (let msec = r * DAWDLEFACTOR div RAND_MAX in 1000000 * msec)"

text \<open>\<open>nanosleep\<close> fails with \<open>EINVAL\<close> for a \<open>tv_nsec\<close> outside this range.\<close>

definition nanosleep_accepts :: "int \<Rightarrow> bool" where
  "nanosleep_accepts nsec \<longleftrightarrow> 0 \<le> nsec \<and> nsec \<le> 999999999"

section \<open>The main thread\<close>

text \<open>The number of cycles that \<open>main\<close> takes from its arguments, or \<open>None\<close> for a usage error.\<close>

definition parse_cycles :: "string list \<Rightarrow> int option" where
  "parse_cycles argv =
    (if length argv > 2 then None
     else if length argv = 2 then
       (let (value, rest, errno_set) = strtol (argv ! 1) in
        if errno_set \<or> rest \<noteq> [] \<or> value \<le> 0 \<or> value > INT_MAX then None else Some value)
     else Some DEFAULT_CYCLES)"

definition init_philosopher :: "nat \<Rightarrow> int \<Rightarrow> nat \<Rightarrow> philinfo" where
  "init_philosopher n cycle i =
    (let left_fork_index = i; right_fork_index = (i + 1) mod n in
     \<lparr>phil_id = int i, left_fork_index = left_fork_index, right_fork_index = right_fork_index,
      cycles_left = cycle, phil_state = CHANGING, left_fork = Fork left_fork_index,
      right_fork = Fork right_fork_index, printing_lock = Printing, holding_left = False,
      holding_right = False\<rparr>)"

definition header_border :: "nat \<Rightarrow> string" where
  "header_border n = build_table_border (LEADING_SPACE_LEN + n + length change_str + NULL_CHAR_LEN)"

text \<open>Up to the loop that creates the threads, when every \<open>sem_init\<close> succeeds.\<close>

definition dine_init :: "nat \<Rightarrow> int \<Rightarrow> dine" where
  "dine_init n cycle =
    (let philosophers = map (init_philosopher n cycle) [0..<n] in
     \<lparr>phils = philosophers, locs = replicate n Unborn, fork_sems = replicate n FORK_INIT_VAL,
      printing_sem = PRINTING_INIT_VAL,
      stdout = print_table_header n (header_border n) @ print_status_change philosophers,
      main_at = Creating 0\<rparr>)"

text \<open>The start of \<open>main\<close>: an exit code, or the state in which it begins to create threads.\<close>

definition main_start :: "nat \<Rightarrow> bool \<Rightarrow> (nat \<Rightarrow> bool) \<Rightarrow> string list \<Rightarrow> int + dine" where
  "main_start n time_ok sem_init_ok argv =
    (if \<not> time_ok then Inl EXIT_FAILURE
     else case parse_cycles argv of
       None \<Rightarrow> Inl EXIT_FAILURE
     | Some cycle \<Rightarrow> if list_all sem_init_ok [0..<n + 1] then Inr (dine_init n cycle) else Inl EXIT_FAILURE)"

text \<open>The rest of \<open>main\<close>: creating, joining, destroying the semaphores, and the last border.\<close>

definition main_step :: "bool \<Rightarrow> dine \<Rightarrow> dine option" where
  "main_step ok s =
    (let n = length (phils s) in
     case main_at s of
       Creating i \<Rightarrow>
         (if i < n
          then if ok then Some ((goto i Loop s)\<lparr>main_at := Creating (i + 1)\<rparr>)
               else Some (s\<lparr>main_at := Exited EXIT_FAILURE\<rparr>)
          else Some (s\<lparr>main_at := Joining 0\<rparr>))
     | Joining i \<Rightarrow>
         (if i < n
          then if \<not> ok then Some (s\<lparr>main_at := Exited EXIT_FAILURE\<rparr>)
               else (case locs s ! i of
                   Done \<Rightarrow> Some (s\<lparr>main_at := Joining (i + 1)\<rparr>)
                 | Failed _ \<Rightarrow> Some (s\<lparr>main_at := Exited EXIT_FAILURE\<rparr>)
                 | _ \<Rightarrow> None)
          else Some (s\<lparr>main_at := Destroying 0\<rparr>))
     | Destroying i \<Rightarrow>
         (if i < n + 1
          then if ok then Some (s\<lparr>main_at := Destroying (i + 1)\<rparr>)
               else Some (s\<lparr>main_at := Exited EXIT_FAILURE\<rparr>)
          else Some (s\<lparr>stdout := stdout s @ print_table_border n (header_border n), main_at := Exited 0\<rparr>))
     | Exited _ \<Rightarrow> None)"

section \<open>Interleavings\<close>

datatype actor = Main | Phil nat

text \<open>When \<open>main\<close> has returned or called \<open>exit\<close> the process is gone.\<close>

definition dine_step :: "bool \<Rightarrow> actor \<Rightarrow> dine \<Rightarrow> dine option" where
  "dine_step ok a s =
    (case main_at s of
       Exited _ \<Rightarrow> None
     | _ \<Rightarrow> (case a of
           Main \<Rightarrow> main_step ok s
         | Phil i \<Rightarrow> if i < length (phils s) then philosopher_step ok i s else None))"

text \<open>The states that \<open>n\<close> philosophers with \<open>c\<close> cycles can reach; library calls fail only if \<open>faults\<close>.\<close>

inductive dining :: "bool \<Rightarrow> nat \<Rightarrow> int \<Rightarrow> dine \<Rightarrow> bool" for faults n c where
  start: "dining faults n c (dine_init n c)"
| step: "dining faults n c s \<Longrightarrow> ok \<or> faults \<Longrightarrow> dine_step ok a s = Some s' \<Longrightarrow> dining faults n c s'"

end
