(* ===== verification/Dine_Inv.thy ===== *)
theory Dine_Inv
  imports Dine_Model
begin

text \<open>
  The invariant of the dining philosophers: who has which fork and the printing lock follows from where
  the threads are, and so does what their records show.
\<close>

section \<open>What a place says\<close>

text \<open>0: no forks, 1: the first one, 2: both, 3: only the left one. A failed thread keeps what it had.\<close>

fun sec_stage :: "sec \<Rightarrow> nat" where
  "sec_stage First_fork = 1"
| "sec_stage Second_fork = 2"
| "sec_stage To_eating = 2"
| "sec_stage To_dropping = 2"
| "sec_stage Drop_right = 2"
| "sec_stage Drop_left = 3"
| "sec_stage _ = 0"

fun stage :: "pc \<Rightarrow> nat" where
  "stage (Lock c) = sec_stage c"
| "stage (Update c) = sec_stage c"
| "stage (Release c) = sec_stage c"
| "stage (Print c) = (if c = Drop_right then 3 else if c = Drop_left then 0 else sec_stage c)"
| "stage (Unlock c) = (if c = Drop_right then 3 else if c = Drop_left then 0 else sec_stage c)"
| "stage Take_second = 1"
| "stage Dawdle_eating = 2"
| "stage Dawdle_changing = 2"
| "stage (Failed p) = stage p"
| "stage _ = 0"

text \<open>The same for what the record shows: it is changed in the update step.\<close>

fun sec_shown :: "sec \<Rightarrow> nat" where
  "sec_shown Second_fork = 1"
| "sec_shown To_eating = 2"
| "sec_shown To_dropping = 2"
| "sec_shown Drop_right = 2"
| "sec_shown Drop_left = 3"
| "sec_shown _ = 0"

fun updated_shown :: "sec \<Rightarrow> nat" where
  "updated_shown First_fork = 1"
| "updated_shown Second_fork = 2"
| "updated_shown To_eating = 2"
| "updated_shown To_dropping = 2"
| "updated_shown Drop_right = 3"
| "updated_shown _ = 0"

fun shown :: "pc \<Rightarrow> nat" where
  "shown (Lock c) = sec_shown c"
| "shown (Update c) = sec_shown c"
| "shown (Release c) = updated_shown c"
| "shown (Print c) = updated_shown c"
| "shown (Unlock c) = updated_shown c"
| "shown Take_second = 1"
| "shown Dawdle_eating = 2"
| "shown Dawdle_changing = 2"
| "shown (Failed p) = shown p"
| "shown _ = 0"

definition right_at :: "nat \<Rightarrow> nat \<Rightarrow> bool" where
  "right_at i g \<longleftrightarrow> g = 2 \<or> g = 1 \<and> even i"

definition left_at :: "nat \<Rightarrow> nat \<Rightarrow> bool" where
  "left_at i g \<longleftrightarrow> g = 2 \<or> g = 3 \<or> g = 1 \<and> odd i"

fun has_lock :: "pc \<Rightarrow> bool" where
  "has_lock (Update c) = True"
| "has_lock (Release c) = True"
| "has_lock (Print c) = True"
| "has_lock (Unlock c) = True"
| "has_lock (Failed p) = has_lock p"
| "has_lock _ = False"

fun moods :: "pc \<Rightarrow> int set" where
  "moods (Print To_eating) = {EATING}"
| "moods (Unlock To_eating) = {EATING}"
| "moods Dawdle_eating = {EATING}"
| "moods (Lock To_dropping) = {EATING}"
| "moods (Update To_dropping) = {EATING}"
| "moods (Print To_thinking) = {THINKING}"
| "moods (Unlock To_thinking) = {THINKING}"
| "moods Dawdle_thinking = {THINKING}"
| "moods Next_cycle = {THINKING}"
| "moods (Lock To_changing) = {THINKING}"
| "moods (Update To_changing) = {THINKING}"
| "moods Loop = {CHANGING, THINKING}"
| "moods Enter = {CHANGING, THINKING}"
| "moods (Lock To_terminated) = {CHANGING, THINKING}"
| "moods (Update To_terminated) = {CHANGING, THINKING}"
| "moods (Failed p) = moods p"
| "moods _ = {CHANGING}"

text \<open>Inside the loop body, and the places that exist.\<close>

fun in_cycle :: "pc \<Rightarrow> bool" where
  "in_cycle (Lock c) = (c \<noteq> To_terminated)"
| "in_cycle (Update c) = (c \<noteq> To_terminated)"
| "in_cycle (Release c) = (c \<noteq> To_terminated)"
| "in_cycle (Print c) = (c \<noteq> To_terminated)"
| "in_cycle (Unlock c) = (c \<noteq> To_terminated)"
| "in_cycle (Failed p) = in_cycle p"
| "in_cycle Unborn = False"
| "in_cycle Loop = False"
| "in_cycle Done = False"
| "in_cycle _ = True"

fun place :: "pc \<Rightarrow> bool" where
  "place (Release c) = (c = Drop_right \<or> c = Drop_left)"
| "place (Failed p) = (place p \<and> (\<forall>q. p \<noteq> Failed q))"
| "place _ = True"

section \<open>The invariant\<close>

definition succ_fork :: "nat \<Rightarrow> nat \<Rightarrow> nat" where
  "succ_fork n i = (i + 1) mod n"

definition prev_phil :: "nat \<Rightarrow> nat \<Rightarrow> nat" where
  "prev_phil n k = (if k = 0 then n - 1 else k - 1)"

definition info_ok :: "nat \<Rightarrow> int \<Rightarrow> nat \<Rightarrow> pc \<Rightarrow> philinfo \<Rightarrow> bool" where
  "info_ok n c i q p \<longleftrightarrow> phil_id p = int i \<and> left_fork_index p = i \<and> right_fork_index p = succ_fork n i \<and>
     left_fork p = Fork i \<and> right_fork p = Fork (succ_fork n i) \<and> printing_lock p = Printing \<and>
     0 \<le> cycles_left p \<and> cycles_left p \<le> c \<and> (in_cycle q \<longrightarrow> 0 < cycles_left p) \<and> place q \<and>
     (holding_right p \<longleftrightarrow> right_at i (shown q)) \<and> (holding_left p \<longleftrightarrow> left_at i (shown q)) \<and>
     phil_state p \<in> moods q"

definition forks_ok :: "nat \<Rightarrow> pc list \<Rightarrow> nat list \<Rightarrow> bool" where
  "forks_ok n L F \<longleftrightarrow> (\<forall>k<n. F ! k + of_bool (left_at k (stage (L ! k))) +
     of_bool (right_at (prev_phil n k) (stage (L ! prev_phil n k))) = 1)"

definition dine_inv :: "nat \<Rightarrow> int \<Rightarrow> dine \<Rightarrow> bool" where
  "dine_inv n c s \<longleftrightarrow> length (phils s) = n \<and> length (locs s) = n \<and> length (fork_sems s) = n \<and>
     (\<forall>i<n. info_ok n c i (locs s ! i) (phils s ! i)) \<and> forks_ok n (locs s) (fork_sems s) \<and>
     printing_sem s + length (filter has_lock (locs s)) = 1"

lemma succ_fork_simps:
  assumes "i < n" and "2 \<le> n"
  shows "succ_fork n i < n" and "succ_fork n i \<noteq> i" and "prev_phil n (succ_fork n i) = i"
    and "k < n \<Longrightarrow> prev_phil n k = i \<longleftrightarrow> k = succ_fork n i" and "prev_phil n i < n" and "prev_phil n i \<noteq> i"
proof -
  consider "i + 1 < n" "succ_fork n i = i + 1" | "i + 1 = n" "succ_fork n i = 0"
    using assms by (cases "i + 1 = n") (auto simp: succ_fork_def)
  then show "succ_fork n i < n" "succ_fork n i \<noteq> i" "prev_phil n (succ_fork n i) = i"
    "k < n \<Longrightarrow> prev_phil n k = i \<longleftrightarrow> k = succ_fork n i" "prev_phil n i < n" "prev_phil n i \<noteq> i"
    using assms by (cases; auto simp: prev_phil_def)+
qed

lemma count_update:
  "i < length L \<Longrightarrow> length (filter P (L[i := q])) + of_bool (P (L ! i)) = length (filter P L) + of_bool (P q)"
proof (induction L arbitrary: i)
  case (Cons a L)
  then show ?case by (cases i) auto
qed simp

lemma count_pos: "i < length L \<Longrightarrow> P (L ! i) \<Longrightarrow> 0 < length (filter P L)"
  by (metis filter_empty_conv length_greater_0_conv nth_mem)

text \<open>A step of thread \<open>i\<close> changes its own bits and at most the forks beside it.\<close>

lemma forks_move:
  assumes F: "forks_ok n L F" and i: "i < n" "2 \<le> n" and L: "length L = n"
    and left: "F' ! i + of_bool (left_at i (stage q)) = F ! i + (of_bool (left_at i (stage (L ! i))) :: nat)"
    and right: "F' ! succ_fork n i + of_bool (right_at i (stage q)) =
      F ! succ_fork n i + (of_bool (right_at i (stage (L ! i))) :: nat)"
    and others: "\<And>k. k < n \<Longrightarrow> k \<noteq> i \<Longrightarrow> k \<noteq> succ_fork n i \<Longrightarrow> F' ! k = F ! k"
  shows "forks_ok n (L[i := q]) F'"
  unfolding forks_ok_def
proof (intro allI impI)
  fix k assume k: "k < n"
  note S = succ_fork_simps [OF i]
  have eq: "F ! k + of_bool (left_at k (stage (L ! k))) +
      of_bool (right_at (prev_phil n k) (stage (L ! prev_phil n k))) = (1 :: nat)"
    using F k by (simp add: forks_ok_def)
  consider "k = i" | "k = succ_fork n i" "k \<noteq> i" | "k \<noteq> i" "k \<noteq> succ_fork n i" by blast
  then show "F' ! k + of_bool (left_at k (stage (L[i := q] ! k))) +
      of_bool (right_at (prev_phil n k) (stage (L[i := q] ! prev_phil n k))) = 1"
  proof cases
    case 1
    then show ?thesis using eq left S(6) L i by simp
  next
    case 2
    then show ?thesis using eq right S(3) L i by simp
  next
    case 3
    then have "prev_phil n k \<noteq> i" using S(4) [OF k] by simp
    then show ?thesis using eq others [OF k 3] 3 by simp
  qed
qed

lemma inv_move:
  assumes inv: "dine_inv n c s" and i: "i < n" "2 \<le> n"
    and s': "locs s' = (locs s)[i := q]" "phils s' = (phils s)[i := p]" "length (fork_sems s') = n"
    and info: "info_ok n c i q p"
    and left: "fork_sems s' ! i + of_bool (left_at i (stage q)) =
      fork_sems s ! i + (of_bool (left_at i (stage (locs s ! i))) :: nat)"
    and right: "fork_sems s' ! succ_fork n i + of_bool (right_at i (stage q)) =
      fork_sems s ! succ_fork n i + (of_bool (right_at i (stage (locs s ! i))) :: nat)"
    and others: "\<And>k. k < n \<Longrightarrow> k \<noteq> i \<Longrightarrow> k \<noteq> succ_fork n i \<Longrightarrow> fork_sems s' ! k = fork_sems s ! k"
    and lock: "printing_sem s' + of_bool (has_lock q) = printing_sem s + of_bool (has_lock (locs s ! i))"
  shows "dine_inv n c s'"
proof -
  have len: "length (phils s) = n" "length (locs s) = n" using inv by (simp_all add: dine_inv_def)
  have "info_ok n c k (locs s' ! k) (phils s' ! k)" if "k < n" for k
    using that info inv s' len by (cases "k = i") (simp_all add: dine_inv_def)
  moreover have "forks_ok n (locs s') (fork_sems s')"
    unfolding s' by (rule forks_move [OF _ i len(2) left right others]) (use inv in \<open>simp add: dine_inv_def\<close>)
  moreover have "printing_sem s' + length (filter has_lock (locs s')) = 1"
    using count_update [of i "locs s" has_lock q] lock inv i len s'(1) by (simp add: dine_inv_def)
  ultimately show ?thesis using inv s' len by (simp add: dine_inv_def)
qed

section \<open>Every step keeps it\<close>

lemma info_of:
  assumes "dine_inv n c s" and "i < n"
  shows "info_ok n c i (locs s ! i) (phils s ! i)"
  using assms by (simp add: dine_inv_def)

lemma inv_lengths:
  assumes "dine_inv n c s"
  shows "length (phils s) = n" and "length (locs s) = n" and "length (fork_sems s) = n"
  using assms by (simp_all add: dine_inv_def)

text \<open>A step that touches no semaphore.\<close>

lemma inv_local:
  assumes inv: "dine_inv n c s" and i: "i < n" "2 \<le> n"
    and info: "info_ok n c i q p" and keep: "stage q = stage (locs s ! i)" "has_lock q = has_lock (locs s ! i)"
  shows "dine_inv n c (goto i q (s\<lparr>phils := (phils s)[i := p], stdout := out\<rparr>))"
  by (rule inv_move [OF inv i, where q = q and p = p])
    (use inv keep info in \<open>simp_all add: goto_def dine_inv_def\<close>)

lemma inv_thread_failure:
  assumes inv: "dine_inv n c s" and i: "i < n" "2 \<le> n" and place: "\<forall>q. locs s ! i \<noteq> Failed q"
  shows "dine_inv n c (thread_failure i s)"
proof -
  have "info_ok n c i (Failed (locs s ! i)) (phils s ! i)"
    using info_of [OF inv i(1)] place by (simp add: info_ok_def)
  from inv_local [OF inv i this, of "stdout s"] show ?thesis
    by (simp add: thread_failure_def)
qed

text \<open>Waiting for the printing lock and giving it back.\<close>

lemma inv_lock:
  assumes inv: "dine_inv n c s" and i: "i < n" "2 \<le> n" and here: "\<not> has_lock (locs s ! i)" "\<forall>q. locs s ! i \<noteq> Failed q"
    and q: "has_lock q" "stage q = stage (locs s ! i)" "info_ok n c i q (phils s ! i)"
    and step: "sem_wait ok i Printing q s = Some s'"
  shows "dine_inv n c s'"
proof (cases ok)
  case False
  then show ?thesis using step inv_thread_failure [OF inv i here(2)] by (simp add: sem_wait_def)
next
  case True
  then obtain v where v: "printing_sem s = Suc v" "s' = goto i q (s\<lparr>printing_sem := v\<rparr>)"
    using step by (auto simp: sem_wait_def split: nat.splits)
  show ?thesis
    by (rule inv_move [OF inv i, where q = q and p = "phils s ! i"])
      (use inv v here q in \<open>simp_all add: goto_def dine_inv_def\<close>)
qed

lemma inv_unlock:
  assumes inv: "dine_inv n c s" and i: "i < n" "2 \<le> n" and here: "has_lock (locs s ! i)" "\<forall>q. locs s ! i \<noteq> Failed q"
    and q: "\<not> has_lock q" "stage q = stage (locs s ! i)" "info_ok n c i q (phils s ! i)"
    and step: "sem_post ok i Printing q s = Some s'"
  shows "dine_inv n c s'"
proof (cases ok)
  case False
  then show ?thesis using step inv_thread_failure [OF inv i here(2)] by (simp add: sem_post_def)
next
  case True
  then have v: "s' = goto i q (s\<lparr>printing_sem := Suc (printing_sem s)\<rparr>)"
    using step by (simp add: sem_post_def)
  show ?thesis
    by (rule inv_move [OF inv i, where q = q and p = "phils s ! i"])
      (use inv v here q in \<open>simp_all add: goto_def dine_inv_def\<close>)
qed

text \<open>Taking a fork and putting one down.\<close>

lemma inv_take:
  assumes inv: "dine_inv n c s" and i: "i < n" "2 \<le> n" and here: "\<forall>q. locs s ! i \<noteq> Failed q"
    and q: "has_lock q = has_lock (locs s ! i)" "info_ok n c i q (phils s ! i)"
    and fork: "m = i \<and> left_at i (stage q) \<and> \<not> left_at i (stage (locs s ! i)) \<and>
        right_at i (stage q) = right_at i (stage (locs s ! i)) \<or>
      m = succ_fork n i \<and> right_at i (stage q) \<and> \<not> right_at i (stage (locs s ! i)) \<and>
        left_at i (stage q) = left_at i (stage (locs s ! i))"
    and step: "sem_wait ok i (Fork m) q s = Some s'"
  shows "dine_inv n c s'"
proof (cases ok)
  case False
  then show ?thesis using step inv_thread_failure [OF inv i here] by (simp add: sem_wait_def)
next
  case True
  then obtain v where v: "fork_sems s ! m = Suc v" "s' = goto i q (s\<lparr>fork_sems := (fork_sems s)[m := v]\<rparr>)"
    using step by (auto simp: sem_wait_def split: nat.splits)
  have m: "m < n" using fork i succ_fork_simps(1) [OF i] by blast
  show ?thesis
  proof (rule inv_move [OF inv i, where q = q and p = "phils s ! i"])
    show "fork_sems s' ! i + of_bool (left_at i (stage q)) =
        fork_sems s ! i + (of_bool (left_at i (stage (locs s ! i))) :: nat)"
      using fork v m inv_lengths(3) [OF inv] succ_fork_simps(2) [OF i] by (auto simp: goto_def)
    show "fork_sems s' ! succ_fork n i + of_bool (right_at i (stage q)) =
        fork_sems s ! succ_fork n i + (of_bool (right_at i (stage (locs s ! i))) :: nat)"
      using fork v m inv_lengths(3) [OF inv] succ_fork_simps(2) [OF i] by (auto simp: goto_def)
  qed (use inv v fork q in \<open>auto simp: goto_def dine_inv_def\<close>)
qed

lemma inv_release:
  assumes inv: "dine_inv n c s" and i: "i < n" "2 \<le> n" and here: "\<forall>q. locs s ! i \<noteq> Failed q"
    and q: "has_lock q = has_lock (locs s ! i)" "info_ok n c i q (phils s ! i)"
    and fork: "m = i \<and> \<not> left_at i (stage q) \<and> left_at i (stage (locs s ! i)) \<and>
        right_at i (stage q) = right_at i (stage (locs s ! i)) \<or>
      m = succ_fork n i \<and> \<not> right_at i (stage q) \<and> right_at i (stage (locs s ! i)) \<and>
        left_at i (stage q) = left_at i (stage (locs s ! i))"
    and step: "sem_post ok i (Fork m) q s = Some s'"
  shows "dine_inv n c s'"
proof (cases ok)
  case False
  then show ?thesis using step inv_thread_failure [OF inv i here] by (simp add: sem_post_def)
next
  case True
  then have v: "s' = goto i q (s\<lparr>fork_sems := (fork_sems s)[m := Suc (fork_sems s ! m)]\<rparr>)"
    using step by (simp add: sem_post_def)
  have m: "m < n" using fork i succ_fork_simps(1) [OF i] by blast
  show ?thesis
  proof (rule inv_move [OF inv i, where q = q and p = "phils s ! i"])
    show "fork_sems s' ! i + of_bool (left_at i (stage q)) =
        fork_sems s ! i + (of_bool (left_at i (stage (locs s ! i))) :: nat)"
      using fork v m inv_lengths(3) [OF inv] succ_fork_simps(2) [OF i] by (auto simp: goto_def)
    show "fork_sems s' ! succ_fork n i + of_bool (right_at i (stage q)) =
        fork_sems s ! succ_fork n i + (of_bool (right_at i (stage (locs s ! i))) :: nat)"
      using fork v m inv_lengths(3) [OF inv] succ_fork_simps(2) [OF i] by (auto simp: goto_def)
  qed (use inv v fork q in \<open>auto simp: goto_def dine_inv_def\<close>)
qed

text \<open>The sections, one by one: what the record is after the update, and where the thread goes on.\<close>

lemma even_id: "phil_id p = int i \<Longrightarrow> phil_id p mod 2 = 0 \<longleftrightarrow> even i"
  by (metis even_iff_mod_2_eq_zero even_of_nat_iff)

lemma info_update:
  assumes "info_ok n c i (Update d) p"
  shows "info_ok n c i (if d = Drop_right \<or> d = Drop_left then Release d else Print d) (update_info d p)"
proof -
  have "phil_id p mod 2 = 0 \<longleftrightarrow> even i" using assms by (intro even_id) (simp add: info_ok_def)
  then show ?thesis using assms
    by (cases d) (auto simp: info_ok_def right_at_def left_at_def)
qed

lemma info_after:
  "info_ok n c i (Unlock d) p \<Longrightarrow> info_ok n c i (after_sec d) p"
  "info_ok n c i (Lock d) p \<Longrightarrow> info_ok n c i (Update d) p"
  "info_ok n c i (Release d) p \<Longrightarrow> info_ok n c i (Print d) p"
  "info_ok n c i (Print d) p \<Longrightarrow> info_ok n c i (Unlock d) p"
  "info_ok n c i Take_first p \<Longrightarrow> info_ok n c i (Lock First_fork) p"
  "info_ok n c i Take_second p \<Longrightarrow> info_ok n c i (Lock Second_fork) p"
  "info_ok n c i Dawdle_eating p \<Longrightarrow> info_ok n c i (Lock To_dropping) p"
  "info_ok n c i Dawdle_changing p \<Longrightarrow> info_ok n c i (Lock Drop_right) p"
  "info_ok n c i Dawdle_thinking p \<Longrightarrow> info_ok n c i Next_cycle p"
  by (cases d; auto simp: info_ok_def right_at_def left_at_def)+

lemma stage_after: "stage (after_sec d) = stage (Unlock d)" "\<not> has_lock (after_sec d)"
  by (cases d; simp)+

lemma inv_goto:
  assumes inv: "dine_inv n c s" and i: "i < n" "2 \<le> n"
    and info: "info_ok n c i q (phils s ! i)" and keep: "stage q = stage (locs s ! i)" "has_lock q = has_lock (locs s ! i)"
  shows "dine_inv n c (goto i q s)"
  using inv_local [OF inv i info keep, of "stdout s"] by simp

lemma inv_philosopher:
  assumes inv: "dine_inv n c s" and i: "i < n" "2 \<le> n" and step: "philosopher_step ok i s = Some s'"
  shows "dine_inv n c s'"
proof -
  let ?p = "phils s ! i"
  note info = info_of [OF inv i(1)]
  have P: "phil_id ?p = int i" "left_fork ?p = Fork i" "right_fork ?p = Fork (succ_fork n i)"
      "printing_lock ?p = Printing"
    using info by (simp_all add: info_ok_def)
  have even: "phil_id ?p mod 2 = 0 \<longleftrightarrow> even i" by (rule even_id [OF P(1)])
  note go = inv_goto [OF inv i] and here = step [unfolded philosopher_step_def Let_def]
  show ?thesis
  proof (cases "locs s ! i")
    case Loop
    then have "s' = goto i (if cycles_left ?p > 0 then Enter else Lock To_terminated) s" using here by simp
    then show ?thesis using go info Loop by (simp add: info_ok_def right_at_def left_at_def)
  next
    case Enter
    then have "s' = goto i (if phil_state ?p \<noteq> CHANGING then Lock To_changing else Take_first) s" using here by simp
    then show ?thesis using go info Enter by (auto simp: info_ok_def right_at_def left_at_def)
  next
    case (Lock d)
    have "sem_wait ok i Printing (Update d) s = Some s'" using here P Lock by simp
    then show ?thesis using inv_lock [OF inv i, of "Update d"] info_after(2) [of n c i d ?p] info Lock by simp
  next
    case (Update d)
    let ?q = "if d = Drop_right \<or> d = Drop_left then Release d else Print d"
    have "s' = goto i ?q (s\<lparr>phils := (phils s)[i := update_info d ?p], stdout := stdout s\<rparr>)" using here Update by simp
    then show ?thesis using inv_local [OF inv i, of ?q "update_info d ?p" "stdout s"] info_update info Update by simp
  next
    case (Release d)
    let ?m = "if d = Drop_right then succ_fork n i else i"
    have d: "d = Drop_right \<or> d = Drop_left" using info Release by (simp add: info_ok_def)
    have "sem_post ok i (Fork ?m) (Print d) s = Some s'" using here P Release by (simp split: if_splits)
    then show ?thesis
      using inv_release [OF inv i, of "Print d" ?m] info_after(3) [of n c i d ?p] info Release d
      by (auto simp: right_at_def left_at_def)
  next
    case (Print d)
    have "s' = goto i (Unlock d) (s\<lparr>phils := (phils s)[i := ?p], stdout := stdout s @ print_status_change (phils s)\<rparr>)"
      using here Print by simp
    then show ?thesis using inv_local [OF inv i, of "Unlock d" ?p] info_after(4) [of n c i d ?p] info Print by simp
  next
    case (Unlock d)
    have "sem_post ok i Printing (after_sec d) s = Some s'" using here P Unlock by simp
    then show ?thesis
      using inv_unlock [OF inv i, of "after_sec d"] info_after(1) [of n c i d ?p] info Unlock stage_after by simp
  next
    case Take_first
    let ?m = "if even i then succ_fork n i else i"
    have "sem_wait ok i (Fork ?m) (Lock First_fork) s = Some s'" using here P even Take_first by (simp split: if_splits)
    then show ?thesis
      using inv_take [OF inv i, of "Lock First_fork" ?m] info_after(5) [of n c i ?p] info Take_first
      by (auto simp: right_at_def left_at_def)
  next
    case Take_second
    let ?m = "if even i then i else succ_fork n i"
    have "sem_wait ok i (Fork ?m) (Lock Second_fork) s = Some s'" using here P even Take_second by (simp split: if_splits)
    then show ?thesis
      using inv_take [OF inv i, of "Lock Second_fork" ?m] info_after(6) [of n c i ?p] info Take_second
      by (auto simp: right_at_def left_at_def)
  next
    case Dawdle_eating
    then have "s' = goto i (Lock To_dropping) s" using here by simp
    then show ?thesis using go [of "Lock To_dropping"] info_after(7) info Dawdle_eating by simp
  next
    case Dawdle_changing
    then have "s' = goto i (Lock Drop_right) s" using here by simp
    then show ?thesis using go [of "Lock Drop_right"] info_after(8) info Dawdle_changing by simp
  next
    case Dawdle_thinking
    then have "s' = goto i Next_cycle s" using here by simp
    then show ?thesis using go [of Next_cycle] info_after(9) info Dawdle_thinking by simp
  next
    case Next_cycle
    let ?p' = "?p\<lparr>cycles_left := cycles_left ?p - 1\<rparr>"
    have "s' = goto i Loop (s\<lparr>phils := (phils s)[i := ?p'], stdout := stdout s\<rparr>)" using here Next_cycle by simp
    then show ?thesis using inv_local [OF inv i, of Loop ?p' "stdout s"] info Next_cycle
      by (simp add: info_ok_def right_at_def left_at_def)
  qed (use here in simp_all)
qed

section \<open>The main thread\<close>

text \<open>Which threads exist, and which have returned, as far as \<open>main\<close> knows.\<close>

fun main_ok :: "main_pc \<Rightarrow> pc list \<Rightarrow> bool" where
  "main_ok (Creating j) L \<longleftrightarrow> j \<le> length L \<and> (\<forall>k<length L. L ! k = Unborn \<longleftrightarrow> j \<le> k)"
| "main_ok (Joining j) L \<longleftrightarrow> j \<le> length L \<and> (\<forall>k<length L. L ! k \<noteq> Unborn) \<and> (\<forall>k<j. L ! k = Done)"
| "main_ok (Destroying j) L \<longleftrightarrow> j \<le> length L + 1 \<and> (\<forall>k<length L. L ! k = Done)"
| "main_ok (Exited e) L \<longleftrightarrow> e = 0 \<and> (\<forall>k<length L. L ! k = Done) \<or> e = EXIT_FAILURE"

text \<open>What a step of a philosopher leaves alone.\<close>

fun at_rest :: "pc \<Rightarrow> bool" where
  "at_rest Unborn = True"
| "at_rest Done = True"
| "at_rest (Failed p) = True"
| "at_rest _ = False"

lemma after_sec_born: "after_sec d \<noteq> Unborn"
  by (cases d) simp_all

lemma put_sem_frame [simp]:
  "main_at (put_sem m v s) = main_at s" "phils (put_sem m v s) = phils s"
  "stdout (put_sem m v s) = stdout s" "locs (put_sem m v s) = locs s"
  by (cases m; simp)+

definition same_frame :: "nat \<Rightarrow> dine \<Rightarrow> dine \<Rightarrow> bool" where
  "same_frame i s s' \<longleftrightarrow> main_at s' = main_at s \<and> (\<exists>q. q \<noteq> Unborn \<and> locs s' = (locs s)[i := q]) \<and>
     length (phils s') = length (phils s)"

lemma same_frame_intros:
  "q \<noteq> Unborn \<Longrightarrow> sem_wait ok i m q s = Some s' \<Longrightarrow> same_frame i s s'"
  "q \<noteq> Unborn \<Longrightarrow> sem_post ok i m q s = Some s' \<Longrightarrow> same_frame i s s'"
  "q \<noteq> Unborn \<Longrightarrow> length ps = length (phils s) \<Longrightarrow> same_frame i s (goto i q (s\<lparr>phils := ps\<rparr>))"
  "q \<noteq> Unborn \<Longrightarrow> same_frame i s (goto i q s)"
  "q \<noteq> Unborn \<Longrightarrow> same_frame i s (goto i q (s\<lparr>stdout := out\<rparr>))"
  by (auto simp: same_frame_def sem_wait_def sem_post_def thread_failure_def goto_def split: if_splits nat.splits)

lemma philosopher_frame:
  assumes step: "philosopher_step ok i s = Some s'"
  shows "\<not> at_rest (locs s ! i)" and "main_at s' = main_at s" and "\<exists>q. q \<noteq> Unborn \<and> locs s' = (locs s)[i := q]"
    and "length (phils s') = length (phils s)"
proof -
  note here = step [unfolded philosopher_step_def Let_def]
  show "\<not> at_rest (locs s ! i)" using here by (cases "locs s ! i") simp_all
  have "same_frame i s s'"
    using here
    by (cases "locs s ! i")
      (auto intro!: same_frame_intros(3-) dest: same_frame_intros(1,2) [rotated] simp: after_sec_born split: if_splits)
  then show "main_at s' = main_at s" "\<exists>q. q \<noteq> Unborn \<and> locs s' = (locs s)[i := q]"
    "length (phils s') = length (phils s)" by (simp_all add: same_frame_def)
qed

lemma main_ok_philosopher:
  assumes "main_ok m L" and "\<not> at_rest (L ! i)" and "q \<noteq> Unborn" and "i < length L"
  shows "main_ok m (L[i := q])"
  using assms by (cases m) (auto simp: nth_list_update)

lemma same_dine [simp]:
  "dine_inv n c (s\<lparr>main_at := m\<rparr>) = dine_inv n c s"
  "dine_inv n c (s\<lparr>stdout := out\<rparr>) = dine_inv n c s"
  by (simp_all add: dine_inv_def)

lemma inv_main:
  assumes inv: "dine_inv n c s" and n: "2 \<le> n" and m: "main_ok (main_at s) (locs s)"
    and step: "main_step ok s = Some s'"
  shows "dine_inv n c s' \<and> main_ok (main_at s') (locs s')"
proof -
  note len = inv_lengths [OF inv]
  note here = step [unfolded main_step_def Let_def]
  show ?thesis
  proof (cases "main_at s")
    case (Creating j)
    show ?thesis
    proof (cases "j < n \<and> ok")
      case True
      then have born: "locs s ! j = Unborn" using m Creating len by simp
      have s': "s' = (goto j Loop s)\<lparr>main_at := Creating (j + 1)\<rparr>" using here Creating len True by simp
      have "dine_inv n c (goto j Loop s)"
        using inv_goto [OF inv _ n, of j Loop] info_of [OF inv, of j] True born
        by (auto simp: info_ok_def right_at_def left_at_def)
      then have "dine_inv n c s'" unfolding s' by simp
      moreover have "main_ok (main_at s') (locs s')"
        using m Creating True len by (auto simp: s' goto_def nth_list_update)
      ultimately show ?thesis by simp
    next
      case False
      then have "s' = s\<lparr>main_at := if j < n then Exited EXIT_FAILURE else Joining 0\<rparr>"
        using here Creating len by (auto split: if_splits)
      then show ?thesis using m Creating len False inv by auto
    qed
  next
    case (Joining j)
    show ?thesis using here m Joining len inv
      by (auto split: if_splits pc.splits simp: less_Suc_eq)
  next
    case (Destroying j)
    show ?thesis using here m Destroying len inv
      by (auto split: if_splits)
  next
    case (Exited e)
    then show ?thesis using here by simp
  qed
qed

lemma dine_init_inv:
  assumes "2 \<le> n" and "0 \<le> c"
  shows "dine_inv n c (dine_init n c)" and "main_ok (main_at (dine_init n c)) (locs (dine_init n c))"
proof -
  have "info_ok n c i Unborn (init_philosopher n c i)" if "i < n" for i
    using assms that by (simp add: Let_def info_ok_def init_philosopher_def succ_fork_def right_at_def left_at_def)
  moreover have "forks_ok n (replicate n Unborn) (replicate n FORK_INIT_VAL)"
    using assms succ_fork_simps(5) by (auto simp: forks_ok_def left_at_def right_at_def FORK_INIT_VAL_def)
  ultimately show "dine_inv n c (dine_init n c)"
    by (simp add: dine_inv_def dine_init_def Let_def PRINTING_INIT_VAL_def)
  show "main_ok (main_at (dine_init n c)) (locs (dine_init n c))"
    by (simp add: dine_init_def Let_def)
qed

lemma dine_step_cases:
  assumes "dine_step ok a s = Some s'"
  obtains "a = Main" "main_step ok s = Some s'" "\<nexists>e. main_at s = Exited e"
  | i where "a = Phil i" "i < length (phils s)" "philosopher_step ok i s = Some s'" "\<nexists>e. main_at s = Exited e"
  using assms by (auto simp: dine_step_def split: main_pc.splits actor.splits if_splits)

lemma dining_step_inv:
  assumes inv: "dine_inv n c s" and n: "2 \<le> n" and m: "main_ok (main_at s) (locs s)"
    and step: "dine_step ok a s = Some s'"
  shows "dine_inv n c s' \<and> main_ok (main_at s') (locs s')"
  using step
proof (cases rule: dine_step_cases)
  case 1
  then show ?thesis using inv_main [OF inv n m] by blast
next
  case (2 i)
  then have i: "i < n" using inv_lengths [OF inv] by simp
  obtain q where "q \<noteq> Unborn" "locs s' = (locs s)[i := q]" using philosopher_frame(3) [OF 2(3)] by blast
  then show ?thesis
    using inv_philosopher [OF inv i n 2(3)] philosopher_frame(1,2) [OF 2(3)] main_ok_philosopher [OF m] inv_lengths [OF inv] i
    by simp
qed

lemma dining_inv:
  assumes "dining faults n c s" and "2 \<le> n" and "0 \<le> c"
  shows "dine_inv n c s \<and> main_ok (main_at s) (locs s)"
  using assms(1)
proof induction
  case start
  then show ?case using dine_init_inv assms by simp
next
  case (step s ok a s')
  then show ?case using dining_step_inv assms(2) by blast
qed

end
