(* ===== verification/Dine_Live.thy ===== *)
theory Dine_Live
  imports Dine_Inv
begin

text \<open>
  The dining philosophers make progress: without failing library calls some thread can always move until
  the process has exited, and whatever fails, no run is longer than a fixed bound.
\<close>

section \<open>Nobody fails by himself\<close>

definition nobody_failed :: "dine \<Rightarrow> bool" where
  "nobody_failed s \<longleftrightarrow> (\<forall>i<length (locs s). \<forall>q. locs s ! i \<noteq> Failed q)"

lemma after_sec_fine: "after_sec d \<noteq> Failed q"
  by (cases d) simp_all

lemma philosopher_fine:
  assumes "philosopher_step True i s = Some s'"
  shows "\<exists>q. (\<forall>r. q \<noteq> Failed r) \<and> locs s' = (locs s)[i := q]"
proof -
  note here = assms [unfolded philosopher_step_def Let_def]
  have wait: "sem_wait True i m q s = Some s' \<Longrightarrow> locs s' = (locs s)[i := q]"
    and post: "sem_post True i m q s = Some s' \<Longrightarrow> locs s' = (locs s)[i := q]" for m q
    by (auto simp: sem_wait_def sem_post_def goto_def split: nat.splits)
  show ?thesis
  proof (cases "locs s ! i")
    case (Unlock d)
    then show ?thesis using here post after_sec_fine [of d] by auto
  qed (use here in \<open>auto dest!: wait post simp: goto_def split: if_splits\<close>)
qed

lemma main_fine:
  assumes step: "main_step True s = Some s'" and fine: "nobody_failed s" and len: "length (locs s) = length (phils s)"
  shows "nobody_failed s' \<and> main_at s' \<noteq> Exited EXIT_FAILURE"
proof -
  note here = step [unfolded main_step_def Let_def]
  show ?thesis
  proof (cases "main_at s")
    case (Creating j)
    then show ?thesis using here fine len
      by (auto simp: nobody_failed_def goto_def nth_list_update split: if_splits)
  next
    case (Joining j)
    then have "j < length (phils s) \<Longrightarrow> locs s ! j \<noteq> Failed q" for q using fine len by (simp add: nobody_failed_def)
    then show ?thesis using here fine Joining
      by (cases "locs s ! j") (auto simp: nobody_failed_def split: if_splits)
  qed (use here fine in \<open>auto simp: nobody_failed_def EXIT_FAILURE_def split: if_splits\<close>)
qed

lemma dining_fine:
  assumes "dining False n c s" and "2 \<le> n" and "0 \<le> c"
  shows "nobody_failed s \<and> main_at s \<noteq> Exited EXIT_FAILURE"
  using assms(1)
proof induction
  case start
  show ?case by (simp add: nobody_failed_def dine_init_def Let_def)
next
  case (step s ok a s')
  from step(3) show ?case
  proof (cases rule: dine_step_cases)
    case 1
    then show ?thesis using main_fine [of s s'] step dining_inv [OF step(1) assms(2,3)] inv_lengths [of n c s] by simp
  next
    case (2 i)
    have ok using step(2) by simp
    then obtain q where q: "\<forall>r. q \<noteq> Failed r" "locs s' = (locs s)[i := q]"
      using philosopher_fine [of i s s'] 2(3) by auto
    have "main_at s' = main_at s" using philosopher_frame(2) [OF 2(3)] .
    moreover have "(locs s)[i := q] ! k \<noteq> Failed r" if "k < length (locs s)" for k r
      using step(4) q that by (cases "k = i") (auto simp: nobody_failed_def)
    ultimately show ?thesis using q step(4) by (simp add: nobody_failed_def)
  qed
qed

section \<open>Somebody can move\<close>

fun waits_for :: "nat \<Rightarrow> nat \<Rightarrow> pc \<Rightarrow> sem option" where
  "waits_for n i (Lock d) = Some Printing"
| "waits_for n i Take_first = Some (Fork (if even i then succ_fork n i else i))"
| "waits_for n i Take_second = Some (Fork (if even i then i else succ_fork n i))"
| "waits_for n i _ = None"

lemma blocked_waits:
  assumes inv: "dine_inv n c s" and i: "i < n" and stuck: "philosopher_step True i s = None" and busy: "\<not> at_rest (locs s ! i)"
  shows "\<exists>m. waits_for n i (locs s ! i) = Some m \<and> sem_value m s = 0"
proof -
  have info: "info_ok n c i (locs s ! i) (phils s ! i)" using info_of [OF inv i] .
  then have P: "phil_id (phils s ! i) = int i" "left_fork (phils s ! i) = Fork i"
    "right_fork (phils s ! i) = Fork (succ_fork n i)" "printing_lock (phils s ! i) = Printing"
    by (simp_all add: info_ok_def)
  have wait: "sem_wait True i m q s = None \<Longrightarrow> sem_value m s = 0" and post: "sem_post True i m q s \<noteq> None" for m q
    by (auto simp: sem_wait_def sem_post_def split: nat.splits)
  note here = stuck [unfolded philosopher_step_def Let_def]
  show ?thesis
    using here busy P even_id [OF P(1)] post
    by (cases "locs s ! i") (auto dest!: wait split: if_splits)
qed

text \<open>A thread that waits for its second fork: its neighbour on that side took this fork first.\<close>

lemma fork_taken:
  assumes "dine_inv n c s" and "k < n" and "fork_sems s ! k = 0"
  shows "left_at k (stage (locs s ! k)) \<or> right_at (prev_phil n k) (stage (locs s ! prev_phil n k))"
proof (rule ccontr)
  assume "\<not> ?thesis"
  moreover have "fork_sems s ! k + of_bool (left_at k (stage (locs s ! k))) +
      of_bool (right_at (prev_phil n k) (stage (locs s ! prev_phil n k))) = (1 :: nat)"
    using assms(1,2) by (simp add: dine_inv_def forks_ok_def)
  ultimately show False using assms(3) by simp
qed

lemma second_fork_free:
  assumes inv: "dine_inv n c s" and n: "2 \<le> n" and i: "i < n" and second: "locs s ! i = Take_second"
    and few: "\<And>k. k < n \<Longrightarrow> locs s ! k = Take_second \<or> stage (locs s ! k) = 0"
  shows "\<exists>k<n. \<exists>m. locs s ! k = Take_second \<and> waits_for n k Take_second = Some m \<and> sem_value m s \<noteq> 0"
proof -
  note S = succ_fork_simps [OF i n]
  have F: "left_at k (stage (locs s ! k)) \<or> right_at (prev_phil n k) (stage (locs s ! prev_phil n k))"
    if "k < n" "fork_sems s ! k = 0" for k
    using inv that by (rule fork_taken)
  have bits: "left_at k (stage (locs s ! k)) \<Longrightarrow> odd k" "right_at k (stage (locs s ! k)) \<Longrightarrow> even k \<and> locs s ! k = Take_second"
    if "k < n" for k
    using few [OF that] by (auto simp: left_at_def right_at_def)
  show ?thesis
  proof (cases "even i")
    case False
    have "even (succ_fork n i)"
      using False i by (cases "i + 1 = n") (auto simp: succ_fork_def)
    then have "sem_value (Fork (succ_fork n i)) s \<noteq> 0"
      using F [OF S(1)] bits(1) [OF S(1)] bits(2) [OF i] S(3) False by force
    then show ?thesis using False i second by auto
  next
    case True
    show ?thesis
    proof (cases "sem_value (Fork i) s = 0")
      case False
      then show ?thesis using True i second by auto
    next
      case blocked: True
      have prev: "even (prev_phil n i)" "locs s ! prev_phil n i = Take_second"
        using F [OF i] bits(1) [OF i] bits(2) [OF S(5)] blocked True by auto
      then have i0: "i = 0" using True by (auto simp: prev_phil_def split: if_splits)
      let ?k = "n - 1"
      have k: "?k < n" "even ?k" "locs s ! ?k = Take_second" using prev i0 n by (simp_all add: prev_phil_def)
      have "odd (prev_phil n ?k)" using k(2) n by (auto simp: prev_phil_def)
      then have "fork_sems s ! ?k \<noteq> 0"
        using F [OF k(1)] bits(1) [OF k(1)] bits(2) [OF succ_fork_simps(5) [OF k(1) n]] k(2) by argo
      then have "waits_for n ?k Take_second = Some (Fork ?k) \<and> sem_value (Fork ?k) s \<noteq> 0" using k(2) by simp
      then show ?thesis using k(1,3) by blast
    qed
  qed
qed

lemma somebody_moves:
  assumes inv: "dine_inv n c s" and n: "2 \<le> n" and fine: "nobody_failed s"
    and main: "main_ok (main_at s) (locs s)" and there: "\<nexists>e. main_at s = Exited e"
  shows "\<exists>a. dine_step True a s \<noteq> None"
proof (rule ccontr)
  assume "\<not> (\<exists>a. dine_step True a s \<noteq> None)"
  then have none: "dine_step True a s = None" for a by blast
  note len = inv_lengths [OF inv]
  have main_none: "main_step True s = None"
    using none [of Main] there by (auto simp: dine_step_def split: main_pc.splits)
  have stuck: "philosopher_step True i s = None" if "i < n" for i
    using none [of "Phil i"] there len that by (auto simp: dine_step_def split: main_pc.splits)
  obtain j where j: "j < n" "main_at s = Joining j" "locs s ! j \<noteq> Done"
    using main_none there len by (auto simp: main_step_def Let_def split: main_pc.splits if_splits pc.splits)
  have born: "locs s ! i \<noteq> Unborn" if "i < n" for i using main j that len by simp
  have nofail: "locs s ! i \<noteq> Failed q" if "i < n" for i q using fine that len by (simp add: nobody_failed_def)
  have rest: "at_rest (locs s ! i) \<longleftrightarrow> locs s ! i = Done" if "i < n" for i
    using born [OF that] nofail [OF that] by (cases "locs s ! i") auto
  have waits: "locs s ! i = Done \<or> (\<exists>m. waits_for n i (locs s ! i) = Some m \<and> sem_value m s = 0)" if "i < n" for i
    using blocked_waits [OF inv that stuck [OF that]] rest [OF that] by blast
  have "\<not> has_lock (locs s ! i)" if "i < n" for i
    using waits [OF that] by (cases "locs s ! i") auto
  then have "filter has_lock (locs s) = []" using len by (auto simp: filter_empty_conv in_set_conv_nth)
  then have printing: "printing_sem s = 1" using inv by (simp add: dine_inv_def)
  have places: "locs s ! i = Done \<or> locs s ! i = Take_first \<or> locs s ! i = Take_second" if "i < n" for i
    using waits [OF that] printing by (cases "locs s ! i") auto
  have place_stage: "locs s ! i = Take_second \<or> stage (locs s ! i) = 0" if "i < n" for i
    using places [OF that] by auto
  have no_second: "locs s ! i \<noteq> Take_second" if i: "i < n" for i
  proof
    assume "locs s ! i = Take_second"
    then obtain k m where "k < n" "locs s ! k = Take_second" "waits_for n k Take_second = Some m" "sem_value m s \<noteq> 0"
      using second_fork_free [OF inv n i] place_stage by blast
    then show False using waits [of k] by auto
  qed
  have free: "fork_sems s ! k \<noteq> 0" if "k < n" for k
  proof
    assume "fork_sems s ! k = 0"
    moreover have "stage (locs s ! i) = 0" if "i < n" for i using places [OF that] no_second [OF that] by auto
    ultimately show False using fork_taken [OF inv that] that succ_fork_simps(5) [OF that n]
      by (simp add: left_at_def right_at_def)
  qed
  have "locs s ! i \<noteq> Take_first" if "i < n" for i
    using free [of i] free [of "succ_fork n i"] waits [OF that] succ_fork_simps(1) [OF that n] that by (cases "even i") auto
  then show False using places [OF j(1)] no_second [OF j(1)] j by blast
qed

section \<open>Every run ends\<close>

text \<open>How many steps a thread has left in its cycle, and in all.\<close>

fun sec_rest :: "sec \<Rightarrow> nat" where
  "sec_rest To_thinking = 2"
| "sec_rest Drop_left = 7"
| "sec_rest Drop_right = 12"
| "sec_rest To_dropping = 18"
| "sec_rest To_eating = 24"
| "sec_rest Second_fork = 29"
| "sec_rest First_fork = 35"
| "sec_rest To_changing = 41"
| "sec_rest To_terminated = 0"

fun rest :: "pc \<Rightarrow> nat" where
  "rest Unborn = 48"
| "rest Loop = 48"
| "rest Enter = 47"
| "rest (Lock d) = sec_rest d + 5"
| "rest (Update d) = sec_rest d + 4"
| "rest (Release d) = sec_rest d + 3"
| "rest (Print d) = sec_rest d + 2"
| "rest (Unlock d) = sec_rest d + 1"
| "rest Take_first = 41"
| "rest Take_second = 35"
| "rest Dawdle_eating = 24"
| "rest Dawdle_changing = 18"
| "rest Dawdle_thinking = 2"
| "rest Next_cycle = 1"
| "rest Done = 0"
| "rest (Failed p) = 0"

definition steps_left :: "pc \<Rightarrow> philinfo \<Rightarrow> nat" where
  "steps_left q p = (if at_rest q \<and> q \<noteq> Unborn then 0 else if q = Loop \<or> q = Unborn then 48 * nat (cycles_left p) + 6
     else if in_cycle q then 48 * nat (cycles_left p - 1) + 6 + rest q else rest q)"

fun main_left :: "nat \<Rightarrow> main_pc \<Rightarrow> nat" where
  "main_left n (Creating j) = (n - j) + 1 + (n + 1) + (n + 2)"
| "main_left n (Joining j) = (n - j) + 1 + (n + 2)"
| "main_left n (Destroying j) = n + 2 - j"
| "main_left n (Exited e) = 0"

definition run_left :: "dine \<Rightarrow> nat" where
  "run_left s = (\<Sum>i<length (phils s). steps_left (locs s ! i) (phils s ! i)) + main_left (length (phils s)) (main_at s)"

lemma rest_after: "rest (after_sec d) \<le> sec_rest d" "d \<noteq> To_terminated \<Longrightarrow> in_cycle (after_sec d)" "after_sec To_terminated = Done"
  "\<not> at_rest (after_sec d) \<or> d = To_terminated" "after_sec d \<noteq> Loop"
  by (cases d; simp)+

definition ahead :: "nat \<Rightarrow> dine \<Rightarrow> dine \<Rightarrow> bool" where
  "ahead i s s' \<longleftrightarrow> main_at s' = main_at s \<and> (\<exists>q p. locs s' = (locs s)[i := q] \<and> phils s' = (phils s)[i := p] \<and>
     steps_left q p < steps_left (locs s ! i) (phils s ! i))"

lemma aheadI:
  assumes "steps_left q p < steps_left (locs s ! i) (phils s ! i)" and "main_at s' = main_at s"
    and "locs s' = (locs s)[i := q]" and "phils s' = (phils s)[i := p]"
  shows "ahead i s s'"
  using assms unfolding ahead_def by blast

lemma ahead_goto:
  assumes "steps_left q p < steps_left (locs s ! i) (phils s ! i)"
  shows "ahead i s (goto i q (s\<lparr>phils := (phils s)[i := p]\<rparr>))"
  by (rule aheadI [OF assms]) (simp_all add: goto_def)

lemma ahead_intros:
  assumes less: "steps_left q (phils s ! i) < steps_left (locs s ! i) (phils s ! i)"
  shows "ahead i s (goto i q s)" and "ahead i s (goto i q (s\<lparr>stdout := out\<rparr>))"
    and "sem_wait ok i m q s = Some s' \<Longrightarrow> ahead i s s'" and "sem_post ok i m q s = Some s' \<Longrightarrow> ahead i s s'"
proof -
  show "ahead i s (goto i q s)" "ahead i s (goto i q (s\<lparr>stdout := out\<rparr>))"
    by (rule aheadI [OF less]; simp add: goto_def)+
  have go: "ahead i s (goto i q (put_sem m v s))" for m v
    by (rule aheadI [OF less]) (simp_all add: goto_def)
  have "steps_left (Failed (locs s ! i)) (phils s ! i) < steps_left (locs s ! i) (phils s ! i)"
    using less by (simp add: steps_left_def)
  then have fail: "ahead i s (thread_failure i s)"
    by (rule aheadI) (simp_all add: goto_def thread_failure_def)
  show "sem_wait ok i m q s = Some s' \<Longrightarrow> ahead i s s'" "sem_post ok i m q s = Some s' \<Longrightarrow> ahead i s s'"
    using fail go by (auto simp: sem_wait_def sem_post_def split: if_splits nat.splits)
qed

lemma update_cycles [simp]: "cycles_left (update_info d p) = cycles_left p"
  by (cases d) simp_all

lemma steps_left_after: "steps_left (after_sec d) p < steps_left (Unlock d) p"
  by (cases d) (simp_all add: steps_left_def)

lemma philosopher_ahead:
  assumes inv: "dine_inv n c s" and i: "i < n" and step: "philosopher_step ok i s = Some s'"
  shows "ahead i s s'"
proof -
  have info: "info_ok n c i (locs s ! i) (phils s ! i)" using info_of [OF inv i] .
  note here = step [unfolded philosopher_step_def Let_def]
  show ?thesis
  proof (cases "locs s ! i")
    case Loop
    then show ?thesis using here by (auto intro!: ahead_intros simp: steps_left_def split: if_splits)
  next
    case Enter
    then show ?thesis using here by (auto intro!: ahead_intros simp: steps_left_def split: if_splits)
  next
    case (Lock d)
    then have "steps_left (Update d) (phils s ! i) < steps_left (locs s ! i) (phils s ! i)" by (simp add: steps_left_def)
    then show ?thesis using here Lock by (auto intro: ahead_intros)
  next
    case (Update d)
    let ?q = "if d = Drop_right \<or> d = Drop_left then Release d else Print d"
    have "steps_left ?q (update_info d (phils s ! i)) < steps_left (locs s ! i) (phils s ! i)"
      using Update by (simp add: steps_left_def)
    from ahead_goto [OF this] show ?thesis using here Update by simp
  next
    case (Release d)
    then have "steps_left (Print d) (phils s ! i) < steps_left (locs s ! i) (phils s ! i)" by (simp add: steps_left_def)
    then show ?thesis using here Release by (auto intro: ahead_intros)
  next
    case (Print d)
    then have "steps_left (Unlock d) (phils s ! i) < steps_left (locs s ! i) (phils s ! i)" by (simp add: steps_left_def)
    then show ?thesis using here Print by (auto intro: ahead_intros)
  next
    case (Unlock d)
    then have "steps_left (after_sec d) (phils s ! i) < steps_left (locs s ! i) (phils s ! i)" by (simp add: steps_left_after)
    then show ?thesis using here Unlock by (auto intro: ahead_intros)
  next
    case Take_first
    then have "steps_left (Lock First_fork) (phils s ! i) < steps_left (locs s ! i) (phils s ! i)" by (simp add: steps_left_def)
    then show ?thesis using here Take_first by (auto intro: ahead_intros)
  next
    case Take_second
    then have "steps_left (Lock Second_fork) (phils s ! i) < steps_left (locs s ! i) (phils s ! i)" by (simp add: steps_left_def)
    then show ?thesis using here Take_second by (auto intro: ahead_intros)
  next
    case Next_cycle
    let ?p = "(phils s ! i)\<lparr>cycles_left := cycles_left (phils s ! i) - 1\<rparr>"
    have "steps_left Loop ?p < steps_left (locs s ! i) (phils s ! i)"
      using Next_cycle info by (simp add: steps_left_def info_ok_def)
    from ahead_goto [OF this] show ?thesis using here Next_cycle by simp
  qed (use here in \<open>auto intro!: ahead_intros simp: steps_left_def\<close>)
qed

lemma run_left_ahead:
  assumes "ahead i s s'" and "i < length (phils s)" and "length (locs s) = length (phils s)"
  shows "run_left s' < run_left s"
proof -
  obtain q p where qp: "main_at s' = main_at s" "locs s' = (locs s)[i := q]" "phils s' = (phils s)[i := p]"
    and less: "steps_left q p < steps_left (locs s ! i) (phils s ! i)"
    using assms(1) by (auto simp: ahead_def)
  have "(\<Sum>k<length (phils s). steps_left (locs s' ! k) (phils s' ! k)) <
      (\<Sum>k<length (phils s). steps_left (locs s ! k) (phils s ! k))"
  proof (rule sum_strict_mono_ex1)
    show "\<forall>k\<in>{..<length (phils s)}. steps_left (locs s' ! k) (phils s' ! k) \<le> steps_left (locs s ! k) (phils s ! k)"
      using less qp assms(2,3) by (auto simp: nth_list_update)
    show "\<exists>k\<in>{..<length (phils s)}. steps_left (locs s' ! k) (phils s' ! k) < steps_left (locs s ! k) (phils s ! k)"
      using less qp assms(2,3) by (auto intro!: bexI [of _ i])
  qed simp
  then show ?thesis using qp by (simp add: run_left_def)
qed

lemma run_left_main:
  assumes step: "main_step ok s = Some s'" and len: "length (locs s) = length (phils s)" and m: "main_ok (main_at s) (locs s)"
  shows "run_left s' < run_left s"
proof -
  note here = step [unfolded main_step_def Let_def]
  show ?thesis
  proof (cases "main_at s")
    case (Creating j)
    show ?thesis
    proof (cases "j < length (phils s) \<and> ok")
      case True
      then have s': "s' = (goto j Loop s)\<lparr>main_at := Creating (j + 1)\<rparr>" using here Creating by simp
      have "steps_left (locs s' ! k) (phils s' ! k) = steps_left (locs s ! k) (phils s ! k)" if "k < length (phils s)" for k
        using that m Creating True len by (cases "k = j") (auto simp: s' goto_def steps_left_def)
      then show ?thesis using s' Creating conjunct1 [OF True]
        by (simp add: run_left_def goto_def)
    next
      case False
      then show ?thesis using here Creating by (auto simp: run_left_def split: if_splits)
    qed
  next
    case (Joining j)
    then show ?thesis using here m len by (auto simp: run_left_def split: if_splits pc.splits)
  next
    case (Destroying j)
    then show ?thesis using here m len by (auto simp: run_left_def split: if_splits)
  next
    case (Exited e)
    then show ?thesis using here by simp
  qed
qed

lemma run_left_step:
  assumes inv: "dine_inv n c s" and m: "main_ok (main_at s) (locs s)" and step: "dine_step ok a s = Some s'"
  shows "run_left s' < run_left s"
  using step
proof (cases rule: dine_step_cases)
  case 1
  then show ?thesis using run_left_main m inv_lengths [OF inv] by simp
next
  case (2 i)
  then show ?thesis using run_left_ahead philosopher_ahead [OF inv _ 2(3)] inv_lengths [OF inv] by simp
qed

text \<open>A run: who moves, and whether the library call in that step succeeds.\<close>

fun dine_run :: "(bool \<times> actor) list \<Rightarrow> dine \<Rightarrow> dine option" where
  "dine_run [] s = Some s"
| "dine_run ((ok, a) # as) s = (case dine_step ok a s of None \<Rightarrow> None | Some s' \<Rightarrow> dine_run as s')"

lemma dine_run_left:
  assumes "2 \<le> n" and "dine_inv n c s" and "main_ok (main_at s) (locs s)" and "dine_run as s = Some s'"
  shows "length as + run_left s' \<le> run_left s"
  using assms(2-)
proof (induction as s rule: dine_run.induct)
  case (2 ok a as s)
  then obtain t where t: "dine_step ok a s = Some t" "dine_run as t = Some s'" by (auto split: option.splits)
  have "dine_inv n c t \<and> main_ok (main_at t) (locs t)" using dining_step_inv [OF 2(2) assms(1) 2(3) t(1)] .
  then show ?case using 2(1) [OF t(1)] t run_left_step [OF 2(2,3) t(1)] by simp
qed simp

lemma run_left_init: "run_left (dine_init n c) = 48 * n * nat c + 9 * n + 4"
proof -
  have "steps_left Unborn (init_philosopher n c i) = 48 * nat c + 6" for i
    by (simp add: steps_left_def init_philosopher_def Let_def)
  then show ?thesis by (simp add: run_left_def dine_init_def Let_def algebra_simps)
qed

lemma dine_run_dining:
  "dine_run as s = Some s' \<Longrightarrow> dining faults n c s \<Longrightarrow> faults \<or> list_all fst as \<Longrightarrow> dining faults n c s'"
  by (induction as s rule: dine_run.induct) (auto split: option.splits intro: dining.step)

end
