(* ===== verification/Dine_Output.thy ===== *)
theory Dine_Output
  imports Dine_Inv
begin

text \<open>
  What the dining philosophers print: every line of the table has the same width, and how many rows there
  are follows from where the threads are.
\<close>

section \<open>Widths\<close>

definition line_width :: "nat \<Rightarrow> nat" where
  "line_width n = n * (n + 9) + 2"

definition table_line :: "nat \<Rightarrow> string \<Rightarrow> bool" where
  "table_line n l \<longleftrightarrow> length l = line_width n \<and> l \<noteq> [] \<and> last l = CHR 0x0A"

lemma concat_width: "(\<And>x. x \<in> set xs \<Longrightarrow> length (f x) = w) \<Longrightarrow> length (concat (map f xs)) = length xs * w"
  by (induction xs) auto

lemma forks_held_width [simp]: "length (forks_held n p) = n"
  by (simp add: forks_held_def Let_def)

lemma state_str_width [simp]: "length (state_str st) = 7"
  by (simp add: state_str_def eat_str_def think_str_def change_str_def)

lemma row_line:
  assumes "length ps = n"
  shows "table_line n (print_status_change ps)"
proof -
  have "length (concat (map (\<lambda>p. column_prefix_str @ forks_held (length ps) p @ state_str (phil_state p)) ps)) = n * (n + 9)"
    using assms by (subst concat_width [where w = "n + 9"]) (simp_all add: column_prefix_str_def)
  then show ?thesis
    by (simp add: table_line_def line_width_def print_status_change_def column_border_str_def newline_def)
qed

lemma border_line: "table_line n (print_table_border n (header_border n))"
proof -
  have "length (concat (map (\<lambda>i. column_border_str @ header_border n) [0..<n])) = n * (n + 9)"
    by (subst concat_width [where w = "n + 9"])
      (simp_all add: header_border_def build_table_border_def column_border_str_def change_str_def
        LEADING_SPACE_LEN_def NULL_CHAR_LEN_def)
  then show ?thesis
    by (simp add: table_line_def line_width_def print_table_border_def column_border_str_def newline_def)
qed

lemma labels_line: "table_line n (print_phil_labels n)"
proof -
  have "length (concat (map (\<lambda>i. column_border_str @ (replicate (label_len n - NULL_CHAR_LEN) (CHR '' ''))
      [label_len n div 2 - 1 := wrapped_label FIRST_PHIL_LABEL (int i)]) [0..<n])) = n * (n + 9)"
    by (subst concat_width [where w = "n + 9"])
      (simp_all add: label_len_def column_border_str_def change_str_def LEADING_SPACE_LEN_def NULL_CHAR_LEN_def split: nat.splits)
  then show ?thesis
    by (simp add: table_line_def line_width_def print_phil_labels_def Let_def column_border_str_def newline_def)
qed

section \<open>Counting rows\<close>

text \<open>Rows printed in the current cycle once it has begun.\<close>

fun sec_rows :: "sec \<Rightarrow> nat" where
  "sec_rows Second_fork = 1"
| "sec_rows To_eating = 2"
| "sec_rows To_dropping = 3"
| "sec_rows Drop_right = 4"
| "sec_rows Drop_left = 5"
| "sec_rows To_thinking = 6"
| "sec_rows _ = 0"

text \<open>Rows that a thread has printed: \<open>k\<close> is the number of cycles it has completed.\<close>

fun rows :: "nat \<Rightarrow> pc \<Rightarrow> nat" where
  "rows k (Lock d) = (if d = To_changing \<or> d = To_terminated then 8 * k - 1 else 8 * k + sec_rows d)"
| "rows k (Update d) = (if d = To_changing \<or> d = To_terminated then 8 * k - 1 else 8 * k + sec_rows d)"
| "rows k (Release d) = (if d = To_changing \<or> d = To_terminated then 8 * k - 1 else 8 * k + sec_rows d)"
| "rows k (Print d) = (if d = To_changing \<or> d = To_terminated then 8 * k - 1 else 8 * k + sec_rows d)"
| "rows k (Unlock d) = (if d = To_changing \<or> d = To_terminated then Suc (8 * k - 1) else 8 * k + Suc (sec_rows d))"
| "rows k Take_first = 8 * k"
| "rows k Take_second = 8 * k + 1"
| "rows k Dawdle_eating = 8 * k + 3"
| "rows k Dawdle_changing = 8 * k + 4"
| "rows k Dawdle_thinking = 8 * k + 7"
| "rows k Next_cycle = 8 * k + 7"
| "rows k Done = Suc (8 * k - 1)"
| "rows k (Failed q) = rows k q"
| "rows k _ = 8 * k - 1"

definition printed :: "int \<Rightarrow> pc \<Rightarrow> philinfo \<Rightarrow> nat" where
  "printed c q p = rows (nat (c - cycles_left p)) q"

definition round_ok :: "int \<Rightarrow> pc \<Rightarrow> philinfo \<Rightarrow> bool" where
  "round_ok c q p \<longleftrightarrow> (q = Unborn \<longrightarrow> cycles_left p = c \<and> phil_state p = CHANGING) \<and>
     (q = Loop \<or> q = Enter \<longrightarrow> (phil_state p = CHANGING \<longleftrightarrow> cycles_left p = c)) \<and>
     (q \<in> {Lock To_changing, Update To_changing, Print To_changing, Unlock To_changing} \<longrightarrow> cycles_left p < c) \<and>
     (q \<in> {Lock To_terminated, Update To_terminated, Print To_terminated, Unlock To_terminated, Done} \<longrightarrow>
       cycles_left p = 0)"

definition out_inv :: "nat \<Rightarrow> int \<Rightarrow> dine \<Rightarrow> bool" where
  "out_inv n c s \<longleftrightarrow> (\<forall>i<n. round_ok c (locs s ! i) (phils s ! i)) \<and>
     (\<exists>ls. stdout s = concat ls \<and> list_all (table_line n) ls \<and>
       length ls = 4 + (\<Sum>i<n. printed c (locs s ! i) (phils s ! i)) + of_bool (main_at s = Exited 0))"

text \<open>A step of thread \<open>i\<close> prints \<open>new\<close>, which is nothing or one line.\<close>

definition prints :: "nat \<Rightarrow> int \<Rightarrow> nat \<Rightarrow> dine \<Rightarrow> dine \<Rightarrow> bool" where
  "prints n c i s s' \<longleftrightarrow> main_at s' = main_at s \<and> (\<exists>q p new. locs s' = (locs s)[i := q] \<and> phils s' = (phils s)[i := p] \<and>
     round_ok c q p \<and> stdout s' = stdout s @ concat new \<and> list_all (table_line n) new \<and>
     printed c q p = printed c (locs s ! i) (phils s ! i) + length new)"

lemma printsI:
  assumes "main_at s' = main_at s" and "locs s' = (locs s)[i := q]" and "phils s' = (phils s)[i := p]"
    and "round_ok c q p" and "stdout s' = stdout s @ concat new" and "list_all (table_line n) new"
    and "printed c q p = printed c (locs s ! i) (phils s ! i) + length new"
  shows "prints n c i s s'"
  using assms unfolding prints_def by blast

lemma prints_goto:
  assumes "round_ok c q (phils s ! i)" and "printed c q (phils s ! i) = printed c (locs s ! i) (phils s ! i)"
  shows "prints n c i s (goto i q s)"
  by (rule printsI [where q = q and p = "phils s ! i" and new = "[]"]) (use assms in \<open>simp_all add: goto_def\<close>)

lemma prints_record:
  assumes "round_ok c q p" and "printed c q p = printed c (locs s ! i) (phils s ! i)"
  shows "prints n c i s (goto i q (s\<lparr>phils := (phils s)[i := p]\<rparr>))"
  by (rule printsI [where q = q and p = p and new = "[]"]) (use assms in \<open>simp_all add: goto_def\<close>)

lemma prints_sem:
  assumes ok: "round_ok c q (phils s ! i)" and same: "printed c q (phils s ! i) = printed c (locs s ! i) (phils s ! i)"
  shows "sem_wait ok i m q s = Some s' \<Longrightarrow> prints n c i s s'" and "sem_post ok i m q s = Some s' \<Longrightarrow> prints n c i s s'"
proof -
  have go: "prints n c i s (goto i q (put_sem m v s))" for v
    by (rule printsI [where q = q and p = "phils s ! i" and new = "[]"]) (use ok same in \<open>simp_all add: goto_def\<close>)
  have fail: "prints n c i s (thread_failure i s)"
    by (rule printsI [where q = "Failed (locs s ! i)" and p = "phils s ! i" and new = "[]"])
      (simp_all add: goto_def thread_failure_def round_ok_def printed_def)
  show "sem_wait ok i m q s = Some s' \<Longrightarrow> prints n c i s s'" "sem_post ok i m q s = Some s' \<Longrightarrow> prints n c i s s'"
    using fail go by (auto simp: sem_wait_def sem_post_def split: if_splits nat.splits)
qed

lemma round_after:
  assumes "round_ok c (Unlock d) p" and "info_ok n c i (Unlock d) p"
  shows "round_ok c (after_sec d) p" and "printed c (after_sec d) p = printed c (Unlock d) p"
  using assms by (cases d; simp add: round_ok_def printed_def info_ok_def)+

lemma round_update:
  assumes "round_ok c (Update d) p" and "info_ok n c i (Update d) p"
  shows "round_ok c (if d = Drop_right \<or> d = Drop_left then Release d else Print d) (update_info d p)"
    and "printed c (if d = Drop_right \<or> d = Drop_left then Release d else Print d) (update_info d p) = printed c (Update d) p"
  using assms by (cases d; simp add: round_ok_def printed_def info_ok_def)+

lemma round_same:
  "round_ok c (Lock d) p \<Longrightarrow> round_ok c (Update d) p" "printed c (Update d) p = printed c (Lock d) p"
  "info_ok n c i (Release d) p \<Longrightarrow> round_ok c (Print d) p" "printed c (Print d) p = printed c (Release d) p"
  "round_ok c (Print d) p \<Longrightarrow> round_ok c (Unlock d) p" "printed c (Unlock d) p = Suc (printed c (Print d) p)"
  by (auto simp: round_ok_def printed_def info_ok_def)

lemma philosopher_prints:
  assumes inv: "dine_inv n c s" and i: "i < n" and step: "philosopher_step ok i s = Some s'"
    and round: "round_ok c (locs s ! i) (phils s ! i)"
  shows "prints n c i s s'"
proof -
  have info: "info_ok n c i (locs s ! i) (phils s ! i)" using info_of [OF inv i] .
  note here = step [unfolded philosopher_step_def Let_def]
  let ?p = "phils s ! i"
  show ?thesis
  proof (cases "locs s ! i")
    case Loop
    then have "s' = goto i (if cycles_left ?p > 0 then Enter else Lock To_terminated) s" using here by simp
    moreover have "round_ok c (if cycles_left ?p > 0 then Enter else Lock To_terminated) ?p"
      using Loop round info by (simp add: round_ok_def info_ok_def)
    moreover have "printed c (if cycles_left ?p > 0 then Enter else Lock To_terminated) ?p = printed c Loop ?p"
      by (simp add: printed_def)
    ultimately show ?thesis using prints_goto [of c _ s i n] Loop by metis
  next
    case Enter
    then have "s' = goto i (if phil_state ?p \<noteq> CHANGING then Lock To_changing else Take_first) s" using here by simp
    moreover have "round_ok c (if phil_state ?p \<noteq> CHANGING then Lock To_changing else Take_first) ?p"
      using Enter round info by (simp add: round_ok_def info_ok_def)
    moreover have "printed c (if phil_state ?p \<noteq> CHANGING then Lock To_changing else Take_first) ?p = printed c Enter ?p"
      using Enter round by (simp add: printed_def round_ok_def)
    ultimately show ?thesis using prints_goto [of c _ s i n] Enter by metis
  next
    case (Lock d)
    then have "sem_wait ok i (printing_lock ?p) (Update d) s = Some s'" using here by simp
    then show ?thesis using Lock round round_same by (intro prints_sem) simp_all
  next
    case (Update d)
    let ?q = "if d = Drop_right \<or> d = Drop_left then Release d else Print d"
    have "s' = goto i ?q (s\<lparr>phils := (phils s)[i := update_info d ?p]\<rparr>)" using here Update by simp
    then show ?thesis using prints_record [of c ?q "update_info d ?p"] round_update [of c d ?p n i] round info Update by simp
  next
    case (Release d)
    then have "sem_post ok i (if d = Drop_right then right_fork ?p else left_fork ?p) (Print d) s = Some s'" using here by simp
    then show ?thesis using Release info round_same by (intro prints_sem) simp_all
  next
    case (Print d)
    then have s': "s' = goto i (Unlock d) (s\<lparr>stdout := stdout s @ print_status_change (phils s)\<rparr>)" using here by simp
    show ?thesis
      by (rule printsI [where q = "Unlock d" and p = ?p and new = "[print_status_change (phils s)]"])
        (use Print round round_same row_line [OF inv_lengths(1) [OF inv]] s' in \<open>simp_all add: goto_def\<close>)
  next
    case (Unlock d)
    then have "sem_post ok i (printing_lock ?p) (after_sec d) s = Some s'" using here by simp
    then show ?thesis using Unlock info round round_after by (intro prints_sem) simp_all
  next
    case Take_first
    then have "sem_wait ok i (if phil_id ?p mod 2 = 0 then right_fork ?p else left_fork ?p) (Lock First_fork) s = Some s'"
      using here by simp
    then show ?thesis using Take_first by (intro prints_sem) (simp_all add: round_ok_def printed_def)
  next
    case Take_second
    then have "sem_wait ok i (if phil_id ?p mod 2 = 0 then left_fork ?p else right_fork ?p) (Lock Second_fork) s = Some s'"
      using here by simp
    then show ?thesis using Take_second by (intro prints_sem) (simp_all add: round_ok_def printed_def)
  next
    case Next_cycle
    let ?p' = "?p\<lparr>cycles_left := cycles_left ?p - 1\<rparr>"
    have "s' = goto i Loop (s\<lparr>phils := (phils s)[i := ?p']\<rparr>)" using here Next_cycle by simp
    moreover have "nat (c - (cycles_left ?p - 1)) = Suc (nat (c - cycles_left ?p))"
      using info by (auto simp: info_ok_def)
    then have "printed c Loop ?p' = printed c (locs s ! i) ?p" using Next_cycle by (simp add: printed_def)
    moreover have "round_ok c Loop ?p'" using info Next_cycle by (simp add: round_ok_def info_ok_def THINKING_def CHANGING_def)
    ultimately show ?thesis using prints_record by simp
  qed (use here in \<open>auto intro!: prints_goto simp: round_ok_def printed_def\<close>)
qed

lemma sum_update:
  fixes f :: "'a \<Rightarrow> 'b \<Rightarrow> nat"
  assumes "i < n" and "length L = n" and "length P = n" and "f q p = f (L ! i) (P ! i) + d"
  shows "(\<Sum>k<n. f (L[i := q] ! k) (P[i := p] ! k)) = (\<Sum>k<n. f (L ! k) (P ! k)) + d"
proof -
  have "(\<Sum>k\<in>{..<n} - {i}. f (L[i := q] ! k) (P[i := p] ! k)) = (\<Sum>k\<in>{..<n} - {i}. f (L ! k) (P ! k))"
    by (rule sum.cong) auto
  moreover have "(\<Sum>k<n. g k) = g i + (\<Sum>k\<in>{..<n} - {i}. g k)" for g :: "nat \<Rightarrow> nat"
    using assms(1) by (intro sum.remove) auto
  ultimately show ?thesis using assms by simp
qed

lemma out_inv_philosopher:
  assumes inv: "dine_inv n c s" and i: "i < n" and step: "philosopher_step ok i s = Some s'" and out: "out_inv n c s"
  shows "out_inv n c s'"
proof -
  note len = inv_lengths [OF inv]
  have "prints n c i s s'" using philosopher_prints [OF inv i step] out i by (simp add: out_inv_def)
  then obtain q p new where P: "main_at s' = main_at s" "locs s' = (locs s)[i := q]" "phils s' = (phils s)[i := p]"
    "round_ok c q p" "stdout s' = stdout s @ concat new" "list_all (table_line n) new"
    "printed c q p = printed c (locs s ! i) (phils s ! i) + length new"
    unfolding prints_def by blast
  obtain ls where ls: "stdout s = concat ls" "list_all (table_line n) ls"
    "length ls = 4 + (\<Sum>i<n. printed c (locs s ! i) (phils s ! i)) + of_bool (main_at s = Exited 0)"
    using out by (auto simp: out_inv_def)
  have "stdout s' = concat (ls @ new) \<and> list_all (table_line n) (ls @ new) \<and>
      length (ls @ new) = 4 + (\<Sum>i<n. printed c (locs s' ! i) (phils s' ! i)) + of_bool (main_at s' = Exited 0)"
    using ls P sum_update [OF i len(2,1) P(7)] by simp
  moreover have "round_ok c (locs s' ! k) (phils s' ! k)" if "k < n" for k
    using that out P len by (cases "k = i") (auto simp: out_inv_def)
  ultimately show ?thesis unfolding out_inv_def by blast
qed

lemma out_inv_main:
  assumes inv: "dine_inv n c s" and m: "main_ok (main_at s) (locs s)" and step: "main_step ok s = Some s'" and out: "out_inv n c s"
  shows "out_inv n c s'"
proof -
  note len = inv_lengths [OF inv]
  note here = step [unfolded main_step_def Let_def]
  obtain ls where ls: "stdout s = concat ls" "list_all (table_line n) ls"
    "length ls = 4 + (\<Sum>i<n. printed c (locs s ! i) (phils s ! i)) + of_bool (main_at s = Exited 0)"
    using out by (auto simp: out_inv_def)
  have same: "out_inv n c (s\<lparr>main_at := m\<rparr>)" if "m \<noteq> Exited 0" "main_at s \<noteq> Exited 0" for m
    using out that by (simp add: out_inv_def)
  show ?thesis
  proof (cases "main_at s")
    case (Creating j)
    show ?thesis
    proof (cases "j < n \<and> ok")
      case True
      then have born: "locs s ! j = Unborn" using m Creating len by simp
      have s': "s' = (goto j Loop s)\<lparr>main_at := Creating (j + 1)\<rparr>" using here Creating len True by simp
      have "round_ok c Unborn (phils s ! j)" using out True born by (auto simp: out_inv_def)
      then have "round_ok c (locs s' ! k) (phils s' ! k)" if "k < n" for k
        using that out True len by (cases "k = j") (auto simp: out_inv_def s' goto_def round_ok_def)
      moreover have "(\<Sum>i<n. printed c (locs s' ! i) (phils s' ! i)) = (\<Sum>i<n. printed c (locs s ! i) (phils s ! i))"
        using sum_update [of j n "locs s" "phils s" "printed c" Loop "phils s ! j" 0] True len born
        by (simp add: s' goto_def printed_def)
      ultimately show ?thesis using ls Creating unfolding out_inv_def s' by (auto simp: goto_def)
    next
      case False
      then show ?thesis using here same Creating len by (auto simp: EXIT_FAILURE_def split: if_splits)
    qed
  next
    case (Joining j)
    then show ?thesis using here same len by (auto simp: EXIT_FAILURE_def split: if_splits pc.splits)
  next
    case (Destroying j)
    show ?thesis
    proof (cases "j < n + 1")
      case True
      then show ?thesis using here same Destroying len by (auto simp: EXIT_FAILURE_def split: if_splits)
    next
      case False
      then have s': "s' = s\<lparr>stdout := stdout s @ print_table_border n (header_border n), main_at := Exited 0\<rparr>"
        using here Destroying len by simp
      have "stdout s' = concat (ls @ [print_table_border n (header_border n)])" using ls s' by simp
      moreover have "list_all (table_line n) (ls @ [print_table_border n (header_border n)])" using ls border_line by simp
      moreover have "length (ls @ [print_table_border n (header_border n)]) =
          4 + (\<Sum>i<n. printed c (locs s' ! i) (phils s' ! i)) + of_bool (main_at s' = Exited 0)"
        using ls s' Destroying by simp
      moreover have "\<forall>i<n. round_ok c (locs s' ! i) (phils s' ! i)" using out s' by (simp add: out_inv_def)
      ultimately show ?thesis unfolding out_inv_def by blast
    qed
  next
    case (Exited e)
    then show ?thesis using here by simp
  qed
qed

lemma dine_init_out: "out_inv n c (dine_init n c)"
proof -
  let ?b = "print_table_border n (header_border n)"
  let ?r = "print_status_change (map (init_philosopher n c) [0..<n])"
  have "stdout (dine_init n c) = concat [?b, print_phil_labels n, ?b, ?r]"
    by (simp add: dine_init_def Let_def print_table_header_def)
  moreover have "list_all (table_line n) [?b, print_phil_labels n, ?b, ?r]"
    by (simp add: border_line labels_line row_line)
  moreover have "(\<Sum>i<n. printed c (locs (dine_init n c) ! i) (phils (dine_init n c) ! i)) = 0"
    by (simp add: dine_init_def Let_def printed_def init_philosopher_def)
  moreover have "round_ok c (locs (dine_init n c) ! i) (phils (dine_init n c) ! i)" if "i < n" for i
    using that by (simp add: dine_init_def Let_def round_ok_def init_philosopher_def)
  moreover have "main_at (dine_init n c) \<noteq> Exited 0" by (simp add: dine_init_def Let_def)
  ultimately show ?thesis unfolding out_inv_def
    by (intro conjI exI [of _ "[?b, print_phil_labels n, ?b, ?r]"]) auto
qed

lemma dining_out:
  assumes "dining faults n c s" and "2 \<le> n" and "0 \<le> c"
  shows "out_inv n c s"
  using assms(1)
proof induction
  case start
  show ?case by (rule dine_init_out)
next
  case (step s ok a s')
  have inv: "dine_inv n c s" "main_ok (main_at s) (locs s)" using dining_inv [OF step(1) assms(2,3)] by simp_all
  from step(3) show ?case
  proof (cases rule: dine_step_cases)
    case 1
    then show ?thesis using out_inv_main [OF inv _ step(4)] by blast
  next
    case (2 i)
    then show ?thesis using out_inv_philosopher [OF inv(1) _ 2(3) step(4)] inv_lengths [OF inv(1)] by simp
  qed
qed

text \<open>When the process has exited with 0 everybody has printed a row for each of the eight changes of a cycle.\<close>

lemma rows_at_exit:
  assumes run: "dining faults n c s" and n: "2 \<le> n" and c: "1 \<le> c" and exit: "main_at s = Exited 0"
  shows "(\<Sum>i<n. printed c (locs s ! i) (phils s ! i)) = 8 * n * nat c"
proof -
  have inv: "dine_inv n c s" "main_ok (main_at s) (locs s)" "out_inv n c s"
    using dining_inv [OF run n] dining_out [OF run n] c by simp_all
  have "printed c (locs s ! i) (phils s ! i) = 8 * nat c" if "i < n" for i
  proof -
    have returned: "locs s ! i = Done" using inv(2) exit that inv_lengths [OF inv(1)] by (simp add: EXIT_FAILURE_def)
    then have "cycles_left (phils s ! i) = 0" using inv(3) that by (auto simp: out_inv_def round_ok_def)
    then show ?thesis using returned c by (simp add: printed_def)
  qed
  then show ?thesis by simp
qed

end
