(* ===== verification/Dine_Props.thy ===== *)
theory Dine_Props
  imports Dine_Live Dine_Output
begin

text \<open>
  What the dining philosophers guarantee: neighbours never eat together, the table tells the truth about
  the forks, no interleaving deadlocks or runs for ever, and what a completed run has printed.
\<close>

section \<open>Labels and rows\<close>

definition label_code :: "char \<Rightarrow> int \<Rightarrow> int" where
  "label_code start index = FIRST_PRINTABLE + (of_char start - FIRST_PRINTABLE + index) mod PRINTABLE_COUNT"

lemma label_code_range: "33 \<le> label_code start index \<and> label_code start index \<le> 126"
  by (simp add: label_code_def FIRST_PRINTABLE_def PRINTABLE_COUNT_def LAST_PRINTABLE_def)

lemma wrapped_label_code:
  assumes "0 \<le> index" and "FIRST_PRINTABLE \<le> of_char start"
  shows "of_char (wrapped_label start index) = label_code start index"
proof -
  let ?off = "of_char start - FIRST_PRINTABLE + index"
  have "?off smod PRINTABLE_COUNT = ?off mod PRINTABLE_COUNT"
    using assms by (simp add: signed_modulo_int_def sgn_if FIRST_PRINTABLE_def PRINTABLE_COUNT_def LAST_PRINTABLE_def)
  then have "wrapped_label start index = char_of (label_code start index)"
    by (simp add: wrapped_label_def Let_def label_code_def)
  moreover have "0 \<le> label_code start index \<and> label_code start index < 256"
    using label_code_range [of start index] by auto
  ultimately show ?thesis by (simp add: of_char_of)
qed

lemma fork_label_shown:
  assumes "k < 91"
  shows "wrapped_label FIRST_FORK_LABEL (int k) \<noteq> CHR ''-''"
proof
  assume "wrapped_label FIRST_FORK_LABEL (int k) = CHR ''-''"
  then have "(of_char (wrapped_label FIRST_FORK_LABEL (int k)) :: int) = 45" by simp
  moreover have "(of_char (wrapped_label FIRST_FORK_LABEL (int k)) :: int) = label_code FIRST_FORK_LABEL (int k)"
    by (rule wrapped_label_code) (simp_all add: FIRST_FORK_LABEL_def FIRST_PRINTABLE_def)
  ultimately have eq: "(15 + int k) mod 94 = 12"
    by (simp add: label_code_def FIRST_FORK_LABEL_def FIRST_PRINTABLE_def PRINTABLE_COUNT_def LAST_PRINTABLE_def)
  then show False using assms by presburger
qed

text \<open>Character \<open>k\<close> of a cell.\<close>

lemma cell:
  assumes "info_ok n c i q p" and "2 \<le> n" and "i < n" and "k < n"
  shows "forks_held n p ! k = (if k = i \<and> holding_left p \<or> k = succ_fork n i \<and> holding_right p
    then wrapped_label FIRST_FORK_LABEL (int k) else CHR ''-'')"
  using assms succ_fork_simps(2) [OF assms(3,2)]
  by (auto simp: forks_held_def Let_def info_ok_def nth_list_update)

section \<open>Places and forks\<close>

lemma shown_stage_values:
  "place q \<Longrightarrow> shown q = stage q \<or> shown q = 0 \<or> shown q = 1 \<and> stage q = 2 \<or> shown q = 3 \<and> stage q = 2"
proof (induction q)
  case (Lock d) show ?case by (cases d) simp_all
next
  case (Update d) show ?case by (cases d) simp_all
next
  case (Release d) then show ?case by (cases d) simp_all
next
  case (Print d) show ?case by (cases d) simp_all
next
  case (Unlock d) show ?case by (cases d) simp_all
qed auto

lemma shown_stage:
  assumes "place q"
  shows "left_at i (shown q) \<Longrightarrow> left_at i (stage q)" and "right_at i (shown q) \<Longrightarrow> right_at i (stage q)"
  using shown_stage_values [OF assms] by (auto simp: left_at_def right_at_def)

lemma eating_place: "EATING \<in> moods q \<Longrightarrow> shown q = 2 \<and> stage q = 2"
proof (induction q)
  case (Lock d) then show ?case by (cases d) (simp_all add: EATING_def CHANGING_def THINKING_def)
next
  case (Update d) then show ?case by (cases d) (simp_all add: EATING_def CHANGING_def THINKING_def)
next
  case (Release d) then show ?case by (cases d) (simp_all add: EATING_def CHANGING_def THINKING_def)
next
  case (Print d) then show ?case by (cases d) (simp_all add: EATING_def CHANGING_def THINKING_def)
next
  case (Unlock d) then show ?case by (cases d) (simp_all add: EATING_def CHANGING_def THINKING_def)
qed (simp_all add: EATING_def CHANGING_def THINKING_def)

lemma moods_range: "moods q \<subseteq> {CHANGING, EATING, THINKING}"
proof (induction q)
  case (Lock d) show ?case by (cases d) simp_all
next
  case (Update d) show ?case by (cases d) simp_all
next
  case (Release d) show ?case by (cases d) simp_all
next
  case (Print d) show ?case by (cases d) simp_all
next
  case (Unlock d) show ?case by (cases d) simp_all
qed simp_all

text \<open>At most one thread holds a fork, and then its semaphore is zero.\<close>

lemma fork_held:
  assumes inv: "dine_inv n c s" and i: "i < n" "2 \<le> n"
  shows "left_at i (stage (locs s ! i)) \<Longrightarrow> fork_sems s ! i = 0 \<and> \<not> right_at (prev_phil n i) (stage (locs s ! prev_phil n i))"
    and "right_at i (stage (locs s ! i)) \<Longrightarrow>
      fork_sems s ! succ_fork n i = 0 \<and> \<not> left_at (succ_fork n i) (stage (locs s ! succ_fork n i))"
proof -
  have F: "fork_sems s ! k + of_bool (left_at k (stage (locs s ! k))) +
      of_bool (right_at (prev_phil n k) (stage (locs s ! prev_phil n k))) = (1 :: nat)" if "k < n" for k
    using inv that by (simp add: dine_inv_def forks_ok_def)
  show "left_at i (stage (locs s ! i)) \<Longrightarrow> fork_sems s ! i = 0 \<and> \<not> right_at (prev_phil n i) (stage (locs s ! prev_phil n i))"
    using F [OF i(1)] by (simp split: if_splits)
  show "right_at i (stage (locs s ! i)) \<Longrightarrow>
      fork_sems s ! succ_fork n i = 0 \<and> \<not> left_at (succ_fork n i) (stage (locs s ! succ_fork n i))"
    using F [OF succ_fork_simps(1) [OF i]] succ_fork_simps(3) [OF i] by (simp split: if_splits)
qed

text \<open>What the record of a philosopher shows, he has.\<close>

lemma held_left:
  assumes inv: "dine_inv n c s" and i: "i < n" and held: "holding_left (phils s ! i)"
  shows "left_at i (stage (locs s ! i))"
  using info_of [OF inv i] held shown_stage by (auto simp: info_ok_def)

lemma held_right:
  assumes inv: "dine_inv n c s" and i: "i < n" and held: "holding_right (phils s ! i)"
  shows "right_at i (stage (locs s ! i))"
  using info_of [OF inv i] held shown_stage by (auto simp: info_ok_def)

lemma eater_holds:
  assumes inv: "dine_inv n c s" and i: "i < n" and eats: "phil_state (phils s ! i) = EATING"
  shows "holding_left (phils s ! i) \<and> holding_right (phils s ! i)"
  using info_of [OF inv i] eats eating_place [of "locs s ! i"] by (auto simp: info_ok_def left_at_def right_at_def)

section \<open>Properties\<close>

text \<open>C3: Whenever a philosopher is marked as eating, his row cell shows both his forks by their labels, the
  semaphores of both are zero, and neither neighbour is marked as eating. This holds in every state that any
  interleaving can reach, also when calls of the semaphore and thread libraries fail.\<close>

theorem neighbours_never_eat:
  assumes run: "dining faults n c s" and n: "2 \<le> n" and c: "0 \<le> c" and i: "i < n"
    and eats: "phil_state (phils s ! i) = EATING"
  shows "forks_held n (phils s ! i) ! i = wrapped_label FIRST_FORK_LABEL (int i) \<and>
    forks_held n (phils s ! i) ! ((i + 1) mod n) = wrapped_label FIRST_FORK_LABEL (int ((i + 1) mod n)) \<and>
    fork_sems s ! i = 0 \<and> fork_sems s ! ((i + 1) mod n) = 0 \<and>
    phil_state (phils s ! ((i + 1) mod n)) \<noteq> EATING \<and>
    phil_state (phils s ! (if i = 0 then n - 1 else i - 1)) \<noteq> EATING"
proof -
  have inv: "dine_inv n c s" using dining_inv [OF run n c] by simp
  note S = succ_fork_simps [OF i n]
  note held = fork_held [OF inv i n]
  have left: "left_at i (stage (locs s ! i))" and right: "right_at i (stage (locs s ! i))"
    using eater_holds [OF inv i eats] held_left [OF inv i] held_right [OF inv i] by simp_all
  have "phil_state (phils s ! succ_fork n i) \<noteq> EATING"
    using held(2) [OF right] eater_holds [OF inv S(1)] held_left [OF inv S(1)] by blast
  moreover have "phil_state (phils s ! prev_phil n i) \<noteq> EATING"
    using held(1) [OF left] eater_holds [OF inv S(5)] held_right [OF inv S(5)] by blast
  moreover note cell [OF info_of [OF inv i] n i i] cell [OF info_of [OF inv i] n i S(1)]
  ultimately show ?thesis
    using eater_holds [OF inv i eats] held(1) [OF left] held(2) [OF right]
    by (simp add: succ_fork_def prev_phil_def)
qed

definition eating_run :: "(bool \<times> actor) list" where
  "eating_run = (True, Main) # replicate 14 (True, Phil 0)"

lemma eating_run_eval:
  "map_option (\<lambda>s. phil_state (phils s ! 0)) (dine_run eating_run (dine_init 2 1)) = Some EATING"
  by code_simp

lemma eating_reached:
  obtains s where "dining False 2 1 s" and "phil_state (phils s ! 0) = EATING"
proof -
  obtain s where s: "dine_run eating_run (dine_init 2 1) = Some s" "phil_state (phils s ! 0) = EATING"
    using eating_run_eval by auto
  have "dining False 2 1 s"
    using dine_run_dining [OF s(1) dining.start, of False] by (simp add: eating_run_def list_all_iff)
  then show thesis using s(2) that by blast
qed

theorem neighbours_never_eat_witness:
  "\<exists>s. dining False 2 1 s \<and> phil_state (phils s ! 0) = EATING \<and> phil_state (phils s ! 1) \<noteq> EATING \<and>
    fork_sems s ! 0 = 0 \<and> fork_sems s ! 1 = 0"
proof -
  obtain s where s: "dining False 2 1 s" "phil_state (phils s ! 0) = EATING" by (rule eating_reached)
  show ?thesis using neighbours_never_eat [OF s(1) _ _ _ s(2)] s by (intro exI [of _ s]) simp
qed

text \<open>C15: No row of the table ever shows one fork in the hands of two philosophers, and a fork that is shown in
  somebody's hands is not on the table: its semaphore is zero. Up to 91 philosophers no label is a dash.\<close>

theorem no_fork_shown_twice:
  assumes run: "dining faults n c s" and n: "2 \<le> n" "n \<le> 91" and c: "0 \<le> c"
    and i: "i < n" and j: "j < n" and other: "i \<noteq> j" and k: "k < n"
    and shown: "forks_held n (phils s ! i) ! k \<noteq> CHR ''-''"
  shows "forks_held n (phils s ! i) ! k = wrapped_label FIRST_FORK_LABEL (int k) \<and>
    forks_held n (phils s ! j) ! k = CHR ''-'' \<and> fork_sems s ! k = 0"
proof -
  have inv: "dine_inv n c s" using dining_inv [OF run n(1) c] by simp
  have label: "wrapped_label FIRST_FORK_LABEL (int k) \<noteq> CHR ''-''" using fork_label_shown n(2) k by simp
  have held: "(k = a \<and> holding_left (phils s ! a) \<or> k = succ_fork n a \<and> holding_right (phils s ! a)) \<longleftrightarrow>
      forks_held n (phils s ! a) ! k \<noteq> CHR ''-''" if "a < n" for a
    using cell [OF info_of [OF inv that] n(1) that k] label by auto
  have taken: "k = a \<and> left_at a (stage (locs s ! a)) \<or> k = succ_fork n a \<and> right_at a (stage (locs s ! a))"
    if "a < n" "forks_held n (phils s ! a) ! k \<noteq> CHR ''-''" for a
    using held [OF that(1)] that held_left [OF inv that(1)] held_right [OF inv that(1)] by blast
  have sem: "fork_sems s ! k = 0" using taken [OF i shown] fork_held [OF inv i n(1)] by auto
  have "forks_held n (phils s ! j) ! k = CHR ''-''"
  proof (rule ccontr)
    assume "forks_held n (phils s ! j) ! k \<noteq> CHR ''-''"
    note both = taken [OF i shown] taken [OF j this]
    then show False
      using fork_held [OF inv i n(1)] fork_held [OF inv j n(1)] other
        succ_fork_simps(3) [OF i n(1)] succ_fork_simps(3) [OF j n(1)] by metis
  qed
  then show ?thesis using sem cell [OF info_of [OF inv i] n(1) i k] shown by (simp split: if_splits)
qed

theorem no_fork_shown_twice_witness:
  "\<exists>s. dining False 2 1 s \<and> forks_held 2 (phils s ! 0) ! 1 = CHR ''1'' \<and> forks_held 2 (phils s ! 1) ! 1 = CHR ''-''"
proof -
  obtain s where s: "dining False 2 1 s" "phil_state (phils s ! 0) = EATING" by (rule eating_reached)
  have inv: "dine_inv 2 1 s" using dining_inv [OF s(1)] by simp
  have "forks_held 2 (phils s ! 0) ! 1 = wrapped_label FIRST_FORK_LABEL (int 1)"
    using cell [OF info_of [OF inv, of 0], of 1] eater_holds [OF inv, of 0] s(2) by (simp add: succ_fork_def)
  also have label: "wrapped_label FIRST_FORK_LABEL (int 1) = CHR ''1''" by code_simp
  finally have shown: "forks_held 2 (phils s ! 0) ! 1 = CHR ''1''" .
  then show ?thesis using no_fork_shown_twice [OF s(1), of 0 1 1] s(1) by (intro exI [of _ s]) simp
qed

text \<open>C16: The data of dine.h stay well typed in every reachable state, with failing calls too: philosopher \<open>i\<close> points to the
  forks \<open>i\<close> and \<open>i + 1\<close> modulo \<open>n\<close> and to the printing lock, the indices with which \<open>print_status_change\<close> writes are inside
  its buffer of \<open>n\<close> characters, the state is one of the three constants, the cycles are in range, and every
  semaphore is 0 or 1.\<close>

theorem philosophers_well_typed:
  assumes run: "dining faults n c s" and n: "2 \<le> n" and c: "0 \<le> c" and i: "i < n"
  shows "length (phils s) = n \<and> length (fork_sems s) = n \<and> fork_sems s ! i \<le> 1 \<and> printing_sem s \<le> 1 \<and>
    phil_id (phils s ! i) = int i \<and>
    left_fork (phils s ! i) = Fork (left_fork_index (phils s ! i)) \<and> left_fork_index (phils s ! i) = i \<and>
    right_fork (phils s ! i) = Fork (right_fork_index (phils s ! i)) \<and> right_fork_index (phils s ! i) = (i + 1) mod n \<and>
    right_fork_index (phils s ! i) < n \<and> right_fork_index (phils s ! i) \<noteq> i \<and> printing_lock (phils s ! i) = Printing \<and>
    0 \<le> cycles_left (phils s ! i) \<and> cycles_left (phils s ! i) \<le> c \<and>
    phil_state (phils s ! i) \<in> {CHANGING, EATING, THINKING}"
proof -
  have inv: "dine_inv n c s" using dining_inv [OF run n c] by simp
  have "fork_sems s ! i \<le> 1" "printing_sem s \<le> 1"
    using inv i by (force simp: dine_inv_def forks_ok_def simp del: One_nat_def)+
  then show ?thesis
    using inv_lengths [OF inv] info_of [OF inv i] succ_fork_simps(1,2) [OF i n] moods_range
    by (auto simp: info_ok_def succ_fork_def)
qed

theorem philosophers_well_typed_witness:
  "\<exists>s. dining False 2 1 s \<and> phil_state (phils s ! 0) = EATING \<and> right_fork (phils s ! 1) = Fork 0 \<and>
    fork_sems s ! 1 \<le> 1"
proof -
  obtain s where s: "dining False 2 1 s" "phil_state (phils s ! 0) = EATING" by (rule eating_reached)
  show ?thesis using philosophers_well_typed [OF s(1), of 1] s by (intro exI [of _ s]) simp
qed

text \<open>C2: There is no deadlock: as long as no library call fails, in every state that any interleaving can reach
  either \<open>main\<close> has returned 0 or some thread can make a step.\<close>

theorem never_deadlocks:
  assumes run: "dining False n c s" and n: "2 \<le> n" and c: "0 \<le> c"
  shows "main_at s = Exited 0 \<or> (\<exists>a. dine_step True a s \<noteq> None)"
proof (cases "\<exists>e. main_at s = Exited e")
  case True
  then show ?thesis using dining_inv [OF run n c] dining_fine [OF run n c] by auto
next
  case False
  then show ?thesis using somebody_moves dining_inv [OF run n c] dining_fine [OF run n c] n by blast
qed

theorem never_deadlocks_witness:
  "\<exists>s. dining False 2 1 s \<and> phil_state (phils s ! 0) = EATING \<and>
    (main_at s = Exited 0 \<or> (\<exists>a. dine_step True a s \<noteq> None))"
proof -
  obtain s where s: "dining False 2 1 s" "phil_state (phils s ! 0) = EATING" by (rule eating_reached)
  show ?thesis using never_deadlocks [OF s(1)] s by (intro exI [of _ s]) simp
qed

text \<open>C14: Every run ends: whatever the interleaving and whichever library calls fail, \<open>n\<close> philosophers with \<open>c\<close>
  cycles make at most \<open>48 n c + 9 n + 4\<close> steps before nothing more can happen.\<close>

theorem every_run_ends:
  assumes "2 \<le> n" and "0 \<le> c" and "dine_run as (dine_init n c) = Some s"
  shows "length as \<le> 48 * n * nat c + 9 * n + 4"
  using dine_run_left [OF assms(1) dine_init_inv [OF assms(1,2)] assms(3)] run_left_init [of n c] by simp

theorem every_run_ends_witness:
  "\<exists>s. dine_run eating_run (dine_init 2 1) = Some s \<and> length eating_run \<le> 118"
proof -
  obtain s where s: "dine_run eating_run (dine_init 2 1) = Some s" using eating_run_eval by auto
  show ?thesis using every_run_ends [of 2 1, OF _ _ s] s by simp
qed

text \<open>C9: When \<open>main\<close> returns 0, every philosopher has returned with no cycles left, all semaphores have their first
  value again, and exactly \<open>8 n c + 5\<close> lines have been printed, all of the same width and each ended by a
  newline: the header of three, the first row, eight rows a cycle for each philosopher, and the last border.\<close>

theorem dinner_is_served:
  assumes run: "dining faults n c s" and n: "2 \<le> n" and c: "1 \<le> c" and exit: "main_at s = Exited 0"
  shows "(\<forall>i<n. locs s ! i = Done \<and> cycles_left (phils s ! i) = 0 \<and> fork_sems s ! i = FORK_INIT_VAL) \<and>
    printing_sem s = PRINTING_INIT_VAL \<and>
    (\<exists>ls. stdout s = concat ls \<and> length ls = 8 * n * nat c + 5 \<and> list_all (table_line n) ls)"
proof -
  have inv: "dine_inv n c s" "main_ok (main_at s) (locs s)" "out_inv n c s"
    using dining_inv [OF run n] dining_out [OF run n] c by simp_all
  note len = inv_lengths [OF inv(1)]
  have returned: "locs s ! i = Done" if "i < n" for i
    using inv(2) exit that len by (simp add: EXIT_FAILURE_def)
  have cycles: "cycles_left (phils s ! i) = 0" if "i < n" for i
    using inv(3) returned [OF that] that by (auto simp: out_inv_def round_ok_def)
  have fork: "fork_sems s ! i = FORK_INIT_VAL" if "i < n" for i
    using inv(1) that returned [OF that] returned [OF succ_fork_simps(5) [OF that n]]
    unfolding dine_inv_def forks_ok_def left_at_def right_at_def FORK_INIT_VAL_def by auto
  have "filter has_lock (locs s) = []"
    using returned len by (auto simp: filter_empty_conv in_set_conv_nth)
  then have "printing_sem s = PRINTING_INIT_VAL" using inv(1) by (simp add: dine_inv_def PRINTING_INIT_VAL_def)
  moreover obtain ls where "stdout s = concat ls" "list_all (table_line n) ls" "length ls = 8 * n * nat c + 5"
    using inv(3) rows_at_exit [OF run n c exit] exit by (auto simp: out_inv_def)
  ultimately show ?thesis using returned cycles fork by blast
qed

definition full_run :: "(bool \<times> actor) list" where
  "full_run = replicate 3 (True, Main) @ replicate 43 (True, Phil 0) @ replicate 43 (True, Phil 1) @ replicate 7 (True, Main)"

lemma full_run_eval: "map_option (\<lambda>s. main_at s) (dine_run full_run (dine_init 2 1)) = Some (Exited 0)"
  by code_simp

theorem dinner_is_served_witness:
  "\<exists>s. dine_run full_run (dine_init 2 1) = Some s \<and> locs s ! 1 = Done \<and>
    (\<exists>ls. stdout s = concat ls \<and> length ls = 21 \<and> list_all (table_line 2) ls)"
proof -
  obtain s where s: "dine_run full_run (dine_init 2 1) = Some s" "main_at s = Exited 0"
    using full_run_eval by auto
  have "dining False 2 1 s"
    using dine_run_dining [OF s(1) dining.start, of False] by (simp add: full_run_def list_all_iff)
  from dinner_is_served [OF this _ _ s(2)] s(1) show ?thesis by simp
qed

end
