(* ===== verification/Dine_Fail.thy ===== *)
theory Dine_Fail
  imports Dine_Props
begin

text \<open>
  What a failing library call does to the dining philosophers: a thread that leaves with \<open>THREAD_FAILURE\<close>
  keeps what it holds, so its neighbours starve and \<open>main\<close> may wait for them for ever.
\<close>

section \<open>Holding and needing a fork\<close>

text \<open>Philosopher \<open>i\<close> at place \<open>q\<close> has taken fork \<open>k\<close> and not put it down.\<close>

definition has_fork :: "nat \<Rightarrow> nat \<Rightarrow> pc \<Rightarrow> nat \<Rightarrow> bool" where
  "has_fork n i q k \<longleftrightarrow> k = i \<and> left_at i (stage q) \<or> k = succ_fork n i \<and> right_at i (stage q)"

lemma one_holder:
  assumes inv: "dine_inv n c s" and ij: "i < n" "j < n" "i \<noteq> j" and n: "2 \<le> n" and holds: "has_fork n j (locs s ! j) k"
  shows "fork_sems s ! k = 0" and "\<not> has_fork n i (locs s ! i) k"
proof -
  note Si = succ_fork_simps [OF ij(1) n] and Sj = succ_fork_simps [OF ij(2) n]
  note H = fork_held [OF inv ij(2) n]
  consider "k = j" "left_at j (stage (locs s ! j))" | "k = succ_fork n j" "right_at j (stage (locs s ! j))"
    using holds by (auto simp: has_fork_def)
  then have "fork_sems s ! k = 0 \<and> \<not> has_fork n i (locs s ! i) k"
  proof cases
    case 1
    then show ?thesis using H(1) Si(3) ij(3) by (auto simp: has_fork_def)
  next
    case 2
    then show ?thesis using H(2) Si(3) Sj(3) ij(3) by (auto simp: has_fork_def)
  qed
  then show "fork_sems s ! k = 0" and "\<not> has_fork n i (locs s ! i) k" by simp_all
qed

text \<open>The places of a cycle before a philosopher has both forks.\<close>

fun before_meal :: "pc \<Rightarrow> bool" where
  "before_meal (Lock d) = (d = To_changing \<or> d = First_fork)"
| "before_meal (Update d) = (d = To_changing \<or> d = First_fork)"
| "before_meal (Print d) = (d = To_changing \<or> d = First_fork)"
| "before_meal (Unlock d) = (d = To_changing \<or> d = First_fork)"
| "before_meal q = (q \<in> {Unborn, Loop, Enter, Take_first, Take_second})"

definition hungry :: "nat \<Rightarrow> dine \<Rightarrow> bool" where
  "hungry i s \<longleftrightarrow> before_meal (locs s ! i) \<and> 0 < cycles_left (phils s ! i)"

definition failed :: "nat \<Rightarrow> dine \<Rightarrow> bool" where
  "failed i s \<longleftrightarrow> (\<exists>q. locs s ! i = Failed q)"

lemma hungry_or_failed: "hungry i s \<or> failed i s \<Longrightarrow> locs s ! i \<noteq> Done"
  by (auto simp: hungry_def failed_def)

section \<open>One step\<close>

text \<open>From its hungry places a philosopher gets away only with both forks, or by a failing call.\<close>

lemma hungry_self:
  assumes hungry: "hungry i s" and step: "philosopher_step ok i s = Some s'"
    and i: "i < length (locs s)" "i < length (phils s)"
  shows "hungry i s' \<or> \<not> ok \<and> failed i s' \<or> stage (locs s' ! i) = 2"
proof -
  have wait: "sem_wait ok i m q s = Some s' \<Longrightarrow> (\<not> ok \<and> failed i s') \<or> locs s' ! i = q \<and> phils s' = phils s"
    and post: "sem_post ok i m q s = Some s' \<Longrightarrow> (\<not> ok \<and> failed i s') \<or> locs s' ! i = q \<and> phils s' = phils s" for m q
    using i by (auto simp: sem_wait_def sem_post_def thread_failure_def failed_def goto_def split: if_splits nat.splits)
  note here = step [unfolded philosopher_step_def Let_def]
  show ?thesis
    using here hungry i
    by (cases "locs s ! i") (auto dest!: wait post simp: hungry_def goto_def split: if_splits)
qed

lemma other_same:
  assumes inv: "dine_inv n c s" and x: "x < n" "x \<noteq> i" and step: "philosopher_step ok x s = Some s'"
  shows "locs s' ! i = locs s ! i" and "phils s' ! i = phils s ! i"
  using philosopher_ahead [OF inv x(1) step] x(2) by (auto simp: ahead_def)

lemma main_same:
  assumes "main_step ok s = Some s'" and m: "main_ok (main_at s) (locs s)" and len: "length (locs s) = length (phils s)"
  shows "phils s' = phils s" and "locs s' ! i = locs s ! i \<or> locs s ! i = Unborn \<and> locs s' ! i = Loop"
  using assms
  by (cases "main_at s"; auto simp: main_step_def Let_def goto_def nth_list_update split: if_splits pc.splits)+

lemma failed_stays:
  assumes inv: "dine_inv n c s" and m: "main_ok (main_at s) (locs s)" and step: "dine_step ok a s = Some s'"
    and q: "locs s ! j = Failed q"
  shows "locs s' ! j = Failed q"
  using step
proof (cases rule: dine_step_cases)
  case 1
  then show ?thesis using main_same(2) [OF 1(2) m, of j] inv_lengths [OF inv] q by simp
next
  case (2 x)
  moreover have "x \<noteq> j" using philosopher_frame(1) [OF 2(3)] q by auto
  ultimately show ?thesis using other_same(1) [OF inv _ _ 2(3)] inv_lengths [OF inv] q by simp
qed

lemma hungry_stays:
  assumes inv: "dine_inv n c s" and m: "main_ok (main_at s) (locs s)" and n: "2 \<le> n" and step: "dine_step ok a s = Some s'"
    and ij: "i < n" "j < n" "i \<noteq> j" and k: "k = i \<or> k = succ_fork n i"
    and holder: "locs s ! j = Failed q" "has_fork n j q k" and hungry: "hungry i s"
  shows "hungry i s' \<or> \<not> ok \<and> failed i s'"
proof -
  have inv': "dine_inv n c s'" using dining_step_inv [OF inv n m step] by simp
  have "has_fork n j (locs s' ! j) k" using failed_stays [OF inv m step holder(1)] holder(2) by (simp add: has_fork_def)
  then have "\<not> has_fork n i (locs s' ! i) k" using one_holder(2) [OF inv' ij n] by simp
  then have no: "stage (locs s' ! i) \<noteq> 2" using k by (auto simp: has_fork_def left_at_def right_at_def)
  from step show ?thesis
  proof (cases rule: dine_step_cases)
    case 1
    then show ?thesis using main_same(1) [OF 1(2) m] main_same(2) [OF 1(2) m, of i] inv_lengths [OF inv] hungry by (auto simp: hungry_def)
  next
    case (2 x)
    show ?thesis
    proof (cases "x = i")
      case True
      then show ?thesis using hungry_self [OF hungry 2(3) [unfolded True]] no inv_lengths [OF inv] ij by auto
    next
      case False
      then show ?thesis using other_same [OF inv _ False 2(3)] 2(2) inv_lengths [OF inv] hungry by (simp add: hungry_def)
    qed
  qed
qed

section \<open>Runs\<close>

lemma starving_run:
  assumes "dine_run as s = Some s'" and n: "2 \<le> n" and ij: "i < n" "j < n" "i \<noteq> j" and k: "k = i \<or> k = succ_fork n i"
    and holder: "has_fork n j q k"
    and "dine_inv n c s" and "main_ok (main_at s) (locs s)" and "locs s ! j = Failed q" and "hungry i s \<or> failed i s"
  shows "dine_inv n c s' \<and> main_ok (main_at s') (locs s') \<and> locs s' ! j = Failed q \<and> (hungry i s' \<or> failed i s')"
  using assms(1,8-)
proof (induction as s rule: dine_run.induct)
  case (2 ok a as s)
  then obtain t where t: "dine_step ok a s = Some t" "dine_run as t = Some s'" by (auto split: option.splits)
  note inv = 2(3,4)
  have "dine_inv n c t \<and> main_ok (main_at t) (locs t)" by (rule dining_step_inv [OF inv(1) n inv(2) t(1)])
  moreover have "locs t ! j = Failed q" by (rule failed_stays [OF inv t(1) 2(5)])
  moreover have "hungry i t \<or> failed i t"
    using 2(6) hungry_stays [OF inv n t(1) ij k 2(5) holder] failed_stays [OF inv t(1)] unfolding failed_def by blast
  ultimately show ?case using 2(1) [OF t(1,2)] by blast
qed simp

text \<open>Nobody that \<open>main\<close> joins before the hungry philosopher has failed, and neither has he.\<close>

definition unnoticed :: "nat \<Rightarrow> dine \<Rightarrow> bool" where
  "unnoticed i s \<longleftrightarrow> (\<forall>x\<le>i. \<not> failed x s) \<and> (\<forall>e. main_at s \<noteq> Exited e)"

lemma unnoticed_stays:
  assumes inv: "dine_inv n c s" and m: "main_ok (main_at s) (locs s)" and step: "dine_step True a s = Some s'"
    and i: "i < n" "locs s ! i \<noteq> Done" and un: "unnoticed i s"
  shows "unnoticed i s'"
  using step
proof (cases rule: dine_step_cases)
  case 1
  note len = inv_lengths [OF inv]
  have "\<not> failed x s'" if "x \<le> i" for x
    using main_same(2) [OF 1(2) m, of x] un that len by (auto simp: unnoticed_def failed_def)
  moreover have "main_at s' \<noteq> Exited e" for e
  proof (cases "main_at s")
    case (Joining x)
    then have "x \<le> i" using m i len by (metis main_ok.simps(2) not_le)
    then have "\<not> failed x s" using un by (simp add: unnoticed_def)
    then show ?thesis using 1(2) Joining len i \<open>x \<le> i\<close>
      by (cases "locs s ! x") (auto simp: main_step_def Let_def failed_def split: if_splits)
  next
    case (Destroying x)
    then show ?thesis using m i len by simp
  qed (use 1(2) in \<open>auto simp: main_step_def Let_def goto_def split: if_splits\<close>)
  ultimately show ?thesis by (simp add: unnoticed_def)
next
  case (2 x)
  obtain q where "\<forall>r. q \<noteq> Failed r" "locs s' = (locs s)[x := q]" using philosopher_fine [OF 2(3)] by blast
  then show ?thesis using un philosopher_frame(2) [OF 2(3)] 2(2) inv_lengths [OF inv]
    by (auto simp: unnoticed_def failed_def nth_list_update)
qed

lemma unnoticed_run:
  assumes "dine_run as s = Some s'" and "list_all fst as" and n: "2 \<le> n" and ij: "i < n" "j < n" "i \<noteq> j"
    and k: "k = i \<or> k = succ_fork n i" and holder: "has_fork n j q k"
    and "dine_inv n c s" and "main_ok (main_at s) (locs s)" and "locs s ! j = Failed q" and "hungry i s" and "unnoticed i s"
  shows "unnoticed i s'"
  using assms(1,2,9-)
proof (induction as s rule: dine_run.induct)
  case (2 ok a as s)
  have ok: ok using 2(3) by simp
  obtain t where t: "dine_step True a s = Some t" "dine_run as t = Some s'" using 2(2) ok by (auto split: option.splits)
  note inv = 2(4,5)
  have "dine_inv n c t" "main_ok (main_at t) (locs t)" using dining_step_inv [OF inv(1) n inv(2) t(1)] by simp_all
  moreover have "locs t ! j = Failed q" by (rule failed_stays [OF inv t(1) 2(6)])
  moreover have "hungry i t" using hungry_stays [OF inv n t(1) ij k 2(6) holder 2(7)] by simp
  moreover have "unnoticed i t"
    by (rule unnoticed_stays [OF inv t(1) ij(1) _ 2(8)]) (rule hungry_or_failed, simp add: 2(7))
  ultimately show ?case using 2(1) [of t] t ok 2(3) by simp
qed simp

text \<open>Without further failures every state leads to one in which nobody can move.\<close>

lemma runs_stop:
  assumes n: "2 \<le> n" and "dine_inv n c s" and "main_ok (main_at s) (locs s)"
  shows "\<exists>as s'. list_all fst as \<and> dine_run as s = Some s' \<and> (\<forall>a. dine_step True a s' = None)"
  using assms(2-)
proof (induction "run_left s" arbitrary: s rule: less_induct)
  case less
  show ?case
  proof (cases "\<forall>a. dine_step True a s = None")
    case True
    then show ?thesis by (intro exI [of _ "[]"] exI [of _ s]) simp
  next
    case False
    then obtain a t where t: "dine_step True a s = Some t" by auto
    from less(1) [OF run_left_step [OF less(2,3) t]] dining_step_inv [OF less(2) n less(3) t] obtain as s' where
      "list_all fst as" "dine_run as t = Some s'" "\<forall>a. dine_step True a s' = None" by blast
    then show ?thesis using t by (intro exI [of _ "(True, a) # as"] exI [of _ s']) simp
  qed
qed

lemma dining_run_left:
  assumes "dining faults n c s" and "2 \<le> n" and "0 \<le> c"
  shows "run_left s \<le> 48 * n * nat c + 9 * n + 4"
  using assms(1)
proof induction
  case (step s ok a s')
  then show ?case using run_left_step [of n c s ok a s'] dining_inv [OF step(1) assms(2,3)] by simp
qed (simp add: run_left_init)

section \<open>A failure starves the neighbours\<close>

text \<open>C18: When the thread of philosopher \<open>j\<close> has failed while it has fork \<open>k\<close>, the fork is lost: whatever happens
  afterwards, further failures included, its semaphore stays 0, a philosopher \<open>i\<close> beside it who has not yet taken both
  forks for his next meal never returns, and \<open>main\<close> never returns 0. If besides none of the threads \<open>0\<close> to \<open>i\<close>, which
  \<open>main\<close> joins first, has failed and \<open>main\<close> has not exited, then the failure is never reported: as long as no further
  call fails, \<open>main\<close> never exits, and after at most \<open>48 n c + 9 n + 4\<close> steps no thread can move.\<close>

theorem lost_fork_hangs:
  assumes run: "dining True n c s" and n: "2 \<le> n" and c: "0 \<le> c"
    and j: "j < n" "locs s ! j = Failed q" "has_fork n j q k"
    and i: "i < n" "i \<noteq> j" "k = i \<or> k = succ_fork n i" "before_meal (locs s ! i)" "0 < cycles_left (phils s ! i)"
  shows "(\<forall>as s'. dine_run as s = Some s' \<longrightarrow> fork_sems s' ! k = 0 \<and> locs s' ! i \<noteq> Done \<and> main_at s' \<noteq> Exited 0) \<and>
    ((\<forall>x\<le>i. \<forall>r. locs s ! x \<noteq> Failed r) \<and> (\<forall>e. main_at s \<noteq> Exited e) \<longrightarrow>
      (\<forall>as s'. list_all fst as \<and> dine_run as s = Some s' \<longrightarrow>
         length as \<le> 48 * n * nat c + 9 * n + 4 \<and> (\<forall>e. main_at s' \<noteq> Exited e)) \<and>
      (\<exists>as s'. list_all fst as \<and> dine_run as s = Some s' \<and> (\<forall>a. dine_step True a s' = None)))"
proof -
  have inv: "dine_inv n c s" "main_ok (main_at s) (locs s)" using dining_inv [OF run n c] by simp_all
  have hungry: "hungry i s" using i(4,5) by (simp add: hungry_def)
  have lost: "fork_sems s' ! k = 0 \<and> locs s' ! i \<noteq> Done \<and> main_at s' \<noteq> Exited 0" if r: "dine_run as s = Some s'" for as s'
  proof -
    have e: "dine_inv n c s'" "main_ok (main_at s') (locs s')" "locs s' ! j = Failed q" "hungry i s' \<or> failed i s'"
      using starving_run [OF r n i(1) j(1) i(2,3) j(3) inv j(2)] hungry by simp_all
    have "has_fork n j (locs s' ! j) k" using e(3) j(3) by (simp add: has_fork_def)
    then have "fork_sems s' ! k = 0" by (rule one_holder(1) [OF e(1) i(1) j(1) i(2) n])
    moreover have "locs s' ! i \<noteq> Done" by (rule hungry_or_failed [OF e(4)])
    ultimately show ?thesis using e(2) inv_lengths [OF e(1)] i(1) by (auto simp: EXIT_FAILURE_def)
  qed
  moreover have "length as \<le> 48 * n * nat c + 9 * n + 4 \<and> (\<forall>e. main_at s' \<noteq> Exited e)"
    if un: "unnoticed i s" and r: "list_all fst as" "dine_run as s = Some s'" for as s'
  proof -
    have "length as + run_left s' \<le> run_left s" by (rule dine_run_left [OF n inv r(2)])
    moreover have "unnoticed i s'"
      by (rule unnoticed_run [OF r(2,1) n i(1) j(1) i(2,3) j(3) inv j(2) hungry un])
    ultimately show ?thesis using dining_run_left [OF run n c] by (simp add: unnoticed_def)
  qed
  ultimately show ?thesis using runs_stop [OF n inv] unfolding unnoticed_def failed_def by blast
qed

text \<open>Two philosophers: 1 picks up its first fork and its wait for the printing lock fails, with fork 1 in its hand.\<close>

definition failing_run :: "(bool \<times> actor) list" where
  "failing_run = replicate 3 (True, Main) @ replicate 3 (True, Phil 1) @ [(False, Phil 1)]"

lemma failing_run_eval:
  "map_option (\<lambda>s. locs s = [Loop, Failed (Lock First_fork)] \<and> main_at s = Joining 0 \<and> cycles_left (phils s ! 0) = 1)
    (dine_run failing_run (dine_init 2 1)) = Some True"
  by code_simp

theorem lost_fork_hangs_witness:
  "\<exists>s. dine_run failing_run (dine_init 2 1) = Some s \<and> length (filter (\<lambda>e. \<not> fst e) failing_run) = 1 \<and>
    (\<exists>as s'. list_all fst as \<and> dine_run as s = Some s' \<and> (\<forall>a. dine_step True a s' = None) \<and> (\<forall>e. main_at s' \<noteq> Exited e))"
proof -
  obtain s where s: "dine_run failing_run (dine_init 2 1) = Some s" "locs s = [Loop, Failed (Lock First_fork)]"
    "main_at s = Joining 0" "cycles_left (phils s ! 0) = 1"
    using failing_run_eval by auto
  have run: "dining True 2 1 s" using dine_run_dining [OF s(1) dining.start] by simp
  have "has_fork 2 1 (Lock First_fork) 1" by (simp add: has_fork_def left_at_def)
  then have "(\<forall>as s'. list_all fst as \<and> dine_run as s = Some s' \<longrightarrow> (\<forall>e. main_at s' \<noteq> Exited e)) \<and>
      (\<exists>as s'. list_all fst as \<and> dine_run as s = Some s' \<and> (\<forall>a. dine_step True a s' = None))"
    using lost_fork_hangs [OF run, of 1 "Lock First_fork" 1 0] s(2-) by (auto simp: succ_fork_def)
  then show ?thesis using s(1) by (intro exI [of _ s]) (auto simp: failing_run_def)
qed

end
