(* ===== verification/Dine_Args.thy ===== *)
theory Dine_Args
  imports Dine_Model
begin

text \<open>
  The argument of the dining philosophers: what \<open>main\<close> accepts as a number of cycles.
\<close>

lemma space_codes: "is_space c \<Longrightarrow> of_char c \<in> {9, 10, 11, 12, 13, 32 :: nat}"
  by (auto simp: is_space_def)

lemma space_no_digit: "is_space c \<Longrightarrow> \<not> is_digit c"
  by (auto dest!: space_codes simp: is_digit_def)

lemma sign_codes [simp]:
  "\<not> is_space (CHR ''+'')" "\<not> is_space (CHR ''-'')" "\<not> is_digit (CHR ''+'')" "\<not> is_digit (CHR ''-'')"
  by code_simp+

lemma digits_value_pos:
  assumes "list_all is_digit ds"
  shows "0 \<le> digits_value ds"
proof -
  have "0 \<le> foldl (\<lambda>v c. 10 * v + (of_char c - 48)) v ds" if "0 \<le> v" for v :: int
    using assms that
  proof (induction ds arbitrary: v)
    case (Cons c ds)
    then have "(48 :: int) \<le> of_char c"
      by (metis is_digit_def list.pred_inject(2) of_nat_le_iff of_nat_numeral of_nat_of_char)
    then show ?case using Cons by simp
  qed simp
  then show ?thesis by (simp add: digits_value_def)
qed

text \<open>A number: white space, an optional plus, digits.\<close>

definition number :: "string \<Rightarrow> int \<Rightarrow> bool" where
  "number arg v \<longleftrightarrow> (\<exists>ws sg ds. arg = ws @ sg @ ds \<and> list_all is_space ws \<and> (sg = [] \<or> sg = ''+'') \<and>
     ds \<noteq> [] \<and> list_all is_digit ds \<and> v = digits_value ds)"

lemma strtol_number:
  assumes "list_all is_space ws" and "sg = [] \<or> sg = ''+''" and "ds \<noteq> []" and "list_all is_digit ds"
  shows "strtol (ws @ sg @ ds) =
    (if digits_value ds > LONG_MAX then (LONG_MAX, [], True) else (digits_value ds, [], False))"
proof -
  have hd: "is_digit (hd ds)" using assms(3,4) by (cases ds) auto
  then have "\<not> is_space (hd ds)" "hd ds \<noteq> CHR ''-''" "hd ds \<noteq> CHR ''+''" using space_no_digit by auto
  then have t: "dropWhile is_space (ws @ sg @ ds) = sg @ ds"
    using assms(1-3) by (cases ds) (auto simp: list_all_iff dropWhile_append2)
  have u: "(if sg @ ds \<noteq> [] \<and> (hd (sg @ ds) = CHR ''-'' \<or> hd (sg @ ds) = CHR ''+'') then tl (sg @ ds) else sg @ ds) = ds"
    and neg: "\<not> (sg @ ds \<noteq> [] \<and> hd (sg @ ds) = CHR ''-'')"
    using assms(2,3) \<open>hd ds \<noteq> CHR ''-''\<close> \<open>hd ds \<noteq> CHR ''+''\<close> by auto
  have w: "takeWhile is_digit ds = ds" "dropWhile is_digit ds = []"
    using assms(4) by (simp_all add: list_all_iff)
  have "LONG_MIN \<le> digits_value ds" using digits_value_pos [OF assms(4)] by (simp add: LONG_MIN_def)
  then show ?thesis unfolding strtol_def Let_def t u w if_not_P [OF neg] using assms(3) by simp
qed

lemma strtol_sound:
  assumes "strtol arg = (v, [], False)" and "0 < v"
  shows "number arg v"
proof -
  define t where "t = dropWhile is_space arg"
  define u where "u = (if t \<noteq> [] \<and> (hd t = CHR ''-'' \<or> hd t = CHR ''+'') then tl t else t)"
  note here = assms(1) [unfolded strtol_def Let_def, folded t_def, folded u_def]
  have ds: "takeWhile is_digit u \<noteq> []" using here assms(2) by (auto split: if_splits)
  have rest: "dropWhile is_digit u = []" using here ds by (auto split: if_splits)
  then have all: "list_all is_digit u" "takeWhile is_digit u = u"
    by (simp_all add: list_all_iff dropWhile_eq_Nil_conv takeWhile_eq_all_conv)
  have v: "v = (if t \<noteq> [] \<and> hd t = CHR ''-'' then - digits_value u else digits_value u)"
    using here [unfolded all(2)] ds [unfolded all(2)] by (auto split: if_splits)
  then have plus: "\<not> (t \<noteq> [] \<and> hd t = CHR ''-'')" using assms(2) digits_value_pos [OF all(1)] by auto
  then have "t = (if t \<noteq> [] \<and> hd t = CHR ''+'' then ''+'' else []) @ u"
    by (cases t) (auto simp: u_def)
  moreover have "arg = takeWhile is_space arg @ t" by (simp add: t_def)
  moreover have "list_all is_space (takeWhile is_space arg)" by (auto simp: list_all_iff dest: set_takeWhileD)
  ultimately show ?thesis unfolding number_def
    using ds [unfolded all(2)] all(1) v plus
    by (intro exI [of _ "takeWhile is_space arg"] exI [of _ "if t \<noteq> [] \<and> hd t = CHR ''+'' then ''+'' else []"] exI [of _ u]) auto
qed

text \<open>C19: The number of cycles: without an argument it is 1, with more than one there is a usage error, and one argument
  is accepted exactly if it is white space, an optional plus and decimal digits whose value is between 1 and
  \<open>INT_MAX\<close>; that value is the number of cycles.\<close>

theorem parse_cycles_accepts:
  "parse_cycles [prog] = Some 1 \<and> parse_cycles (prog # a # b # rest) = None \<and>
    (parse_cycles [prog, arg] = Some v \<longleftrightarrow> number arg v \<and> 1 \<le> v \<and> v \<le> INT_MAX)"
proof -
  have "parse_cycles [prog, arg] = Some v \<longleftrightarrow> strtol arg = (v, [], False) \<and> 1 \<le> v \<and> v \<le> INT_MAX"
    by (cases "strtol arg") (auto simp: parse_cycles_def split: if_splits)
  moreover have "strtol arg = (v, [], False)" if n: "number arg v" and v: "v \<le> INT_MAX"
  proof -
    obtain ws sg ds where ds: "arg = ws @ sg @ ds" "list_all is_space ws" "sg = [] \<or> sg = ''+''" "ds \<noteq> []"
      "list_all is_digit ds" "v = digits_value ds"
      using n unfolding number_def by blast
    then show ?thesis using strtol_number [OF ds(2-5)] v by (simp add: LONG_MAX_def INT_MAX_def)
  qed
  ultimately show ?thesis using strtol_sound [of arg v] by (auto simp: parse_cycles_def DEFAULT_CYCLES_def)
qed

text \<open>What \<open>main\<close> hands over to its threads: a start state with at least one cycle.\<close>

lemma main_begins:
  assumes "main_start n time_ok sem_init_ok argv = Inr s"
  shows "\<exists>c. 1 \<le> c \<and> c \<le> INT_MAX \<and> dining faults n c s"
proof -
  obtain c where c: "parse_cycles argv = Some c" "s = dine_init n c"
    using assms by (auto simp: main_start_def split: if_splits option.splits)
  then have "1 \<le> c \<and> c \<le> INT_MAX"
    by (auto simp: parse_cycles_def DEFAULT_CYCLES_def INT_MAX_def split: if_splits prod.splits)
  then show ?thesis using c(2) dining.start by blast
qed

section \<open>The time to dawdle\<close>

text \<open>Every value of \<open>random\<close> but the last gives a time that \<open>nanosleep\<close> accepts, below a second; the product
  in the code does not overflow an \<open>int\<close>.\<close>

lemma dawdle_range:
  assumes "0 \<le> r" and "r \<le> RAND_MAX"
  shows "0 \<le> dawdle_nsec r \<and> dawdle_nsec r \<le> INT_MAX \<and> (nanosleep_accepts (dawdle_nsec r) \<longleftrightarrow> r \<noteq> RAND_MAX)"
proof (cases "r = RAND_MAX")
  case True
  then show ?thesis
    by (simp add: dawdle_nsec_def RAND_MAX_def DAWDLEFACTOR_def INT_MAX_def nanosleep_accepts_def)
next
  case False
  then have "0 \<le> r * 1000 div RAND_MAX" "r * 1000 div RAND_MAX \<le> 999"
    using assms unfolding RAND_MAX_def by auto
  then show ?thesis using False
    by (simp add: dawdle_nsec_def DAWDLEFACTOR_def INT_MAX_def nanosleep_accepts_def)
qed

end
