(* ===== verification/Pipeit_Model.thy ===== *)
theory Pipeit_Model
  imports Prelude
begin

text \<open>
  The pipeline \<open>ls | sort -r > outfile\<close> of Lab01/pipeit.c: three processes, their descriptor tables, and
  every system call of the program as a step that succeeds or fails. The programs behind \<open>execlp\<close> are known
  by their documentation only: they may end at any time and with any status, except that \<open>sort\<close> does not end
  with status 0 before the end of its input, which for a pipe comes when no process has its write end open, and
  that \<open>ls\<close>, when it writes more than a pipe holds, does not end before \<open>sort\<close> reads or nobody can.
\<close>

section \<open>Descriptors\<close>

datatype channel = Terminal | Pipe_read | Pipe_write | Outfile

type_synonym table = "channel option list"

text \<open>The lowest free descriptor, and \<open>dup2\<close>. A descriptor beyond the list is closed.\<close>

fun install :: "channel \<Rightarrow> table \<Rightarrow> nat \<times> table" where
  "install f [] = (0, [Some f])"
| "install f (None # t) = (0, Some f # t)"
| "install f (Some g # t) = (let (d, u) = install f t in (Suc d, Some g # u))"

definition close_fd :: "nat \<Rightarrow> table \<Rightarrow> table" where
  "close_fd d t = t[d := None]"

definition dup2 :: "nat \<Rightarrow> nat \<Rightarrow> table \<Rightarrow> table" where
  "dup2 old new t = (t @ replicate (Suc new - length t) None)[new := t ! old]"

definition STDIN_FILENO :: nat where "STDIN_FILENO = 0"
definition STDOUT_FILENO :: nat where "STDOUT_FILENO = 1"

section \<open>Processes\<close>

text \<open>How a process ends, as \<open>wait\<close> reports it: with the low 8 bits of the argument of \<open>exit\<close>, which are what
  \<open>WEXITSTATUS\<close> gives, or killed by a signal.\<close>

datatype status = Exit_status "8 word" | Signal

text \<open>The next system call of a process: of the parent, of the parent after the second \<open>fork\<close> failed, of the two
  children; then the program it runs, or its end.\<close>

datatype point = Not_forked
  | At_pipe | Fork_ls | Fork_sort | Close_read | Close_write | Wait_first | Wait_second
  | Undo_read | Undo_write | Undo_wait
  | Ls_close_read | Ls_dup | Ls_close_write | Ls_exec
  | Sort_close_write | Sort_dup_in | Sort_close_read | Sort_open | Sort_dup_out | Sort_close_file | Sort_exec
  | Program string | Ended status

record process =
  point :: point
  fds :: table
  pipefd0 :: nat
  pipefd1 :: nat
  outfile_fd :: nat

record pipeline =
  parent :: process
  ls_child :: process
  sort_child :: process
  ls_reaped :: bool
  sort_reaped :: bool
  long_output :: bool

definition ended :: "status \<Rightarrow> process \<Rightarrow> process" where
  "ended st p = p\<lparr>point := Ended st, fds := []\<rparr>"

definition exit_1 :: "process \<Rightarrow> process" where
  "exit_1 p = ended (Exit_status 1) p"

definition nobody :: process where
  "nobody = \<lparr>point = Not_forked, fds = [], pipefd0 = 0, pipefd1 = 0, outfile_fd = 0\<rparr>"

text \<open>Started from a terminal with the three standard descriptors. \<open>long\<close>: the output of \<open>ls\<close> does not fit in a pipe.\<close>

definition pipeline_init :: "bool \<Rightarrow> pipeline" where
  "pipeline_init long = \<lparr>parent = nobody\<lparr>point := At_pipe, fds := replicate 3 (Some Terminal)\<rparr>,
     ls_child = nobody, sort_child = nobody, ls_reaped = False, sort_reaped = False, long_output = long\<rparr>"

section \<open>The children\<close>

definition ls_step :: "bool \<Rightarrow> process \<Rightarrow> process option" where
  "ls_step ok p =
    (case point p of
       Ls_close_read \<Rightarrow> Some (p\<lparr>fds := close_fd (pipefd0 p) (fds p), point := Ls_dup\<rparr>)
     | Ls_dup \<Rightarrow> Some (if ok then p\<lparr>fds := dup2 (pipefd1 p) STDOUT_FILENO (fds p), point := Ls_close_write\<rparr> else exit_1 p)
     | Ls_close_write \<Rightarrow> Some (p\<lparr>fds := close_fd (pipefd1 p) (fds p), point := Ls_exec\<rparr>)
     | Ls_exec \<Rightarrow> Some (if ok then p\<lparr>point := Program ''ls''\<rparr> else exit_1 p)
     | _ \<Rightarrow> None)"

definition sort_step :: "bool \<Rightarrow> process \<Rightarrow> process option" where
  "sort_step ok p =
    (case point p of
       Sort_close_write \<Rightarrow> Some (p\<lparr>fds := close_fd (pipefd1 p) (fds p), point := Sort_dup_in\<rparr>)
     | Sort_dup_in \<Rightarrow> Some (if ok then p\<lparr>fds := dup2 (pipefd0 p) STDIN_FILENO (fds p), point := Sort_close_read\<rparr> else exit_1 p)
     | Sort_close_read \<Rightarrow> Some (p\<lparr>fds := close_fd (pipefd0 p) (fds p), point := Sort_open\<rparr>)
     | Sort_open \<Rightarrow> Some (if ok then let (d, t) = install Outfile (fds p) in p\<lparr>fds := t, outfile_fd := d, point := Sort_dup_out\<rparr>
         else exit_1 p)
     | Sort_dup_out \<Rightarrow> Some (if ok then p\<lparr>fds := dup2 (outfile_fd p) STDOUT_FILENO (fds p), point := Sort_close_file\<rparr> else exit_1 p)
     | Sort_close_file \<Rightarrow> Some (p\<lparr>fds := close_fd (outfile_fd p) (fds p), point := Sort_exec\<rparr>)
     | Sort_exec \<Rightarrow> Some (if ok then p\<lparr>point := Program ''sort''\<rparr> else exit_1 p)
     | _ \<Rightarrow> None)"

section \<open>The parent\<close>

definition pipe_call :: "process \<Rightarrow> process" where
  "pipe_call p =
    (let (r, t) = install Pipe_read (fds p); (w, u) = install Pipe_write t
     in p\<lparr>fds := u, pipefd0 := r, pipefd1 := w\<rparr>)"

definition with_parent :: "(process \<Rightarrow> process) \<Rightarrow> pipeline \<Rightarrow> pipeline" where
  "with_parent f s = s\<lparr>parent := f (parent s)\<rparr>"

definition no_children :: "pipeline \<Rightarrow> bool" where
  "no_children s \<longleftrightarrow> (point (ls_child s) = Not_forked \<or> ls_reaped s) \<and> (point (sort_child s) = Not_forked \<or> sort_reaped s)"

text \<open>A call other than a \<open>wait\<close> that returns a child.\<close>

definition parent_step :: "bool \<Rightarrow> pipeline \<Rightarrow> pipeline option" where
  "parent_step ok s =
    (let p = parent s in
     case point p of
       At_pipe \<Rightarrow> Some (with_parent (\<lambda>p. if ok then (pipe_call p)\<lparr>point := Fork_ls\<rparr> else exit_1 p) s)
     | Fork_ls \<Rightarrow> Some (if ok then s\<lparr>ls_child := p\<lparr>point := Ls_close_read\<rparr>, parent := p\<lparr>point := Fork_sort\<rparr>\<rparr>
         else with_parent exit_1 s)
     | Fork_sort \<Rightarrow> Some (if ok then s\<lparr>sort_child := p\<lparr>point := Sort_close_write\<rparr>, parent := p\<lparr>point := Close_read\<rparr>\<rparr>
         else with_parent (point_update (\<lambda>_. Undo_read)) s)
     | Undo_read \<Rightarrow> Some (with_parent (\<lambda>p. p\<lparr>fds := close_fd (pipefd0 p) (fds p), point := Undo_write\<rparr>) s)
     | Undo_write \<Rightarrow> Some (with_parent (\<lambda>p. p\<lparr>fds := close_fd (pipefd1 p) (fds p), point := Undo_wait\<rparr>) s)
     | Close_read \<Rightarrow> Some (with_parent (\<lambda>p. p\<lparr>fds := close_fd (pipefd0 p) (fds p), point := Close_write\<rparr>) s)
     | Close_write \<Rightarrow> Some (with_parent (\<lambda>p. p\<lparr>fds := close_fd (pipefd1 p) (fds p), point := Wait_first\<rparr>) s)
     | Undo_wait \<Rightarrow> (if ok \<and> \<not> no_children s then None else Some (with_parent exit_1 s))
     | Wait_first \<Rightarrow> (if ok \<and> \<not> no_children s then None else Some (with_parent exit_1 s))
     | Wait_second \<Rightarrow> (if ok \<and> \<not> no_children s then None else Some (with_parent exit_1 s))
     | _ \<Rightarrow> None)"

text \<open>What the parent does with the status that \<open>wait\<close> returns.\<close>

definition after_wait :: "status \<Rightarrow> process \<Rightarrow> process" where
  "after_wait st p =
    (case point p of
       Wait_first \<Rightarrow> if st = Exit_status 0 then p\<lparr>point := Wait_second\<rparr> else exit_1 p
     | Wait_second \<Rightarrow> if st = Exit_status 0 then ended (Exit_status 0) p else exit_1 p
     | _ \<Rightarrow> exit_1 p)"

definition waiting :: "process \<Rightarrow> bool" where
  "waiting p \<longleftrightarrow> point p \<in> {Wait_first, Wait_second, Undo_wait}"

section \<open>Steps\<close>

datatype who = Parent | Ls | Sort

text \<open>A process makes its next call, \<open>wait\<close> returns a child, or a running program ends.\<close>

datatype pipe_event = Call who bool | Wait_gives who | Finish who status

definition write_end_open :: "pipeline \<Rightarrow> bool" where
  "write_end_open s \<longleftrightarrow> Some Pipe_write \<in> set (fds (parent s)) \<union> set (fds (ls_child s)) \<union> set (fds (sort_child s))"

definition read_end_open :: "pipeline \<Rightarrow> bool" where
  "read_end_open s \<longleftrightarrow> Some Pipe_read \<in> set (fds (parent s)) \<union> set (fds (ls_child s)) \<union> set (fds (sort_child s))"

definition running :: "process \<Rightarrow> bool" where
  "running p \<longleftrightarrow> (case point p of Program _ \<Rightarrow> True | _ \<Rightarrow> False)"

definition reap :: "bool \<Rightarrow> process \<Rightarrow> pipeline \<Rightarrow> pipeline option" where
  "reap reaped child s =
    (if waiting (parent s) \<and> \<not> reaped
     then case point child of Ended st \<Rightarrow> Some (with_parent (after_wait st) s) | _ \<Rightarrow> None
     else None)"

fun pipeline_step :: "pipe_event \<Rightarrow> pipeline \<Rightarrow> pipeline option" where
  "pipeline_step (Call Parent ok) s = parent_step ok s"
| "pipeline_step (Call Ls ok) s = map_option (\<lambda>p. s\<lparr>ls_child := p\<rparr>) (ls_step ok (ls_child s))"
| "pipeline_step (Call Sort ok) s = map_option (\<lambda>p. s\<lparr>sort_child := p\<rparr>) (sort_step ok (sort_child s))"
| "pipeline_step (Wait_gives Parent) s = None"
| "pipeline_step (Wait_gives Ls) s = map_option (\<lambda>s. s\<lparr>ls_reaped := True\<rparr>) (reap (ls_reaped s) (ls_child s) s)"
| "pipeline_step (Wait_gives Sort) s = map_option (\<lambda>s. s\<lparr>sort_reaped := True\<rparr>) (reap (sort_reaped s) (sort_child s) s)"
| "pipeline_step (Finish Parent st) s = None"
| "pipeline_step (Finish Ls st) s =
    (if running (ls_child s) \<and> (long_output s \<longrightarrow> running (sort_child s) \<or> \<not> read_end_open s)
     then Some (s\<lparr>ls_child := ended st (ls_child s)\<rparr>) else None)"
| "pipeline_step (Finish Sort st) s =
    (if running (sort_child s) \<and> (st = Exit_status 0 \<longrightarrow> \<not> write_end_open s)
     then Some (s\<lparr>sort_child := ended st (sort_child s)\<rparr>) else None)"

text \<open>The states that can be reached; calls may fail at any time.\<close>

inductive piped :: "pipeline \<Rightarrow> bool" where
  start: "piped (pipeline_init long)"
| step: "piped s \<Longrightarrow> pipeline_step e s = Some s' \<Longrightarrow> piped s'"

fun pipeline_run :: "pipe_event list \<Rightarrow> pipeline \<Rightarrow> pipeline option" where
  "pipeline_run [] s = Some s"
| "pipeline_run (e # es) s = (case pipeline_step e s of None \<Rightarrow> None | Some s' \<Rightarrow> pipeline_run es s')"

end
