(* ===== verification/Pipeit_Props.thy ===== *)
theory Pipeit_Props
  imports Pipeit_Model
begin

text \<open>
  The pipeline of Lab01: the descriptor table of each process follows from where it is, so the programs
  start with the right files, \<open>sort\<close> sees the end of its input, and no process waits for ever.
\<close>

section \<open>Where a process is, and what it has open\<close>

fun table_at :: "point \<Rightarrow> table" where
  "table_at Not_forked = []"
| "table_at (Ended st) = []"
| "table_at At_pipe = replicate 3 (Some Terminal)"
| "table_at Close_write = [Some Terminal, Some Terminal, Some Terminal, None, Some Pipe_write]"
| "table_at Undo_write = [Some Terminal, Some Terminal, Some Terminal, None, Some Pipe_write]"
| "table_at Wait_first = [Some Terminal, Some Terminal, Some Terminal, None, None]"
| "table_at Wait_second = [Some Terminal, Some Terminal, Some Terminal, None, None]"
| "table_at Undo_wait = [Some Terminal, Some Terminal, Some Terminal, None, None]"
| "table_at Ls_dup = [Some Terminal, Some Terminal, Some Terminal, None, Some Pipe_write]"
| "table_at Ls_close_write = [Some Terminal, Some Pipe_write, Some Terminal, None, Some Pipe_write]"
| "table_at Ls_exec = [Some Terminal, Some Pipe_write, Some Terminal, None, None]"
| "table_at Sort_dup_in = [Some Terminal, Some Terminal, Some Terminal, Some Pipe_read, None]"
| "table_at Sort_close_read = [Some Pipe_read, Some Terminal, Some Terminal, Some Pipe_read, None]"
| "table_at Sort_open = [Some Pipe_read, Some Terminal, Some Terminal, None, None]"
| "table_at Sort_dup_out = [Some Pipe_read, Some Terminal, Some Terminal, Some Outfile, None]"
| "table_at Sort_close_file = [Some Pipe_read, Some Outfile, Some Terminal, Some Outfile, None]"
| "table_at Sort_exec = [Some Pipe_read, Some Outfile, Some Terminal, None, None]"
| "table_at (Program prog) = (if prog = ''ls'' then [Some Terminal, Some Pipe_write, Some Terminal, None, None]
    else [Some Pipe_read, Some Outfile, Some Terminal, None, None])"
| "table_at _ = [Some Terminal, Some Terminal, Some Terminal, Some Pipe_read, Some Pipe_write]"

fun home :: "who \<Rightarrow> point \<Rightarrow> bool" where
  "home w (Ended st) = True"
| "home w Not_forked = (w \<noteq> Parent)"
| "home w (Program prog) = (w = Ls \<and> prog = ''ls'' \<or> w = Sort \<and> prog = ''sort'')"
| "home w q = (if q \<in> {Ls_close_read, Ls_dup, Ls_close_write, Ls_exec} then w = Ls
    else if q \<in> {Sort_close_write, Sort_dup_in, Sort_close_read, Sort_open, Sort_dup_out, Sort_close_file, Sort_exec}
    then w = Sort else w = Parent)"

definition process_ok :: "who \<Rightarrow> process \<Rightarrow> bool" where
  "process_ok w p \<longleftrightarrow> home w (point p) \<and> fds p = table_at (point p) \<and>
     (point p \<noteq> At_pipe \<and> point p \<noteq> Not_forked \<and> (\<forall>st. point p \<noteq> Ended st) \<longrightarrow> pipefd0 p = 3 \<and> pipefd1 p = 4) \<and>
     (point p = Sort_dup_out \<or> point p = Sort_close_file \<longrightarrow> outfile_fd p = 3)"

text \<open>How far the parent is says which children exist and which have been waited for.\<close>

definition succeeded :: "bool \<Rightarrow> process \<Rightarrow> bool" where
  "succeeded reaped p \<longleftrightarrow> reaped \<and> point p = Ended (Exit_status 0)"

fun family_ok :: "point \<Rightarrow> pipeline \<Rightarrow> bool" where
  "family_ok At_pipe s = (point (ls_child s) = Not_forked \<and> point (sort_child s) = Not_forked \<and> \<not> ls_reaped s \<and> \<not> sort_reaped s)"
| "family_ok Fork_ls s = (point (ls_child s) = Not_forked \<and> point (sort_child s) = Not_forked \<and> \<not> ls_reaped s \<and> \<not> sort_reaped s)"
| "family_ok (Ended st) s = (st = Exit_status 1 \<or>
     st = Exit_status 0 \<and> succeeded (ls_reaped s) (ls_child s) \<and> succeeded (sort_reaped s) (sort_child s))"
| "family_ok Wait_second s = (point (ls_child s) \<noteq> Not_forked \<and> point (sort_child s) \<noteq> Not_forked \<and>
     (succeeded (ls_reaped s) (ls_child s) \<and> \<not> sort_reaped s \<or> succeeded (sort_reaped s) (sort_child s) \<and> \<not> ls_reaped s))"
| "family_ok q s = (point (ls_child s) \<noteq> Not_forked \<and> \<not> ls_reaped s \<and> \<not> sort_reaped s \<and>
     (point (sort_child s) = Not_forked \<longleftrightarrow> q \<in> {Fork_sort, Undo_read, Undo_write, Undo_wait}))"

definition pipeline_ok :: "pipeline \<Rightarrow> bool" where
  "pipeline_ok s \<longleftrightarrow> process_ok Parent (parent s) \<and> process_ok Ls (ls_child s) \<and> process_ok Sort (sort_child s) \<and>
     family_ok (point (parent s)) s"

lemma ended_ok [simp]: "process_ok w (ended st p)" "process_ok w (exit_1 p)" "point (ended st p) = Ended st"
  "point (exit_1 p) = Ended (Exit_status 1)"
  by (simp_all add: process_ok_def ended_def exit_1_def)

lemma ls_step_ok:
  assumes "ls_step ok p = Some p'" and "process_ok Ls p"
  shows "process_ok Ls p' \<and> point p' \<noteq> Not_forked \<and> point p \<noteq> Not_forked \<and> (\<forall>st. point p \<noteq> Ended st)"
  using assms
  by (cases "point p")
    (auto simp: ls_step_def process_ok_def exit_1_def ended_def close_fd_def dup2_def STDOUT_FILENO_def eval_nat_numeral split: if_splits)

lemma sort_step_ok:
  assumes "sort_step ok p = Some p'" and "process_ok Sort p"
  shows "process_ok Sort p' \<and> point p' \<noteq> Not_forked \<and> point p \<noteq> Not_forked \<and> (\<forall>st. point p \<noteq> Ended st)"
  using assms
  by (cases "point p")
    (auto simp: sort_step_def process_ok_def exit_1_def ended_def close_fd_def dup2_def STDOUT_FILENO_def STDIN_FILENO_def
      eval_nat_numeral split: if_splits)

lemma family_child:
  assumes "family_ok q s" and "point p \<noteq> Not_forked"
  shows "point (ls_child s) \<noteq> Not_forked \<Longrightarrow> (\<forall>st. point (ls_child s) \<noteq> Ended st) \<Longrightarrow> family_ok q (s\<lparr>ls_child := p\<rparr>)"
    and "point (sort_child s) \<noteq> Not_forked \<Longrightarrow> (\<forall>st. point (sort_child s) \<noteq> Ended st) \<Longrightarrow> family_ok q (s\<lparr>sort_child := p\<rparr>)"
  using assms by (cases q; auto simp: succeeded_def)+

lemma table_steps:
  "pipe_call p = p\<lparr>fds := [Some Terminal, Some Terminal, Some Terminal, Some Pipe_read, Some Pipe_write], pipefd0 := 3, pipefd1 := 4\<rparr>"
  if "fds p = replicate 3 (Some Terminal)"
  using that by (simp add: pipe_call_def eval_nat_numeral)

lemma close_steps:
  "close_fd 3 [Some Terminal, Some Terminal, Some Terminal, Some Pipe_read, Some Pipe_write] =
    [Some Terminal, Some Terminal, Some Terminal, None, Some Pipe_write]"
  "close_fd 4 [Some Terminal, Some Terminal, Some Terminal, None, Some Pipe_write] =
    [Some Terminal, Some Terminal, Some Terminal, None, None]"
  by (simp_all add: close_fd_def eval_nat_numeral)

lemma parent_exit_ok: "pipeline_ok s \<Longrightarrow> pipeline_ok (with_parent exit_1 s)"
  by (simp add: pipeline_ok_def with_parent_def)

lemma parent_step_ok:
  assumes step: "parent_step ok s = Some s'" and inv: "pipeline_ok s"
  shows "pipeline_ok s'"
proof -
  note here = step [unfolded parent_step_def Let_def]
  note exit = parent_exit_ok [OF inv]
  have P: "process_ok Parent (parent s)" and F: "family_ok (point (parent s)) s"
    and C: "process_ok Ls (ls_child s)" "process_ok Sort (sort_child s)"
    using inv by (simp_all add: pipeline_ok_def)
  show ?thesis
  proof (cases "point (parent s)")
    case At_pipe
    have "process_ok Parent ((pipe_call (parent s))\<lparr>point := Fork_ls\<rparr>)"
      using P At_pipe by (simp add: process_ok_def table_steps)
    then show ?thesis using here exit F C At_pipe by (cases ok) (auto simp: pipeline_ok_def with_parent_def)
  next
    case Fork_ls
    have "process_ok Ls ((parent s)\<lparr>point := Ls_close_read\<rparr>)" "process_ok Parent ((parent s)\<lparr>point := Fork_sort\<rparr>)"
      using P Fork_ls by (simp_all add: process_ok_def)
    then show ?thesis using here exit F C Fork_ls by (cases ok) (auto simp: pipeline_ok_def)
  next
    case Fork_sort
    have "process_ok Sort ((parent s)\<lparr>point := Sort_close_write\<rparr>)" "process_ok Parent ((parent s)\<lparr>point := Close_read\<rparr>)"
      "process_ok Parent ((parent s)\<lparr>point := Undo_read\<rparr>)"
      using P Fork_sort by (simp_all add: process_ok_def)
    then show ?thesis using here F C Fork_sort by (cases ok) (auto simp: pipeline_ok_def with_parent_def)
  next
    case Close_read
    have "process_ok Parent ((parent s)\<lparr>fds := close_fd (pipefd0 (parent s)) (fds (parent s)), point := Close_write\<rparr>)"
      using P Close_read by (simp add: process_ok_def close_steps)
    then show ?thesis using here F C Close_read by (auto simp: pipeline_ok_def with_parent_def)
  next
    case Close_write
    have "process_ok Parent ((parent s)\<lparr>fds := close_fd (pipefd1 (parent s)) (fds (parent s)), point := Wait_first\<rparr>)"
      using P Close_write by (simp add: process_ok_def close_steps)
    then show ?thesis using here F C Close_write by (auto simp: pipeline_ok_def with_parent_def)
  next
    case Undo_read
    have "process_ok Parent ((parent s)\<lparr>fds := close_fd (pipefd0 (parent s)) (fds (parent s)), point := Undo_write\<rparr>)"
      using P Undo_read by (simp add: process_ok_def close_steps)
    then show ?thesis using here F C Undo_read by (auto simp: pipeline_ok_def with_parent_def)
  next
    case Undo_write
    have "process_ok Parent ((parent s)\<lparr>fds := close_fd (pipefd1 (parent s)) (fds (parent s)), point := Undo_wait\<rparr>)"
      using P Undo_write by (simp add: process_ok_def close_steps)
    then show ?thesis using here F C Undo_write by (auto simp: pipeline_ok_def with_parent_def)
  qed (use here exit in \<open>simp_all split: if_splits\<close>)
qed

lemma reap_steps:
  assumes "reap r c s = Some s'" and inv: "pipeline_ok s"
  shows "\<exists>st. point c = Ended st \<and> r = False \<and> waiting (parent s) \<and> s' = with_parent (after_wait st) s"
  using assms by (auto simp: reap_def split: if_splits point.splits)

lemma after_wait_ok:
  assumes "process_ok Parent p" and "waiting p"
  shows "process_ok Parent (after_wait st p)" and "point (after_wait st p) = (if st \<noteq> Exit_status 0 then Ended (Exit_status 1)
    else if point p = Wait_first then Wait_second else if point p = Wait_second then Ended (Exit_status 0) else Ended (Exit_status 1))"
  using assms by (auto simp: waiting_def after_wait_def process_ok_def exit_1_def ended_def)

lemma wait_ok:
  assumes inv: "pipeline_ok s" and w: "waiting (parent s)"
  shows "point (ls_child s) = Ended st \<Longrightarrow> \<not> ls_reaped s \<Longrightarrow>
      pipeline_ok ((with_parent (after_wait st) s)\<lparr>ls_reaped := True\<rparr>)"
    and "point (sort_child s) = Ended st \<Longrightarrow> \<not> sort_reaped s \<Longrightarrow>
      pipeline_ok ((with_parent (after_wait st) s)\<lparr>sort_reaped := True\<rparr>)"
proof -
  have P: "process_ok Parent (parent s)" and F: "family_ok (point (parent s)) s"
    and C: "process_ok Ls (ls_child s)" "process_ok Sort (sort_child s)"
    using inv by (simp_all add: pipeline_ok_def)
  note A = after_wait_ok [OF P w, of st]
  show "point (ls_child s) = Ended st \<Longrightarrow> \<not> ls_reaped s \<Longrightarrow>
      pipeline_ok ((with_parent (after_wait st) s)\<lparr>ls_reaped := True\<rparr>)"
    "point (sort_child s) = Ended st \<Longrightarrow> \<not> sort_reaped s \<Longrightarrow>
      pipeline_ok ((with_parent (after_wait st) s)\<lparr>sort_reaped := True\<rparr>)"
    using A F C w by (auto simp: pipeline_ok_def with_parent_def waiting_def succeeded_def)
qed

lemma pipeline_step_ok:
  assumes step: "pipeline_step e s = Some s'" and inv: "pipeline_ok s"
  shows "pipeline_ok s'"
proof -
  have F: "family_ok (point (parent s)) s"
    and C: "process_ok Parent (parent s)" "process_ok Ls (ls_child s)" "process_ok Sort (sort_child s)"
    using inv by (simp_all add: pipeline_ok_def)
  have ls: "pipeline_ok (s\<lparr>ls_child := p\<rparr>)"
    if "process_ok Ls p" "point p \<noteq> Not_forked" "point (ls_child s) \<noteq> Not_forked" "\<forall>st. point (ls_child s) \<noteq> Ended st" for p
    using family_child(1) [OF F that(2-4)] that(1) C by (simp add: pipeline_ok_def)
  have sort: "pipeline_ok (s\<lparr>sort_child := p\<rparr>)"
    if "process_ok Sort p" "point p \<noteq> Not_forked" "point (sort_child s) \<noteq> Not_forked" "\<forall>st. point (sort_child s) \<noteq> Ended st" for p
    using family_child(2) [OF F that(2-4)] that(1) C by (simp add: pipeline_ok_def)
  show ?thesis
  proof (cases e)
    case (Call w ok)
    show ?thesis
    proof (cases w)
      case Parent
      then show ?thesis using step Call parent_step_ok inv by simp
    next
      case Ls
      then show ?thesis using step Call ls_step_ok [OF _ C(2)] ls by auto
    next
      case Sort
      then show ?thesis using step Call sort_step_ok [OF _ C(3)] sort by auto
    qed
  next
    case (Wait_gives w)
    then show ?thesis using step wait_ok [OF inv] reap_steps [OF _ inv] by (cases w) fastforce+
  next
    case (Finish w st)
    show ?thesis
    proof (cases w)
      case Parent
      then show ?thesis using step Finish by simp
    next
      case Ls
      then have "s' = s\<lparr>ls_child := ended st (ls_child s)\<rparr>" "running (ls_child s)" using step Finish by (auto split: if_splits)
      then show ?thesis using ls [of "ended st (ls_child s)"] by (auto simp: running_def split: point.splits)
    next
      case Sort
      then have "s' = s\<lparr>sort_child := ended st (sort_child s)\<rparr>" "running (sort_child s)" using step Finish by (auto split: if_splits)
      then show ?thesis using sort [of "ended st (sort_child s)"] by (auto simp: running_def split: point.splits)
    qed
  qed
qed

lemma piped_ok: "piped s \<Longrightarrow> pipeline_ok s"
proof (induction rule: piped.induct)
  case start
  show ?case by (simp add: pipeline_init_def pipeline_ok_def process_ok_def nobody_def)
next
  case (step s e s')
  then show ?case using pipeline_step_ok by blast
qed

section \<open>Every run ends\<close>

fun calls_left :: "point \<Rightarrow> nat" where
  "calls_left Not_forked = 0"
| "calls_left At_pipe = 7"
| "calls_left Fork_ls = 6"
| "calls_left Fork_sort = 5"
| "calls_left Close_read = 4"
| "calls_left Close_write = 3"
| "calls_left Wait_first = 2"
| "calls_left Wait_second = 1"
| "calls_left Undo_read = 3"
| "calls_left Undo_write = 2"
| "calls_left Undo_wait = 1"
| "calls_left Ls_close_read = 5"
| "calls_left Ls_dup = 4"
| "calls_left Ls_close_write = 3"
| "calls_left Ls_exec = 2"
| "calls_left Sort_close_write = 8"
| "calls_left Sort_dup_in = 7"
| "calls_left Sort_close_read = 6"
| "calls_left Sort_open = 5"
| "calls_left Sort_dup_out = 4"
| "calls_left Sort_close_file = 3"
| "calls_left Sort_exec = 2"
| "calls_left (Program prog) = 1"
| "calls_left (Ended st) = 0"

definition child_left :: "nat \<Rightarrow> process \<Rightarrow> nat" where
  "child_left k p = (if point p = Not_forked then k else calls_left (point p))"

definition events_left :: "pipeline \<Rightarrow> nat" where
  "events_left s = calls_left (point (parent s)) + child_left 5 (ls_child s) + child_left 8 (sort_child s)"

lemma ls_step_less: "ls_step ok p = Some p' \<Longrightarrow> child_left 5 p' < child_left 5 p"
  by (cases "point p") (auto simp: ls_step_def child_left_def exit_1_def ended_def split: if_splits)

lemma sort_step_less: "sort_step ok p = Some p' \<Longrightarrow> child_left 8 p' < child_left 8 p"
  by (cases "point p") (auto simp: sort_step_def child_left_def exit_1_def ended_def split: if_splits prod.splits)

lemma parent_step_less:
  assumes "parent_step ok s = Some s'" and "family_ok (point (parent s)) s"
  shows "events_left s' < events_left s"
proof -
  note here = assms(1) [unfolded parent_step_def Let_def]
  show ?thesis
    using here assms(2)
    by (cases "point (parent s)")
      (auto simp: events_left_def child_left_def with_parent_def exit_1_def ended_def split: if_splits)
qed

lemma wait_less: "waiting p \<Longrightarrow> calls_left (point (after_wait st p)) < calls_left (point p)"
  by (auto simp: waiting_def after_wait_def exit_1_def ended_def)

lemma pipeline_step_less:
  assumes step: "pipeline_step e s = Some s'" and inv: "pipeline_ok s"
  shows "events_left s' < events_left s"
proof (cases e)
  case (Call w ok)
  then show ?thesis using step inv ls_step_less sort_step_less parent_step_less
    by (cases w) (auto simp: events_left_def pipeline_ok_def)
next
  case (Wait_gives w)
  then show ?thesis using step reap_steps [OF _ inv] wait_less
    by (cases w) (fastforce simp: events_left_def with_parent_def)+
next
  case (Finish w st)
  then show ?thesis using step
    by (cases w) (auto simp: events_left_def child_left_def running_def ended_def split: if_splits point.splits)
qed

lemma pipeline_run_less: "pipeline_run es s = Some s' \<Longrightarrow> pipeline_ok s \<Longrightarrow> length es + events_left s' \<le> events_left s"
proof (induction es arbitrary: s)
  case (Cons e es)
  then obtain t where t: "pipeline_step e s = Some t" "pipeline_run es t = Some s'" by (auto split: option.splits)
  then show ?case using Cons.IH [OF t(2) pipeline_step_ok [OF t(1) Cons.prems(2)]] pipeline_step_less [OF t(1) Cons.prems(2)] by simp
qed simp

lemma pipeline_run_piped: "pipeline_run es s = Some s' \<Longrightarrow> piped s \<Longrightarrow> piped s'"
  by (induction es arbitrary: s) (auto split: option.splits intro: piped.step)

section \<open>Nobody waits for ever\<close>

fun successful :: "pipe_event \<Rightarrow> bool" where
  "successful (Call w ok) = ok"
| "successful (Wait_gives w) = True"
| "successful (Finish w st) = (st = Exit_status 0)"

lemma sort_can_move:
  assumes "process_ok Sort (sort_child s)" and "point (sort_child s) \<noteq> Not_forked" and "\<forall>st. point (sort_child s) \<noteq> Ended st"
    and "\<not> write_end_open s \<or> \<not> running (sort_child s)"
  shows "pipeline_step (Call Sort True) s \<noteq> None \<or> pipeline_step (Finish Sort (Exit_status 0)) s \<noteq> None"
  using assms by (cases "point (sort_child s)") (auto simp: process_ok_def sort_step_def running_def)

lemma waiting_closed:
  assumes "pipeline_ok s" and "waiting (parent s)" and "point (ls_child s) = Ended st" and "running (sort_child s)"
  shows "\<not> write_end_open s"
  using assms by (auto simp: pipeline_ok_def process_ok_def waiting_def running_def write_end_open_def split: point.splits)

text \<open>A full pipe: if \<open>sort\<close> does not read yet, it is on its way, or its end is closed everywhere.\<close>

lemma ls_gets_on:
  assumes inv: "pipeline_ok s" and w: "waiting (parent s)" and ls: "point (ls_child s) \<noteq> Not_forked" "\<forall>st. point (ls_child s) \<noteq> Ended st"
  shows "\<exists>e. successful e \<and> pipeline_step e s \<noteq> None"
proof -
  have C: "process_ok Parent (parent s)" "process_ok Ls (ls_child s)" "process_ok Sort (sort_child s)"
    using inv by (simp_all add: pipeline_ok_def)
  consider "\<not> running (ls_child s)" | "running (ls_child s)" "long_output s \<longrightarrow> running (sort_child s) \<or> \<not> read_end_open s"
    | "running (ls_child s)" "\<not> running (sort_child s)" "read_end_open s" by blast
  then show ?thesis
  proof cases
    case 1
    then have "pipeline_step (Call Ls True) s \<noteq> None"
      using C(2) ls by (cases "point (ls_child s)") (auto simp: process_ok_def ls_step_def running_def)
    then show ?thesis by (intro exI [of _ "Call Ls True"]) simp
  next
    case 2
    then show ?thesis by (intro exI [of _ "Finish Ls (Exit_status 0)"]) simp
  next
    case 3
    have "Some Pipe_read \<notin> set (fds (parent s))" using C(1) w by (auto simp: process_ok_def waiting_def)
    moreover have "Some Pipe_read \<notin> set (fds (ls_child s))"
      using C(2) 3(1) by (cases "point (ls_child s)") (auto simp: process_ok_def running_def)
    ultimately have "Some Pipe_read \<in> set (fds (sort_child s))" using 3(3) by (simp add: read_end_open_def)
    then have "point (sort_child s) \<noteq> Not_forked \<and> (\<forall>st. point (sort_child s) \<noteq> Ended st)"
      using C(3) by (auto simp: process_ok_def)
    then show ?thesis using sort_can_move [OF C(3)] 3(2) by (metis successful.simps(1,3))
  qed
qed

lemma parent_gets_on:
  assumes inv: "pipeline_ok s" and there: "\<forall>st. point (parent s) \<noteq> Ended st"
  shows "\<exists>e. successful e \<and> pipeline_step e s \<noteq> None"
proof (cases "waiting (parent s)")
  case False
  then have "pipeline_step (Call Parent True) s \<noteq> None"
    using inv there by (cases "point (parent s)") (auto simp: parent_step_def Let_def waiting_def pipeline_ok_def process_ok_def)
  then show ?thesis by (intro exI [of _ "Call Parent True"]) simp
next
  case True
  have C: "process_ok Ls (ls_child s)" "process_ok Sort (sort_child s)" and F: "family_ok (point (parent s)) s"
    using inv by (simp_all add: pipeline_ok_def)
  have ls: "point (ls_child s) \<noteq> Not_forked" using F True by (auto simp: waiting_def)
  show ?thesis
  proof (cases "\<exists>st. point (ls_child s) = Ended st")
    case False
    then show ?thesis using ls_gets_on [OF inv True ls] by blast
  next
    case dead: True
    then obtain st where st: "point (ls_child s) = Ended st" by blast
    show ?thesis
    proof (cases "ls_reaped s")
      case False
      then have "pipeline_step (Wait_gives Ls) s \<noteq> None" using True st by (simp add: reap_def)
      then show ?thesis by (metis successful.simps(2))
    next
      case reaped: True
      have sort: "point (sort_child s) \<noteq> Not_forked" "\<not> sort_reaped s" using F True reaped by (auto simp: waiting_def)
      show ?thesis
      proof (cases "\<exists>st. point (sort_child s) = Ended st")
        case True
        then have "pipeline_step (Wait_gives Sort) s \<noteq> None" using \<open>waiting (parent s)\<close> sort by (auto simp: reap_def)
        then show ?thesis by (metis successful.simps(2))
      next
        case False
        then show ?thesis using sort_can_move [OF C(2) sort(1)] waiting_closed [OF inv \<open>waiting (parent s)\<close> st]
          by (metis successful.simps(1,3))
      qed
    qed
  qed
qed

lemma running_ls:
  "process_ok Ls p \<Longrightarrow> running p \<Longrightarrow> point p = Program ''ls'' \<and>
    fds p = [Some Terminal, Some Pipe_write, Some Terminal, None, None]"
  by (cases "point p") (simp_all add: process_ok_def running_def)

lemma running_sort:
  "process_ok Sort p \<Longrightarrow> running p \<Longrightarrow> point p = Program ''sort'' \<and>
    fds p = [Some Pipe_read, Some Outfile, Some Terminal, None, None]"
  by (cases "point p") (simp_all add: process_ok_def running_def)

section \<open>Properties\<close>

text \<open>C17: In every state that the pipeline reaches, whatever calls fail: \<open>ls\<close> runs with its output in the pipe and
  \<open>sort\<close> with its input from the pipe and its output in outfile, neither with any other end of the pipe; and the
  parent returns 0 only after it has waited for both children and both have exited with 0.\<close>

theorem pipeline_plumbing:
  assumes "piped s"
  shows "(running (ls_child s) \<longrightarrow> point (ls_child s) = Program ''ls'' \<and>
      fds (ls_child s) = [Some Terminal, Some Pipe_write, Some Terminal, None, None]) \<and>
    (running (sort_child s) \<longrightarrow> point (sort_child s) = Program ''sort'' \<and>
      fds (sort_child s) = [Some Pipe_read, Some Outfile, Some Terminal, None, None]) \<and>
    (point (parent s) = Ended (Exit_status 0) \<longrightarrow>
      ls_reaped s \<and> point (ls_child s) = Ended (Exit_status 0) \<and>
      sort_reaped s \<and> point (sort_child s) = Ended (Exit_status 0))"
  using piped_ok [OF assms] running_ls [of "ls_child s"] running_sort [of "sort_child s"]
  by (auto simp: pipeline_ok_def succeeded_def)

definition pipeit_run :: "pipe_event list" where
  "pipeit_run = replicate 5 (Call Parent True) @ replicate 4 (Call Ls True) @ replicate 7 (Call Sort True)"

definition pipeit_rest :: "pipe_event list" where
  "pipeit_rest = [Finish Ls (Exit_status 0), Wait_gives Ls, Finish Sort (Exit_status 0), Wait_gives Sort]"

lemma pipeit_run_eval:
  "map_option (\<lambda>s. (running (ls_child s), running (sort_child s))) (pipeline_run pipeit_run (pipeline_init True)) = Some (True, True)"
  "map_option (\<lambda>s. point (parent s)) (pipeline_run (pipeit_run @ pipeit_rest) (pipeline_init True)) = Some (Ended (Exit_status 0))"
  by code_simp+

theorem pipeline_plumbing_witness:
  "\<exists>s. pipeline_run pipeit_run (pipeline_init True) = Some s \<and>
    fds (ls_child s) = [Some Terminal, Some Pipe_write, Some Terminal, None, None] \<and>
    fds (sort_child s) = [Some Pipe_read, Some Outfile, Some Terminal, None, None]"
proof -
  obtain s where s: "pipeline_run pipeit_run (pipeline_init True) = Some s" "running (ls_child s)" "running (sort_child s)"
    using pipeit_run_eval(1) by auto
  show ?thesis using pipeline_plumbing [OF pipeline_run_piped [OF s(1) piped.start]] s by simp
qed

text \<open>C10: The parent never waits for ever: after every run, which has at most 20 events, it has exited with 0 or 1,
  or some process can go on without a failure, however long the output of \<open>ls\<close> is; \<open>sort\<close> then gets the end of its
  input.\<close>

theorem pipeline_never_blocks:
  assumes run: "pipeline_run es (pipeline_init long) = Some s"
  shows "length es \<le> 20 \<and>
    (point (parent s) = Ended (Exit_status 0) \<or> point (parent s) = Ended (Exit_status 1) \<or>
      (\<exists>e. successful e \<and> pipeline_step e s \<noteq> None))"
proof -
  have inv: "pipeline_ok s" using piped_ok pipeline_run_piped [OF run piped.start] by blast
  have "length es \<le> 20"
    using pipeline_run_less [OF run piped_ok [OF piped.start]]
    by (simp add: events_left_def pipeline_init_def child_left_def nobody_def)
  moreover have "st = Exit_status 0 \<or> st = Exit_status 1" if "point (parent s) = Ended st" for st
    using inv that by (auto simp: pipeline_ok_def)
  ultimately show ?thesis using parent_gets_on [OF inv] by blast
qed

theorem pipeline_never_blocks_witness:
  "\<exists>s. pipeline_run (pipeit_run @ pipeit_rest) (pipeline_init True) = Some s \<and> length (pipeit_run @ pipeit_rest) \<le> 20 \<and>
    point (parent s) = Ended (Exit_status 0)"
proof -
  obtain s where s: "pipeline_run (pipeit_run @ pipeit_rest) (pipeline_init True) = Some s" "point (parent s) = Ended (Exit_status 0)"
    using pipeit_run_eval(2) by auto
  show ?thesis using pipeline_never_blocks [OF s(1)] s by blast
qed

text \<open>When \<open>ls\<close> fails first the parent exits while \<open>sort\<close> is still running.\<close>

definition early_exit :: "pipe_event list" where
  "early_exit = pipeit_run @ [Finish Ls (Exit_status 2), Wait_gives Ls]"

lemma parent_leaves_sort:
  "map_option (\<lambda>s. (point (parent s), point (sort_child s), sort_reaped s)) (pipeline_run early_exit (pipeline_init True)) =
    Some (Ended (Exit_status 1), Program ''sort'', False)"
  by code_simp

end
