(* ===== verification/Spec2Isabelle.thy ===== *)
theory Spec2Isabelle
  imports Malloc_Session Grant_Props Lwp_Sched_Props Lwp_Thread_Props Dine_Fail Dine_Args Pipeit_Props
begin

text \<open>
  A verification library for the programs of CSC 453 (operating systems). The repository holds five
  programs that share no code; each has its own group of theories, and this theory imports them all. \<open>Prelude\<close>
  has the machine types and the lemmas on words, \<open>Libc\<close> the functions of the C library that several of them call.

  \<^bold>\<open>Heap allocator\<close> (src/Asgn1/malloc.c). \<open>ByteMem\<close> is the process memory: one byte per address, scalars in
  little-endian order, and the locale \<open>struct_field\<close> for a field of a struct. \<open>Malloc_Model\<close> translates the file:
  \<open>malloc\<close>, \<open>free\<close>, \<open>calloc\<close>, \<open>realloc\<close>, their helpers, and the debug printers with their buffer. Block
  headers live in the same bytes as the payloads. \<open>sbrk\<close>, \<open>memset\<close>, \<open>memcpy\<close>, \<open>snprintf\<close>, \<open>write\<close> are the C
  library's, modelled from their documentation. \<open>Malloc_Blocks\<close> relates the bytes to a list of blocks and interprets
  \<open>struct_field\<close> for the three header fields; \<open>Malloc_Steps\<close> and \<open>Malloc_Ops\<close> show what each helper and each
  operation does to that list; \<open>Malloc_Client\<close>, \<open>Malloc_Props\<close>, \<open>Malloc_Realloc\<close> say it in terms of the allocated
  blocks and their bytes; \<open>Malloc_Session\<close> is the step relation of a client that uses no block after freeing
  it, with the invariant and the fact that every call returns. Two theorems show requests near \<open>SIZE_MAX\<close> that
  wrap or never return.

  \<^bold>\<open>Lightweight processes\<close> (src/Asgn2: lwp.c, lwp.h, scheduler.c, magic64.S, fp.h). \<open>Lwp_Model\<close> translates the
  library over a store of thread structures, the registers and the words on the stacks; \<open>swap_rfiles\<close> is the
  assembly file, and a call that switches threads returns where the processor goes on (\<open>control\<close>). Addresses
  that \<open>malloc\<close> and \<open>mmap\<close> return, the stack limit, the page size and whether \<open>munmap\<close> fails are arguments.
  \<open>Lwp_Queues\<close> is the locale \<open>thread_queue\<close> for a chain through a pointer field, interpreted for the live and waiting
  queues; \<open>Lwp_Scheduler\<close> is the locale \<open>scheduler_contract\<close>, what lwp.c relies on in a scheduler, and its
  interpretation by the round-robin scheduler; its extension \<open>separate_scheduler\<close> is what a handover from one
  scheduler to another relies on: a scheduler may use the two pointers lwp.h sets aside for schedulers, but of its own
  threads only. \<open>Lwp_Threads\<close>, \<open>Lwp_Population\<close> and \<open>Lwp_Calls\<close> prove the calls
  correct over any scheduler that keeps the contract, and \<open>Lwp_Session\<close> lets programs make calls in any order, with one restriction that the code does not
  enforce: no thread calls \<open>lwp_wait\<close> while the oldest zombie is promised to a woken waiter (\<open>oldest_zombie_free\<close>). All
  properties of sessions stand under it, and the last one of \<open>Lwp_Props\<close> shows a program that breaks it. The
  properties are in \<open>Lwp_Props\<close> (invariant, every call returns, how the process ends, and a waiter that loses
  its zombie), \<open>Lwp_Sched_Props\<close> (the scheduler is a list, it is fair, a change of scheduler hands over the pool, between any two schedulers with the contract) and
  \<open>Lwp_Thread_Props\<close> (context switches, creation, exit, wait, lookup by id).

  \<^bold>\<open>Dining philosophers\<close> (src/Asgn3: dine.c, dine.h). \<open>Dine_Model\<close>: each thread has a place (\<open>pc\<close>) in the code
  of \<open>philosopher\<close>; \<open>philosopher_step\<close> and \<open>main_step\<close> are its next semaphore or thread call, change of shared data or
  printed row, and \<open>dining\<close> is any interleaving, in which calls may fail if \<open>faults\<close>. The number of
  philosophers is a variable, at least 2 as dine.h demands; hypotheses \<open>0 \<le> c\<close> and \<open>1 \<le> c\<close> on the number of cycles
  follow from \<open>Dine_Args\<close>, which says what \<open>main\<close> accepts. \<open>Dine_Inv\<close> proves the invariant: forks, printing lock and
  records agree with the places. \<open>Dine_Live\<close> has the argument against deadlock and a measure that every step
  decreases; \<open>Dine_Output\<close> counts the printed lines; \<open>Dine_Props\<close> has the properties, and \<open>Dine_Fail\<close> shows that a
  thread that fails with a fork in its hand starves its neighbour and can hang the program.

  \<^bold>\<open>Secret keeper\<close> (src/Asgn4: secret.c, secret.h, ioc_secret.h, grant_secret.c). \<open>Secret_Model\<close> translates the driver's entries and
  the live update callbacks; the kernel's copies, credentials and the data store are arguments. \<open>Secret_Props\<close>
  refines the driver to an abstract vault and proves who can read, that readers get the bytes that writers passed
  in, that no copy leaves the buffer (with a kernel that watches the requests), and the round trip of a live update. \<open>Grant_Model\<close> is the client grant_secret.c with its system calls running the driver's
  entries, and \<open>Grant_Props\<close> shows what program and driver achieve together.

  \<^bold>\<open>Pipeline\<close> (src/Lab01/pipeit.c). \<open>Pipeit_Model\<close>: three processes with descriptor tables, started with
  descriptors 0, 1 and 2 open, and a step for every system call, which may fail. The programs \<open>ls\<close> and \<open>sort\<close> may
  end at any time with any status, except that \<open>sort\<close> does not succeed before the end of its input, and that an \<open>ls\<close>
  with more output than a pipe holds ends only once \<open>sort\<close> reads or nobody can. A status is the low 8 bits that \<open>wait\<close>
  reports. \<open>Pipeit_Props\<close>:
  the tables follow from the places, so the programs get the right files, no write end keeps \<open>sort\<close>
  waiting, and every run ends.

  \<^bold>\<open>Loops.\<close> No fuel is used. List walks of the C code are \<open>partial_function (option)\<close>: \<open>None\<close> is a walk that
  does not end, or a step through NULL or a freed pointer, and the theorems prove that a result exists.
  \<open>dining\<close> and \<open>piped\<close> are step relations whose runs are bounded by explicit numbers.

  \<^bold>\<open>Integers.\<close> Sizes, addresses, ids and register contents are words of the widths of the LP64 target.
  Counters of type \<open>int\<close> that stay small (threads in the scheduler, open descriptors, cycles) are unbounded
  integers.

  \<^bold>\<open>Not modelled.\<close> The debug printers of lwp.c and secret.c, which are switched off in the sources;
  messages on stderr; the sleep itself in \<open>dawdle\<close> (its length is \<open>dawdle_nsec\<close>) and the random seed of dine.c, which
  touch no modelled state; the registration of the
  driver with MINIX and its \<open>main\<close>, which only call system libraries; the test programs tests.c and
  lwp_test.c; the supplied demonstration trivial_pt.c of thread creation, which has no state besides its output. What the C library, the kernel and MINIX
  do is taken from their documentation.
\<close>

end
